(* ===== verification/Prelude.thy ===== *)
theory Prelude
  imports Main "HOL-Library.Word"
begin

text \<open>
  Shared vocabulary of the development: the machine integers of the program, the
  \<open>Result\<close> and \<open>Option\<close> plumbing behind Rust's \<open>?\<close> operator, checked slices, and the
  search functions on slices (\<open>position\<close>, \<open>rposition\<close>) with the lemmas every
  component uses about them.
\<close>

section \<open>Machine integers\<close>

text \<open>
  The program is built for 64-bit targets (x86_64 and aarch64 wheels), so \<open>usize\<close> is
  64 bits wide. Arithmetic on these types wraps, as Rust's does in the release profile.
\<close>

type_synonym u8 = "8 word"
type_synonym u16 = "16 word"
type_synonym u32 = "32 word"
type_synonym u64 = "64 word"
type_synonym u128 = "128 word"
type_synonym usize = "64 word"

lemma unat_bound: "unat (w :: 'a::len word) < 2 ^ LENGTH('a)"
  by (rule unsigned_less)

lemma unat_of_nat_count: "n < 2 ^ 64 \<Longrightarrow> unat (of_nat n :: u64) = n"
  by (simp add: unat_of_nat take_bit_nat_eq_self)

named_theorems result_simps \<open>rewriting of results, options and their combinators\<close>
named_theorems field_updates \<open>what each state-changing operation does to the observed fields\<close>

section \<open>Results and options\<close>

text \<open>A Rust \<open>Result<'a, 'e>\<close> is \<open>'e + 'a\<close>; \<open>and_then r k\<close> is \<open>k(r?)\<close>.\<close>

fun and_then :: "'e + 'a \<Rightarrow> ('a \<Rightarrow> 'e + 'b) \<Rightarrow> 'e + 'b" where
  "and_then (Inl e) k = Inl e"
| "and_then (Inr x) k = k x"

fun map_err :: "('e \<Rightarrow> 'f) \<Rightarrow> 'e + 'a \<Rightarrow> 'f + 'a" where
  "map_err f (Inl e) = Inl (f e)"
| "map_err f (Inr x) = Inr x"

text \<open>\<open>Option::transpose\<close>, \<open>Option::ok_or\<close>, \<open>Option::or\<close> and \<open>Option::unwrap_or\<close>.\<close>

fun transpose_opt :: "('e + 'a) option \<Rightarrow> 'e + 'a option" where
  "transpose_opt None = Inr None"
| "transpose_opt (Some (Inl e)) = Inl e"
| "transpose_opt (Some (Inr x)) = Inr (Some x)"

fun ok_or :: "'e \<Rightarrow> 'a option \<Rightarrow> 'e + 'a" where
  "ok_or e None = Inl e"
| "ok_or e (Some x) = Inr x"

fun opt_or :: "'a option \<Rightarrow> 'a option \<Rightarrow> 'a option" where
  "opt_or (Some x) y = Some x"
| "opt_or None y = y"

fun unwrap_or :: "'a option \<Rightarrow> 'a \<Rightarrow> 'a" where
  "unwrap_or (Some x) d = x"
| "unwrap_or None d = d"

definition is_some :: "'a option \<Rightarrow> bool" where
  "is_some x = (case x of None \<Rightarrow> False | Some _ \<Rightarrow> True)"

definition some_and :: "'a option \<Rightarrow> ('a \<Rightarrow> bool) \<Rightarrow> bool" where
  "some_and x P = (case x of None \<Rightarrow> False | Some y \<Rightarrow> P y)"

lemma is_some_simps [simp]: "is_some None = False" "is_some (Some x) = True"
  by (simp_all add: is_some_def)

lemma some_and_simps [simp]: "some_and None P = False" "some_and (Some x) P = P x"
  by (simp_all add: some_and_def)

lemma is_some_iff: "is_some x \<longleftrightarrow> x \<noteq> None"
  by (cases x) auto

lemma and_then_Inr [result_simps]:
  "and_then r k = Inr y \<longleftrightarrow> (\<exists>x. r = Inr x \<and> k x = Inr y)"
  by (cases r) auto

lemma and_then_Inl [result_simps]:
  "and_then r k = Inl e \<longleftrightarrow> r = Inl e \<or> (\<exists>x. r = Inr x \<and> k x = Inl e)"
  by (cases r) auto

lemma map_err_Inr [result_simps]: "map_err f r = Inr y \<longleftrightarrow> r = Inr y"
  by (cases r) auto

lemma ok_or_Inr [result_simps]: "ok_or e x = Inr y \<longleftrightarrow> x = Some y"
  by (cases x) auto

lemma transpose_opt_Inr [result_simps]:
  "transpose_opt x = Inr y \<longleftrightarrow>
     (x = None \<and> y = None) \<or> (\<exists>z. x = Some (Inr z) \<and> y = Some z)"
  by (cases x rule: transpose_opt.cases) auto

lemma unwrap_or_cong_Some [simp]: "x = Some y \<Longrightarrow> unwrap_or x d = y"
  by simp

section \<open>Slices\<close>

text \<open>
  \<open>slice a b xs\<close> is \<open>xs[a..b]\<close>: Rust panics when \<open>a > b\<close> or \<open>b > len\<close>, which is
  \<open>None\<close> here.
\<close>

definition slice :: "nat \<Rightarrow> nat \<Rightarrow> 'a list \<Rightarrow> 'a list option" where
  "slice a b xs = (if a \<le> b \<and> b \<le> length xs then Some (take (b - a) (drop a xs)) else None)"

lemma slice_to [simp]: "b \<le> length xs \<Longrightarrow> slice 0 b xs = Some (take b xs)"
  by (simp add: slice_def)

lemma slice_from [simp]: "a \<le> length xs \<Longrightarrow> slice a (length xs) xs = Some (drop a xs)"
  by (simp add: slice_def)

definition strip_prefix :: "'a list \<Rightarrow> 'a list \<Rightarrow> 'a list option" where
  "strip_prefix p xs =
     (if take (length p) xs = p then Some (drop (length p) xs) else None)"

definition starts_with :: "'a list \<Rightarrow> 'a list \<Rightarrow> bool" where
  "starts_with p xs = (take (length p) xs = p)"

lemma strip_prefix_Some: "strip_prefix p xs = Some ys \<longleftrightarrow> xs = p @ ys"
proof
  assume "strip_prefix p xs = Some ys"
  then have "take (length p) xs = p" "drop (length p) xs = ys"
    by (auto simp: strip_prefix_def split: if_splits)
  then show "xs = p @ ys" by (metis append_take_drop_id)
qed (simp add: strip_prefix_def)

lemma strip_prefix_None: "strip_prefix p xs = None \<longleftrightarrow> \<not> starts_with p xs"
  by (simp add: strip_prefix_def starts_with_def)

lemma starts_with_append [simp]: "starts_with p (p @ xs)"
  by (simp add: starts_with_def)

lemma starts_with_iff: "starts_with p xs \<longleftrightarrow> (\<exists>ys. xs = p @ ys)"
  by (metis append_take_drop_id starts_with_append starts_with_def)

section \<open>Searching a slice\<close>

text \<open>\<open>iter().position(P)\<close> and \<open>iter().rposition(P)\<close>; also \<open>str::find\<close> and \<open>str::rfind\<close>.\<close>

fun position :: "('a \<Rightarrow> bool) \<Rightarrow> 'a list \<Rightarrow> nat option" where
  "position P [] = None"
| "position P (x # xs) = (if P x then Some 0 else map_option Suc (position P xs))"

fun rposition :: "('a \<Rightarrow> bool) \<Rightarrow> 'a list \<Rightarrow> nat option" where
  "rposition P [] = None"
| "rposition P (x # xs) =
     (case rposition P xs of
        Some i \<Rightarrow> Some (Suc i)
      | None \<Rightarrow> if P x then Some 0 else None)"

lemma position_None: "position P xs = None \<longleftrightarrow> (\<forall>x\<in>set xs. \<not> P x)"
  by (induction xs) auto

lemma rposition_None: "rposition P xs = None \<longleftrightarrow> (\<forall>x\<in>set xs. \<not> P x)"
  by (induction xs) (auto split: option.splits)

lemma position_append:
  "position P (xs @ ys) =
     (case position P xs of
        Some i \<Rightarrow> Some i
      | None \<Rightarrow> map_option ((+) (length xs)) (position P ys))"
  by (induction xs; cases "position P ys") (auto split: option.splits)

lemma rposition_append:
  "rposition P (xs @ ys) =
     (case rposition P ys of
        Some i \<Rightarrow> Some (length xs + i)
      | None \<Rightarrow> rposition P xs)"
  by (induction xs) (auto split: option.splits)

lemma position_split:
  assumes "position P xs = Some i"
  shows "i < length xs \<and> P (xs ! i) \<and> (\<forall>x\<in>set (take i xs). \<not> P x)"
  using assms
proof (induction xs arbitrary: i)
  case Nil
  then show ?case by simp
next
  case (Cons x xs)
  then show ?case by (cases i) (auto split: if_splits)
qed

lemma rposition_split:
  assumes "rposition P xs = Some i"
  shows "i < length xs \<and> P (xs ! i) \<and> (\<forall>x\<in>set (drop (Suc i) xs). \<not> P x)"
  using assms
proof (induction xs arbitrary: i)
  case Nil
  then show ?case by simp
next
  case (Cons x xs)
  then show ?case by (cases i) (auto split: if_splits option.splits simp: rposition_None)
qed

lemma position_middle:
  "\<forall>x\<in>set xs. \<not> P x \<Longrightarrow> P y \<Longrightarrow> position P (xs @ y # ys) = Some (length xs)"
  by (induction xs) auto

lemma rposition_middle:
  "\<forall>y\<in>set ys. \<not> P y \<Longrightarrow> P x \<Longrightarrow> rposition P (xs @ x # ys) = Some (length xs)"
  by (simp add: rposition_append rposition_None [THEN iffD2] split: option.splits)

lemma position_takeWhile:
  "position P xs = Some i \<Longrightarrow> take i xs = takeWhile (\<lambda>x. \<not> P x) xs"
  by (induction xs arbitrary: i) (auto split: if_splits)

lemma position_dropWhile:
  "position P xs = Some i \<Longrightarrow> drop i xs = dropWhile (\<lambda>x. \<not> P x) xs"
  by (induction xs arbitrary: i) (auto split: if_splits)

lemma split_at_nth: "i < length xs \<Longrightarrow> xs = take i xs @ xs ! i # drop (Suc i) xs"
  by (rule id_take_nth_drop)

section \<open>Counting in lists that are updated in place\<close>

lemma length_filter_update:
  assumes "i < length xs"
  shows "length (filter P (xs[i := y])) + of_bool (P (xs ! i)) =
         length (filter P xs) + of_bool (P y)"
  using assms
proof (induction xs arbitrary: i)
  case Nil
  then show ?case by simp
next
  case (Cons x xs)
  then show ?case by (cases i) auto
qed

lemma sum_list_map_update:
  fixes f :: "'a \<Rightarrow> 'b::comm_monoid_add"
  assumes "i < length xs"
  shows "sum_list (map f (xs[i := y])) + f (xs ! i) = sum_list (map f xs) + f y"
  using assms
proof (induction xs arbitrary: i)
  case Nil
  then show ?case by simp
next
  case (Cons x xs)
  then show ?case
  proof (cases i)
    case (Suc j)
    with Cons.IH [of j] Cons.prems
    have "sum_list (map f (xs[j := y])) + f (xs ! j) = sum_list (map f xs) + f y" by simp
    then show ?thesis using Suc by (simp add: add.assoc)
  qed (simp add: ac_simps)
qed

lemma length_filter_le_sum:
  "(\<And>x. x \<in> set xs \<Longrightarrow> P x \<Longrightarrow> 1 \<le> f x) \<Longrightarrow> length (filter P xs) \<le> sum_list (map f xs)"
  by (induction xs) force+

lemma length_filter_mono:
  "(\<And>x. x \<in> set xs \<Longrightarrow> P x \<Longrightarrow> Q x) \<Longrightarrow> length (filter P xs) \<le> length (filter Q xs)"
  by (induction xs) (auto simp: le_SucI)

section \<open>Invariants of a machine\<close>

text \<open>The proof principle for the state machines: an invariant of a start state and a step.\<close>

locale invariant_of =
  fixes step :: "'x \<Rightarrow> 'x \<Rightarrow> bool" and start :: 'x and inv :: "'x \<Rightarrow> bool"
  assumes start: "inv start" and preserved: "inv s \<Longrightarrow> step s s' \<Longrightarrow> inv s'"
begin

lemma holds: "step\<^sup>*\<^sup>* start s \<Longrightarrow> inv s"
  by (induction rule: rtranclp_induct) (use start preserved in blast)+

end

end
