(* ===== verification/Rust_Std.thy ===== *)
theory Rust_Std
  imports Prelude
begin

text \<open>
  The part of Rust's standard library the program computes with: \<open>char\<close> and \<open>str\<close>
  operations, unsigned integer parsing and printing, UTF-8, ASCII byte classes,
  \<open>std::io::Error\<close> and \<open>std::time::Duration\<close>. Nothing here is specific to the relay.
\<close>

section \<open>Text\<close>

text \<open>
  A Rust \<open>char\<close> is a Unicode scalar value, written here as its code point; a \<open>str\<close> is
  the list of its characters. Byte strings (\<open>[u8]\<close>) are lists of \<open>u8\<close>. \<open>lit\<close> turns an
  ASCII literal into either.
\<close>

type_synonym rchar = nat
type_synonym rstr = "rchar list"
type_synonym bytes = "u8 list"

definition lit :: "string \<Rightarrow> 'a::comm_semiring_1 list" where
  "lit s = map of_char s"

lemma lit_Nil [simp]: "lit '''' = []"
  by (simp add: lit_def)

lemma length_lit [simp]: "length (lit s) = length s"
  by (simp add: lit_def)

text \<open>\<open>char::is_whitespace\<close>: the Unicode property White_Space.\<close>

definition is_whitespace :: "rchar \<Rightarrow> bool" where
  "is_whitespace c \<longleftrightarrow>
     (9 \<le> c \<and> c \<le> 13) \<or> c = 32 \<or> c = 0x85 \<or> c = 0xA0 \<or> c = 0x1680 \<or>
     (0x2000 \<le> c \<and> c \<le> 0x200A) \<or> c = 0x2028 \<or> c = 0x2029 \<or> c = 0x202F \<or>
     c = 0x205F \<or> c = 0x3000"

definition trim :: "rstr \<Rightarrow> rstr" where
  "trim s = rev (dropWhile is_whitespace (rev (dropWhile is_whitespace s)))"

definition to_ascii_lowercase :: "rstr \<Rightarrow> rstr" where
  "to_ascii_lowercase = map (\<lambda>c. if 65 \<le> c \<and> c \<le> 90 then c + 32 else c)"

lemma trim_Nil [simp]: "trim [] = []"
  by (simp add: trim_def)

lemma trim_id_ends:
  assumes "s = [] \<or> \<not> is_whitespace (hd s) \<and> \<not> is_whitespace (last s)"
  shows "trim s = s"
proof -
  have "dropWhile is_whitespace s = s" using assms by (auto simp: dropWhile_eq_self_iff)
  moreover have "dropWhile is_whitespace (rev s) = rev s"
    using assms by (auto simp: dropWhile_eq_self_iff hd_rev)
  ultimately show ?thesis by (simp add: trim_def)
qed

lemma trim_id: "\<forall>c\<in>set s. \<not> is_whitespace c \<Longrightarrow> trim s = s"
  by (rule trim_id_ends) (cases s rule: list.exhaust; auto)

lemma trim_ends:
  assumes "trim s \<noteq> []"
  shows "\<not> is_whitespace (hd (trim s)) \<and> \<not> is_whitespace (last (trim s))"
proof -
  let ?d = "dropWhile is_whitespace s"
  let ?e = "dropWhile is_whitespace (rev ?d)"
  have e: "?e \<noteq> []" using assms by (simp add: trim_def)
  then have d: "?d \<noteq> []" by (metis dropWhile.simps(1) rev.simps(1))
  have "last ?e = last (rev ?d)" using e
    by (metis dropWhile_eq_drop last_drop length_drop length_greater_0_conv zero_less_diff)
  then have "hd (trim s) = hd ?d"
    using d e by (simp add: trim_def hd_rev last_rev)
  moreover have "last (trim s) = hd ?e" by (simp add: trim_def last_rev)
  ultimately show ?thesis using d e hd_dropWhile by metis
qed

lemma trim_trim [simp]: "trim (trim s) = trim s"
  using trim_ends [of s] by (intro trim_id_ends) blast

lemma trim_in_set: "c \<in> set (trim s) \<Longrightarrow> c \<in> set s"
  by (metis set_dropWhileD set_rev trim_def)

section \<open>Unsigned integers as text\<close>

datatype int_error_kind = EmptyText | InvalidDigit | PosOverflow

text \<open>
  \<open>str::parse::<uN>\<close>, with \<open>lim = uN::MAX\<close>: a lone sign is an invalid digit, one leading
  \<open>+\<close> is skipped, a \<open>-\<close> is not a digit of an unsigned number, and a character that is
  not a digit is reported before an overflow at the same position.
\<close>

definition is_digit :: "rchar \<Rightarrow> bool" where
  "is_digit c \<longleftrightarrow> 48 \<le> c \<and> c \<le> 57"

fun from_digits :: "nat \<Rightarrow> nat \<Rightarrow> rstr \<Rightarrow> int_error_kind + nat" where
  "from_digits lim acc [] = Inr acc"
| "from_digits lim acc (c # cs) =
     (if \<not> is_digit c then Inl InvalidDigit
      else if lim < 10 * acc + (c - 48) then Inl PosOverflow
      else from_digits lim (10 * acc + (c - 48)) cs)"

definition parse_unsigned :: "nat \<Rightarrow> rstr \<Rightarrow> int_error_kind + nat" where
  "parse_unsigned lim s =
     (case s of
        [] \<Rightarrow> Inl EmptyText
      | c # cs \<Rightarrow>
          if cs = [] \<and> (c = 43 \<or> c = 45) then Inl InvalidDigit
          else if c = 43 then from_digits lim 0 cs
          else from_digits lim 0 s)"

definition parse_u16 :: "rstr \<Rightarrow> int_error_kind + u16" where
  "parse_u16 s = and_then (parse_unsigned 65535 s) (\<lambda>n. Inr (of_nat n))"

definition parse_usize :: "rstr \<Rightarrow> int_error_kind + usize" where
  "parse_usize s = and_then (parse_unsigned 18446744073709551615 s) (\<lambda>n. Inr (of_nat n))"

text \<open>\<open>to_string\<close> of an unsigned integer.\<close>

fun dec :: "nat \<Rightarrow> rstr" where
  "dec n = (if n < 10 then [48 + n] else dec (n div 10) @ [48 + n mod 10])"

declare dec.simps [simp del]

lemma dec_nonempty [simp]: "dec n \<noteq> []"
  by (subst dec.simps) simp

lemma dec_digits: "c \<in> set (dec n) \<Longrightarrow> is_digit c"
proof (induction n rule: dec.induct)
  case (1 n)
  have "n < 10 \<Longrightarrow> is_digit (48 + n)" by (simp add: is_digit_def)
  moreover have "is_digit (48 + n mod 10)"
    using mod_less_divisor [of 10 n] by (simp add: is_digit_def)
  ultimately show ?case using 1 by (auto simp: dec.simps [of n] split: if_splits)
qed

lemma from_digits_append:
  "from_digits m a (s @ t) = and_then (from_digits m a s) (\<lambda>b. from_digits m b t)"
  by (induction m a s rule: from_digits.induct) auto

lemma from_digits_dec: "n \<le> m \<Longrightarrow> from_digits m 0 (dec n) = Inr n"
proof (induction n rule: dec.induct)
  case (1 n)
  show ?case
  proof (cases "n < 10")
    case True
    then show ?thesis using "1.prems" by (simp add: dec.simps [of n] is_digit_def)
  next
    case False
    have "n div 10 \<le> m" using "1.prems" by (meson div_le_dividend le_trans)
    then have "from_digits m 0 (dec (n div 10)) = Inr (n div 10)" using False "1.IH" by simp
    moreover have "n mod 10 \<le> 9" by (simp add: less_Suc_eq_le [symmetric])
    moreover have "10 * (n div 10) + n mod 10 = n" by (rule mult_div_mod_eq)
    ultimately show ?thesis using False "1.prems"
      by (simp add: dec.simps [of n] from_digits_append is_digit_def)
  qed
qed

lemma parse_unsigned_dec: "n \<le> m \<Longrightarrow> parse_unsigned m (dec n) = Inr n"
proof -
  assume n: "n \<le> m"
  obtain c cs where s: "dec n = c # cs" by (cases "dec n") auto
  then have "is_digit c" using dec_digits [of c n] by simp
  then show ?thesis using from_digits_dec [OF n] s
    by (simp add: parse_unsigned_def is_digit_def)
qed

lemma parse_u16_dec: "parse_u16 (dec (unat p)) = Inr p"
proof -
  have "unat p \<le> 65535" using unat_bound [of p] by simp
  then show ?thesis by (simp add: parse_u16_def parse_unsigned_dec)
qed

lemma from_digits_bound: "from_digits m a s = Inr n \<Longrightarrow> a \<le> m \<Longrightarrow> n \<le> m"
  by (induction m a s rule: from_digits.induct) (auto split: if_splits)

lemma parse_unsigned_bound: "parse_unsigned m s = Inr n \<Longrightarrow> n \<le> m"
  by (auto simp: parse_unsigned_def split: list.splits if_splits dest: from_digits_bound)

section \<open>Bytes\<close>

text \<open>\<open>str::as_bytes\<close>: the UTF-8 encoding.\<close>

definition utf8_char :: "rchar \<Rightarrow> bytes" where
  "utf8_char c =
     (if c < 0x80 then [of_nat c]
      else if c < 0x800 then [of_nat (0xC0 + c div 64), of_nat (0x80 + c mod 64)]
      else if c < 0x10000 then
        [of_nat (0xE0 + c div 4096), of_nat (0x80 + c div 64 mod 64), of_nat (0x80 + c mod 64)]
      else
        [of_nat (0xF0 + c div 262144), of_nat (0x80 + c div 4096 mod 64),
         of_nat (0x80 + c div 64 mod 64), of_nat (0x80 + c mod 64)])"

definition as_bytes :: "rstr \<Rightarrow> bytes" where
  "as_bytes s = concat (map utf8_char s)"

lemma as_bytes_append [simp]: "as_bytes (s @ t) = as_bytes s @ as_bytes t"
  by (simp add: as_bytes_def)

lemma as_bytes_Nil [simp]: "as_bytes [] = []"
  by (simp add: as_bytes_def)

lemma as_bytes_ascii: "\<forall>c\<in>set s. c < 128 \<Longrightarrow> as_bytes s = map of_nat s"
  by (induction s) (auto simp: as_bytes_def utf8_char_def)

text \<open>\<open>u8::is_ascii_whitespace\<close> (space, tab, line feed, form feed, carriage return),
  \<open>u8::to_ascii_lowercase\<close> and \<open>[u8]::eq_ignore_ascii_case\<close>.\<close>

definition is_ascii_whitespace :: "u8 \<Rightarrow> bool" where
  "is_ascii_whitespace b \<longleftrightarrow> b = 32 \<or> b = 9 \<or> b = 10 \<or> b = 12 \<or> b = 13"

definition byte_lower :: "u8 \<Rightarrow> u8" where
  "byte_lower b = (if 65 \<le> b \<and> b \<le> 90 then b + 32 else b)"

definition eq_ignore_ascii_case :: "bytes \<Rightarrow> bytes \<Rightarrow> bool" where
  "eq_ignore_ascii_case xs ys \<longleftrightarrow> map byte_lower xs = map byte_lower ys"

lemma eq_ignore_ascii_case_refl [simp]: "eq_ignore_ascii_case xs xs"
  by (simp add: eq_ignore_ascii_case_def)

text \<open>\<open>[u8]::split\<close>: the pieces between the separators, at least one.\<close>

fun split_on :: "'a \<Rightarrow> 'a list \<Rightarrow> 'a list list" where
  "split_on sep [] = [[]]"
| "split_on sep (x # xs) =
     (if x = sep then [] # split_on sep xs
      else (case split_on sep xs of [] \<Rightarrow> [[x]] | l # ls \<Rightarrow> (x # l) # ls))"

lemma split_on_nonempty [simp]: "split_on sep xs \<noteq> []"
  by (induction xs) (auto split: list.splits)

lemma split_on_no_sep: "l \<in> set (split_on sep xs) \<Longrightarrow> sep \<notin> set l"
  by (induction xs arbitrary: l) (auto split: if_splits list.splits)

lemma split_on_single: "sep \<notin> set xs \<Longrightarrow> split_on sep xs = [xs]"
  by (induction xs) auto

lemma split_on_append_sep: "split_on sep (xs @ sep # ys) = split_on sep xs @ split_on sep ys"
proof (induction xs)
  case Nil
  then show ?case by simp
next
  case (Cons x xs)
  then show ?case by (cases "split_on sep xs") auto
qed

section \<open>I/O errors\<close>

datatype io_kind =
    NotFound | PermissionDenied | ConnectionRefused | ConnectionReset | ConnectionAborted
  | NotConnected | AddrInUse | AddrNotAvailable | BrokenPipe | AlreadyExists | WouldBlock
  | InvalidInput | TimedOut | Interrupted | Unsupported | OtherKind | Uncategorized

text \<open>
  \<open>io::Error::new\<close> carries its kind; \<open>io::Error::from_raw_os_error\<close> carries the error
  number, and its kind is decoded from it (the Linux numbers; a number the table does not
  list is uncategorized).
\<close>

datatype io_error = CustomError io_kind rstr | OsError int

definition decode_error_kind :: "int \<Rightarrow> io_kind" where
  "decode_error_kind n =
     (if n = 1 \<or> n = 13 then PermissionDenied
      else if n = 2 then NotFound
      else if n = 4 then Interrupted
      else if n = 11 then WouldBlock
      else if n = 17 then AlreadyExists
      else if n = 22 then InvalidInput
      else if n = 32 then BrokenPipe
      else if n = 38 \<or> n = 95 then Unsupported
      else if n = 98 then AddrInUse
      else if n = 99 then AddrNotAvailable
      else if n = 103 then ConnectionAborted
      else if n = 104 then ConnectionReset
      else if n = 107 then NotConnected
      else if n = 110 then TimedOut
      else if n = 111 then ConnectionRefused
      else Uncategorized)"

fun error_kind :: "io_error \<Rightarrow> io_kind" where
  "error_kind (CustomError k _) = k"
| "error_kind (OsError n) = decode_error_kind n"

section \<open>Durations\<close>

text \<open>\<open>Duration\<close>: whole seconds and \<open>nanos < 10^9\<close>; the conversions return \<open>u128\<close>.\<close>

record duration =
  dur_secs :: u64
  dur_nanos :: u32

definition wf_duration :: "duration \<Rightarrow> bool" where
  "wf_duration d \<longleftrightarrow> dur_nanos d < 1000000000"

definition from_secs :: "u64 \<Rightarrow> duration" where
  "from_secs s = \<lparr>dur_secs = s, dur_nanos = 0\<rparr>"

definition from_millis :: "u64 \<Rightarrow> duration" where
  "from_millis m = \<lparr>dur_secs = m div 1000, dur_nanos = ucast (m mod 1000) * 1000000\<rparr>"

definition is_zero :: "duration \<Rightarrow> bool" where
  "is_zero d \<longleftrightarrow> dur_secs d = 0 \<and> dur_nanos d = 0"

definition as_millis :: "duration \<Rightarrow> u128" where
  "as_millis d = ucast (dur_secs d) * 1000 + ucast (dur_nanos d) div 1000000"

definition as_micros :: "duration \<Rightarrow> u128" where
  "as_micros d = ucast (dur_secs d) * 1000000 + ucast (dur_nanos d) div 1000"

text \<open>The same conversions as natural numbers, without a width.\<close>

definition millis_nat :: "duration \<Rightarrow> nat" where
  "millis_nat d = unat (dur_secs d) * 1000 + unat (dur_nanos d) div 1000000"

definition micros_nat :: "duration \<Rightarrow> nat" where
  "micros_nat d = unat (dur_secs d) * 1000000 + unat (dur_nanos d) div 1000"

lemma unat_scaled_u128:
  fixes s :: u64 and r :: u32 and c k :: u128
  assumes "unat c \<le> 1000000"
  shows "unat (ucast s * c + ucast r div k :: u128) = unat s * unat c + unat r div unat k"
proof -
  have s: "unat s \<le> 2 ^ 64 - 1" using unat_bound [of s] by simp
  have r: "unat r div unat k \<le> 2 ^ 32 - 1"
    using le_trans [OF div_le_dividend, of "unat r" "2 ^ 32 - 1" "unat k"] unat_bound [of r]
    by simp
  have us: "unat (ucast s :: u128) = unat s" and ur: "unat (ucast r :: u128) = unat r"
    by (simp_all add: unsigned_ucast_eq take_bit_nat_eq_self order_less_le_trans [OF unat_bound])
  have m: "unat s * unat c \<le> (2 ^ 64 - 1) * 1000000" using s assms by (rule mult_le_mono)
  then have "unat (ucast s * c :: u128) = unat s * unat c"
    by (simp add: us unat_word_ariths)
  moreover have "unat (ucast r div k :: u128) = unat r div unat k"
    by (simp add: ur unat_div)
  ultimately show ?thesis using m r by (simp add: unat_word_ariths)
qed

lemma unat_as_millis: "unat (as_millis d) = millis_nat d"
  by (simp add: as_millis_def millis_nat_def unat_scaled_u128)

lemma unat_as_micros: "unat (as_micros d) = micros_nat d"
  by (simp add: as_micros_def micros_nat_def unat_scaled_u128)

text \<open>\<open>x.min(u64::MAX as u128) as u64\<close>.\<close>

definition saturate_u64 :: "u128 \<Rightarrow> u64" where
  "saturate_u64 x = ucast (min x 18446744073709551615)"

lemma unat_saturate_u64: "unat (saturate_u64 x) = min (unat x) 18446744073709551615"
proof -
  have m: "unat (min x 18446744073709551615) = min (unat x) 18446744073709551615"
    by (simp add: min_def word_le_nat_alt)
  then show ?thesis
    by (simp add: saturate_u64_def unsigned_ucast_eq take_bit_nat_eq_self)
qed

end
