(* ===== verification/Endpoint.thy ===== *)
theory Endpoint
  imports Rust_Std
begin

text \<open>
  Configuration errors (\<open>src/src/error.rs\<close>), endpoints and forwarding modes
  (\<open>src/src/config.rs\<close>): parsing of \<open>HOST:PORT\<close>, the canonical address it builds, and
  the backend selector. The lemmas give the shape of every accepted endpoint, which inputs
  are accepted, and that a canonical address parses back to the endpoint it came from.
\<close>

section \<open>Configuration errors\<close>

text \<open>
  One constructor per \<open>ConfigError::invalid\<close> message of the source; the text between the
  arguments is presentation and is left out.
\<close>

datatype limit_name = GlobalLimitName rstr | RelayLimitName rstr rstr

datatype config_message =
    EndpointEmpty
  | InvalidIpv6Endpoint rstr
  | MissingPort rstr
  | Ipv6NeedsBrackets
  | InvalidPort rstr int_error_kind
  | PortZero
  | TargetHostEmpty
  | InvalidHost rstr
  | UnknownForwardMode rstr
  | NoRelays
  | ShutdownTimeoutZero
  | LimitZero limit_name
  | BufferPoolSizeInvalid
  | LogSampleRateZero
  | TlsPairIncomplete
  | TlsNeedsListener
  | BearerTokenEmpty
  | ReusePortUnsupported
  | RelayNameEmpty
  | DuplicateRelayName rstr
  | DuplicateListener rstr
  | ConnectTimeoutZero rstr
  | IdleTimeoutZero rstr
  | KeepaliveZero rstr
  | DnsRefreshZero rstr
  | SocketBufferZero rstr
  | BufferSizeZero rstr
  | SpliceUnsupported
  | RuntimeOptionsWithConfig
  | ListenAndTargetRequired
  | NoRelayEntry

type_synonym path = rstr

datatype config_error =
    ReadConfig path io_error
  | ParseConfig rstr
  | Invalid config_message

section \<open>Endpoints\<close>

record endpoint =
  ep_address :: rstr
  ep_host :: rstr
  ep_port :: u16

abbreviation colon :: rchar where "colon \<equiv> 58"
abbreviation lbracket :: rchar where "lbracket \<equiv> 91"
abbreviation rbracket :: rchar where "rbracket \<equiv> 93"

text \<open>The text before and after the colon that separates host and port.\<close>

definition split_host_port :: "rstr \<Rightarrow> config_error + rstr \<times> rstr" where
  "split_host_port value =
     (case strip_prefix [lbracket] value of
        Some rest \<Rightarrow>
          and_then (ok_or (Invalid (InvalidIpv6Endpoint value)) (position (\<lambda>c. c = rbracket) rest))
            (\<lambda>close.
              let host = take close rest; suffix = drop (close + 1) rest in
              and_then (ok_or (Invalid (MissingPort value)) (strip_prefix [colon] suffix))
                (\<lambda>port. Inr (host, port)))
      | None \<Rightarrow>
          and_then (ok_or (Invalid (MissingPort value)) (rposition (\<lambda>c. c = colon) value))
            (\<lambda>split.
              let host = take split value; port = drop (split + 1) value in
              if colon \<in> set host then Inl (Invalid Ipv6NeedsBrackets) else Inr (host, port)))"

definition format_address :: "rstr \<Rightarrow> u16 \<Rightarrow> rstr" where
  "format_address host port =
     (if colon \<in> set host then [lbracket] @ host @ [rbracket, colon] @ dec (unat port)
      else host @ [colon] @ dec (unat port))"

definition endpoint_parse :: "rstr \<Rightarrow> bool \<Rightarrow> bool \<Rightarrow> config_error + endpoint" where
  "endpoint_parse text allow_empty_host allow_port_zero =
     (let value = trim text in
      if value = [] then Inl (Invalid EndpointEmpty)
      else and_then (split_host_port value) (\<lambda>(host, port_text).
        and_then (map_err (\<lambda>e. Invalid (InvalidPort port_text e)) (parse_u16 port_text)) (\<lambda>port.
          if port = 0 \<and> \<not> allow_port_zero then Inl (Invalid PortZero)
          else and_then
            (if host = [] then
               (if \<not> allow_empty_host then Inl (Invalid TargetHostEmpty)
                else Inr (lit ''0.0.0.0''))
             else Inr host)
            (\<lambda>host.
              if list_ex is_whitespace host \<or> host = lit ''*'' then Inl (Invalid (InvalidHost host))
              else Inr \<lparr>ep_address = format_address host port, ep_host = host, ep_port = port\<rparr>))))"

text \<open>\<open>FromStr for Endpoint\<close>.\<close>

definition endpoint_from_str :: "rstr \<Rightarrow> config_error + endpoint" where
  "endpoint_from_str value = endpoint_parse value False False"

subsection \<open>The shape of an accepted endpoint\<close>

text \<open>What every accepted endpoint satisfies; \<open>zero\<close> says whether port 0 was allowed.\<close>

definition wf_endpoint :: "bool \<Rightarrow> endpoint \<Rightarrow> bool" where
  "wf_endpoint zero e \<longleftrightarrow>
     ep_host e \<noteq> [] \<and> (\<forall>c\<in>set (ep_host e). \<not> is_whitespace c) \<and> ep_host e \<noteq> lit ''*'' \<and>
     (ep_port e = 0 \<longrightarrow> zero) \<and> ep_address e = format_address (ep_host e) (ep_port e) \<and>
     (colon \<in> set (ep_host e) \<longrightarrow> rbracket \<notin> set (ep_host e))"

lemma split_host_port_host:
  assumes "split_host_port value = Inr (host, port)"
  shows "colon \<in> set host \<longrightarrow> rbracket \<notin> set host"
  using assms
  by (auto simp: split_host_port_def Let_def result_simps dest!: position_split
      split: option.splits if_splits)

lemma default_host_ok: "lit ''0.0.0.0'' \<noteq> ([] :: rstr)" "\<not> list_ex is_whitespace (lit ''0.0.0.0'')"
  "lit ''0.0.0.0'' \<noteq> (lit ''*'' :: rstr)" "colon \<notin> set (lit ''0.0.0.0'')"
  by (simp_all add: lit_def is_whitespace_def)

lemma endpoint_parse_InrE:
  assumes "endpoint_parse v ae az = Inr e"
  obtains host0 port_text host port where
    "split_host_port (trim v) = Inr (host0, port_text)" "parse_u16 port_text = Inr port"
    "port = 0 \<longrightarrow> az"
    "host = (if host0 = [] then lit ''0.0.0.0'' else host0)" "host0 = [] \<longrightarrow> ae"
    "\<not> list_ex is_whitespace host" "host \<noteq> lit ''*''"
    "e = \<lparr>ep_address = format_address host port, ep_host = host, ep_port = port\<rparr>"
  using assms unfolding endpoint_parse_def Let_def and_then_Inr map_err_Inr
  by (auto split: if_splits prod.splits simp: and_then_Inr map_err_Inr)

lemma endpoint_parse_wf:
  assumes "endpoint_parse v ae az = Inr e"
  shows "wf_endpoint az e"
  using assms
proof (rule endpoint_parse_InrE)
  fix host0 port_text host port
  assume *: "split_host_port (trim v) = Inr (host0, port_text)" "port = 0 \<longrightarrow> az"
    "host = (if host0 = [] then lit ''0.0.0.0'' else host0)"
    "\<not> list_ex is_whitespace host" "host \<noteq> lit ''*''"
    "e = \<lparr>ep_address = format_address host port, ep_host = host, ep_port = port\<rparr>"
  have "colon \<in> set host \<longrightarrow> rbracket \<notin> set host"
    using split_host_port_host [OF *(1)] *(3) default_host_ok(4) by (simp split: if_splits)
  moreover have "host \<noteq> []" using *(3) default_host_ok(1) by (simp split: if_splits)
  ultimately show ?thesis using *(2,4,5,6) by (simp add: wf_endpoint_def list_ex_iff)
qed

subsection \<open>Which inputs are accepted\<close>

lemma not_whitespace_punctuation:
  "\<not> is_whitespace lbracket" "\<not> is_whitespace rbracket" "\<not> is_whitespace colon"
  by (simp_all add: is_whitespace_def)

lemma digit_not_whitespace: "is_digit c \<Longrightarrow> \<not> is_whitespace c"
  by (simp add: is_whitespace_def is_digit_def)

lemma whitespace_of_address:
  assumes "\<forall>c\<in>set host. \<not> is_whitespace c"
  shows "\<forall>c\<in>set (format_address host port). \<not> is_whitespace c"
  using assms digit_not_whitespace [OF dec_digits]
  by (auto simp: format_address_def not_whitespace_punctuation)

lemma colon_not_in_dec: "colon \<notin> set (dec n)"
  by (auto simp: is_digit_def dest!: dec_digits)

lemma split_host_port_plain:
  assumes "colon \<notin> set host" "hd (host @ [colon]) \<noteq> lbracket" "colon \<notin> set port"
  shows "split_host_port (host @ colon # port) = Inr (host, port)"
proof -
  have "strip_prefix [lbracket] (host @ colon # port) = None"
    using assms(2) by (cases host) (auto simp: strip_prefix_def)
  moreover have "rposition (\<lambda>c. c = colon) (host @ colon # port) = Some (length host)"
    using assms(3) by (intro rposition_middle) auto
  ultimately show ?thesis using assms(1) by (simp add: split_host_port_def Let_def)
qed

lemma split_host_port_bracketed:
  assumes "rbracket \<notin> set host"
  shows "split_host_port (lbracket # host @ rbracket # colon # port) = Inr (host, port)"
proof -
  have "position (\<lambda>c. c = rbracket) (host @ rbracket # colon # port) = Some (length host)"
    using assms by (intro position_middle) auto
  then show ?thesis by (simp add: split_host_port_def strip_prefix_def Let_def)
qed

text \<open>
  A host that starts with a bracket without being an IPv6 address is the one shape whose
  canonical address is not accepted again.
\<close>

definition reparsable_host :: "rstr \<Rightarrow> bool" where
  "reparsable_host host \<longleftrightarrow> colon \<in> set host \<or> hd host \<noteq> lbracket"

lemma split_host_port_address:
  assumes "wf_endpoint zero e" "reparsable_host (ep_host e)"
  shows "split_host_port (ep_address e) = Inr (ep_host e, dec (unat (ep_port e)))"
proof (cases "colon \<in> set (ep_host e)")
  case True
  then show ?thesis using assms
    by (simp add: wf_endpoint_def format_address_def split_host_port_bracketed)
next
  case False
  moreover have "hd (ep_host e @ [colon]) \<noteq> lbracket"
    using assms False by (simp add: wf_endpoint_def reparsable_host_def)
  ultimately show ?thesis using assms
    by (simp add: wf_endpoint_def format_address_def split_host_port_plain colon_not_in_dec)
qed

lemma endpoint_parse_address:
  assumes "wf_endpoint zero e" "reparsable_host (ep_host e)" "ep_port e = 0 \<longrightarrow> az"
  shows "endpoint_parse (ep_address e) ae az = Inr e"
proof -
  have addr: "ep_address e = format_address (ep_host e) (ep_port e)"
    and host: "ep_host e \<noteq> []" "\<not> list_ex is_whitespace (ep_host e)" "ep_host e \<noteq> lit ''*''"
    and ws: "\<forall>c\<in>set (ep_host e). \<not> is_whitespace c"
    using assms(1) by (auto simp: wf_endpoint_def list_ex_iff)
  have "trim (ep_address e) = ep_address e"
    using whitespace_of_address [OF ws] by (simp add: addr trim_id)
  moreover have "ep_address e \<noteq> []" by (simp add: addr format_address_def)
  ultimately show ?thesis
    using split_host_port_address [OF assms(1,2)] host assms(3)
    by (auto simp: endpoint_parse_def Let_def parse_u16_dec addr [symmetric])
qed

lemma endpoint_parse_trim: "endpoint_parse (trim v) ae az = endpoint_parse v ae az"
  by (simp add: endpoint_parse_def)

text \<open>Unbracketed IPv6: a second colon before the last one is always refused.\<close>

lemma endpoint_parse_two_colons:
  assumes "trim v = host @ colon # port" "colon \<in> set host" "colon \<notin> set port" "hd host \<noteq> lbracket"
  shows "endpoint_parse v ae az = Inl (Invalid Ipv6NeedsBrackets)"
proof -
  have "strip_prefix [lbracket] (host @ colon # port) = None"
    using assms(2,4) by (cases host) (auto simp: strip_prefix_def)
  moreover have "rposition (\<lambda>c. c = colon) (host @ colon # port) = Some (length host)"
    using assms(3) by (intro rposition_middle) auto
  ultimately have "split_host_port (trim v) = Inl (Invalid Ipv6NeedsBrackets)"
    using assms(1,2) by (simp add: split_host_port_def Let_def)
  then show ?thesis using assms(1) by (simp add: endpoint_parse_def Let_def)
qed

section \<open>Forwarding modes\<close>

datatype forward_mode = Auto | Tokio | Splice

definition default_forward_mode :: forward_mode where
  "default_forward_mode = Auto"

definition forward_mode_from_str :: "rstr \<Rightarrow> config_error + forward_mode" where
  "forward_mode_from_str value =
     (let other = to_ascii_lowercase (trim value) in
      if other = lit ''auto'' then Inr Auto
      else if other = lit ''tokio'' \<or> other = lit ''copy'' then Inr Tokio
      else if other = lit ''splice'' then Inr Splice
      else Inl (Invalid (UnknownForwardMode other)))"

section \<open>Properties\<close>



end
