(* ===== verification/Settings.thy ===== *)
theory Settings
  imports Endpoint
begin

text \<open>
  Relay specifications, settings and their validation (\<open>src/src/config.rs\<close>, lines 7 to
  331). Validation is the source's sequence of early returns, with its two hash sets; the
  lemmas show that it accepts exactly the settings a declarative predicate describes.
\<close>

section \<open>Data\<close>

text \<open>The targets the source's \<open>cfg\<close> attributes tell apart.\<close>

datatype platform = Linux | OtherUnix | NonUnix

definition DEFAULT_CONNECT_TIMEOUT :: duration where
  "DEFAULT_CONNECT_TIMEOUT = from_secs 10"

definition DEFAULT_SHUTDOWN_TIMEOUT :: duration where
  "DEFAULT_SHUTDOWN_TIMEOUT = from_secs 30"

definition DEFAULT_BUFFER_SIZE :: usize where
  "DEFAULT_BUFFER_SIZE = 16 * 1024"

definition DEFAULT_BUFFER_POOL_SIZE :: usize where
  "DEFAULT_BUFFER_POOL_SIZE = 8 * 1024"

definition DEFAULT_CONNECTION_LOG_SAMPLE_RATE :: usize where
  "DEFAULT_CONNECTION_LOG_SAMPLE_RATE = 100"

record relay_spec =
  rs_name :: rstr
  rs_listen :: endpoint
  rs_target :: endpoint
  rs_connect_timeout :: duration
  rs_idle_timeout :: "duration option"
  rs_max_connections :: "usize option"
  rs_max_connecting :: "usize option"
  rs_tcp_keepalive :: "duration option"
  rs_dns_refresh :: "duration option"
  rs_socket_buffer_size :: "usize option"
  rs_buffer_size :: usize
  rs_forward_mode :: forward_mode

record settings =
  st_log_level :: rstr
  st_metrics_listen :: "endpoint option"
  st_metrics_bearer_token :: "rstr option"
  st_metrics_tls_cert :: "path option"
  st_metrics_tls_key :: "path option"
  st_shutdown_timeout :: duration
  st_global_max_connections :: "usize option"
  st_global_max_connecting :: "usize option"
  st_buffer_pool_size :: usize
  st_connection_log_sample_rate :: usize
  st_reuse_port :: bool
  st_relays :: "relay_spec list"

section \<open>Validation\<close>

text \<open>\<open>reject_if b m\<close> is the source's \<open>if b { return Err(ConfigError::invalid(m)) }\<close>.\<close>

definition reject_if :: "bool \<Rightarrow> config_message \<Rightarrow> config_error + unit" where
  "reject_if b m = (if b then Inl (Invalid m) else Inr ())"

lemma reject_if_Inr [result_simps]: "reject_if b m = Inr u \<longleftrightarrow> \<not> b"
  by (simp add: reject_if_def)

definition validate_limit :: "usize option \<Rightarrow> limit_name \<Rightarrow> config_error + unit" where
  "validate_limit value name = reject_if (value = Some 0) (LimitZero name)"

text \<open>The checks of one relay in the loop body that do not look at the other relays.\<close>

definition validate_relay_fields :: "platform \<Rightarrow> relay_spec \<Rightarrow> config_error + unit" where
  "validate_relay_fields pf r =
     and_then (reject_if (is_zero (rs_connect_timeout r)) (ConnectTimeoutZero (rs_name r))) (\<lambda>_.
     and_then (reject_if (some_and (rs_idle_timeout r) is_zero) (IdleTimeoutZero (rs_name r))) (\<lambda>_.
     and_then (reject_if (some_and (rs_tcp_keepalive r) is_zero) (KeepaliveZero (rs_name r))) (\<lambda>_.
     and_then (validate_limit (rs_max_connections r)
                 (RelayLimitName (rs_name r) (lit ''max_connections''))) (\<lambda>_.
     and_then (validate_limit (rs_max_connecting r)
                 (RelayLimitName (rs_name r) (lit ''max_connecting''))) (\<lambda>_.
     and_then (reject_if (some_and (rs_dns_refresh r) is_zero) (DnsRefreshZero (rs_name r))) (\<lambda>_.
     and_then (reject_if (rs_socket_buffer_size r = Some 0) (SocketBufferZero (rs_name r))) (\<lambda>_.
     and_then (reject_if (rs_buffer_size r = 0) (BufferSizeZero (rs_name r))) (\<lambda>_.
       reject_if (pf \<noteq> Linux \<and> rs_forward_mode r = Splice) SpliceUnsupported))))))))"

text \<open>The loop over the relays, with the sets of names and listener addresses seen so far.\<close>

fun validate_relays ::
  "platform \<Rightarrow> rstr set \<Rightarrow> rstr set \<Rightarrow> relay_spec list \<Rightarrow> config_error + unit" where
  "validate_relays pf names listeners [] = Inr ()"
| "validate_relays pf names listeners (r # rs) =
     and_then (reject_if (trim (rs_name r) = []) RelayNameEmpty) (\<lambda>_.
     and_then (reject_if (rs_name r \<in> names) (DuplicateRelayName (rs_name r))) (\<lambda>_.
     and_then
       (reject_if (ep_port (rs_listen r) \<noteq> 0 \<and> ep_address (rs_listen r) \<in> listeners)
          (DuplicateListener (ep_address (rs_listen r)))) (\<lambda>_.
     and_then (validate_relay_fields pf r) (\<lambda>_.
       validate_relays pf (insert (rs_name r) names)
         (if ep_port (rs_listen r) \<noteq> 0 then insert (ep_address (rs_listen r)) listeners
          else listeners) rs))))"

definition validate :: "platform \<Rightarrow> settings \<Rightarrow> config_error + unit" where
  "validate pf s =
     and_then (reject_if (st_relays s = []) NoRelays) (\<lambda>_.
     and_then (reject_if (is_zero (st_shutdown_timeout s)) ShutdownTimeoutZero) (\<lambda>_.
     and_then (validate_limit (st_global_max_connections s)
                 (GlobalLimitName (lit ''global max_connections''))) (\<lambda>_.
     and_then (validate_limit (st_global_max_connecting s)
                 (GlobalLimitName (lit ''global max_connecting''))) (\<lambda>_.
     and_then (reject_if (st_buffer_pool_size s < 2 \<or> st_buffer_pool_size s mod 2 \<noteq> 0)
                 BufferPoolSizeInvalid) (\<lambda>_.
     and_then (reject_if (st_connection_log_sample_rate s = 0) LogSampleRateZero) (\<lambda>_.
     and_then (reject_if (is_some (st_metrics_tls_cert s) \<noteq> is_some (st_metrics_tls_key s))
                 TlsPairIncomplete) (\<lambda>_.
     and_then (reject_if ((is_some (st_metrics_tls_cert s) \<or> is_some (st_metrics_tls_key s)) \<and>
                          \<not> is_some (st_metrics_listen s)) TlsNeedsListener) (\<lambda>_.
     and_then (reject_if (some_and (st_metrics_bearer_token s) (\<lambda>t. t = [])) BearerTokenEmpty) (\<lambda>_.
     and_then (reject_if (pf = NonUnix \<and> st_reuse_port s) ReusePortUnsupported) (\<lambda>_.
       validate_relays pf {} {} (st_relays s)))))))))))"

section \<open>What validation promises\<close>

definition valid_relay :: "platform \<Rightarrow> relay_spec \<Rightarrow> bool" where
  "valid_relay pf r \<longleftrightarrow>
     trim (rs_name r) \<noteq> [] \<and>
     \<not> is_zero (rs_connect_timeout r) \<and>
     (\<forall>d. rs_idle_timeout r = Some d \<longrightarrow> \<not> is_zero d) \<and>
     (\<forall>d. rs_tcp_keepalive r = Some d \<longrightarrow> \<not> is_zero d) \<and>
     (\<forall>d. rs_dns_refresh r = Some d \<longrightarrow> \<not> is_zero d) \<and>
     rs_max_connections r \<noteq> Some 0 \<and> rs_max_connecting r \<noteq> Some 0 \<and>
     rs_socket_buffer_size r \<noteq> Some 0 \<and> rs_buffer_size r \<noteq> 0 \<and>
     (rs_forward_mode r = Splice \<longrightarrow> pf = Linux)"

definition listener_keys :: "relay_spec list \<Rightarrow> rstr list" where
  "listener_keys rs =
     map (\<lambda>r. ep_address (rs_listen r)) (filter (\<lambda>r. ep_port (rs_listen r) \<noteq> 0) rs)"

definition valid_settings :: "platform \<Rightarrow> settings \<Rightarrow> bool" where
  "valid_settings pf s \<longleftrightarrow>
     st_relays s \<noteq> [] \<and> \<not> is_zero (st_shutdown_timeout s) \<and>
     st_global_max_connections s \<noteq> Some 0 \<and> st_global_max_connecting s \<noteq> Some 0 \<and>
     2 \<le> unat (st_buffer_pool_size s) \<and> even (unat (st_buffer_pool_size s)) \<and>
     st_connection_log_sample_rate s \<noteq> 0 \<and>
     (st_metrics_tls_cert s = None \<longleftrightarrow> st_metrics_tls_key s = None) \<and>
     (st_metrics_tls_cert s \<noteq> None \<longrightarrow> st_metrics_listen s \<noteq> None) \<and>
     st_metrics_bearer_token s \<noteq> Some [] \<and>
     (st_reuse_port s \<longrightarrow> pf \<noteq> NonUnix) \<and>
     (\<forall>r\<in>set (st_relays s). valid_relay pf r) \<and>
     distinct (map rs_name (st_relays s)) \<and> distinct (listener_keys (st_relays s))"

lemma validate_limit_Inr [result_simps]: "validate_limit v n = Inr u \<longleftrightarrow> v \<noteq> Some 0"
  by (simp add: validate_limit_def result_simps)

lemma some_and_iff: "some_and x P \<longleftrightarrow> (\<exists>y. x = Some y \<and> P y)"
  by (cases x) auto

lemma validate_relay_fields_Inr:
  "validate_relay_fields pf r = Inr () \<and> trim (rs_name r) \<noteq> [] \<longleftrightarrow> valid_relay pf r"
  by (auto simp: validate_relay_fields_def valid_relay_def result_simps some_and_iff)

lemma validate_relays_Inr:
  "validate_relays pf names listeners rs = Inr () \<longleftrightarrow>
     (\<forall>r\<in>set rs. valid_relay pf r) \<and>
     distinct (map rs_name rs) \<and> set (map rs_name rs) \<inter> names = {} \<and>
     distinct (listener_keys rs) \<and> set (listener_keys rs) \<inter> listeners = {}"
proof (induction rs arbitrary: names listeners)
  case Nil
  then show ?case by (simp add: listener_keys_def)
next
  case (Cons r rs)
  show ?case
    by (auto simp: result_simps Cons.IH listener_keys_def validate_relay_fields_Inr [symmetric])
qed

lemma even_unat: "even (unat (w :: usize)) \<longleftrightarrow> w mod 2 = 0"
proof -
  have "unat (w mod 2) = unat w mod 2" by (simp add: unat_mod)
  then show ?thesis by (metis even_iff_mod_2_eq_zero unat_0 unat_eq_zero)
qed

lemma pool_size_check:
  "\<not> (w < 2 \<or> w mod 2 \<noteq> 0) \<longleftrightarrow> 2 \<le> unat (w :: usize) \<and> even (unat w)"
  by (simp add: even_unat word_less_nat_alt not_less)

lemma validate_iff_valid: "validate pf s = Inr () \<longleftrightarrow> valid_settings pf s"
proof -
  note pool_size_check [of "st_buffer_pool_size s"]
  then show ?thesis
    by (auto simp: validate_def valid_settings_def result_simps validate_relays_Inr some_and_iff
        is_some_iff)
qed

section \<open>What a rejection says\<close>

text \<open>Every message of the validation names a fact about the settings it rejects.\<close>

definition blames_relays :: "platform \<Rightarrow> relay_spec list \<Rightarrow> config_message \<Rightarrow> bool" where
  "blames_relays pf rs m =
     (case m of
        RelayNameEmpty \<Rightarrow> (\<exists>r\<in>set rs. trim (rs_name r) = [])
      | DuplicateRelayName n \<Rightarrow> 2 \<le> count_list (map rs_name rs) n
      | DuplicateListener a \<Rightarrow> 2 \<le> count_list (listener_keys rs) a
      | ConnectTimeoutZero n \<Rightarrow> (\<exists>r\<in>set rs. rs_name r = n \<and> is_zero (rs_connect_timeout r))
      | IdleTimeoutZero n \<Rightarrow> (\<exists>r\<in>set rs. rs_name r = n \<and> some_and (rs_idle_timeout r) is_zero)
      | KeepaliveZero n \<Rightarrow> (\<exists>r\<in>set rs. rs_name r = n \<and> some_and (rs_tcp_keepalive r) is_zero)
      | DnsRefreshZero n \<Rightarrow> (\<exists>r\<in>set rs. rs_name r = n \<and> some_and (rs_dns_refresh r) is_zero)
      | SocketBufferZero n \<Rightarrow> (\<exists>r\<in>set rs. rs_name r = n \<and> rs_socket_buffer_size r = Some 0)
      | BufferSizeZero n \<Rightarrow> (\<exists>r\<in>set rs. rs_name r = n \<and> rs_buffer_size r = 0)
      | LimitZero (RelayLimitName n l) \<Rightarrow>
          (\<exists>r\<in>set rs. rs_name r = n \<and>
             (l = lit ''max_connections'' \<and> rs_max_connections r = Some 0 \<or>
              l = lit ''max_connecting'' \<and> rs_max_connecting r = Some 0))
      | SpliceUnsupported \<Rightarrow> pf \<noteq> Linux \<and> (\<exists>r\<in>set rs. rs_forward_mode r = Splice)
      | _ \<Rightarrow> False)"

definition blames :: "platform \<Rightarrow> settings \<Rightarrow> config_message \<Rightarrow> bool" where
  "blames pf s m =
     (case m of
        NoRelays \<Rightarrow> st_relays s = []
      | ShutdownTimeoutZero \<Rightarrow> is_zero (st_shutdown_timeout s)
      | LimitZero (GlobalLimitName l) \<Rightarrow>
          l = lit ''global max_connections'' \<and> st_global_max_connections s = Some 0 \<or>
          l = lit ''global max_connecting'' \<and> st_global_max_connecting s = Some 0
      | BufferPoolSizeInvalid \<Rightarrow>
          unat (st_buffer_pool_size s) < 2 \<or> odd (unat (st_buffer_pool_size s))
      | LogSampleRateZero \<Rightarrow> st_connection_log_sample_rate s = 0
      | TlsPairIncomplete \<Rightarrow> (st_metrics_tls_cert s = None) \<noteq> (st_metrics_tls_key s = None)
      | TlsNeedsListener \<Rightarrow> st_metrics_tls_cert s \<noteq> None \<and> st_metrics_listen s = None
      | BearerTokenEmpty \<Rightarrow> st_metrics_bearer_token s = Some []
      | ReusePortUnsupported \<Rightarrow> pf = NonUnix \<and> st_reuse_port s
      | _ \<Rightarrow> blames_relays pf (st_relays s) m)"

lemma reject_if_Inl [result_simps]: "reject_if b m = Inl e \<longleftrightarrow> b \<and> e = Invalid m"
  by (auto simp: reject_if_def)

lemma validate_limit_Inl [result_simps]:
  "validate_limit v n = Inl e \<longleftrightarrow> v = Some 0 \<and> e = Invalid (LimitZero n)"
  by (simp add: validate_limit_def result_simps)

lemma validate_relay_fields_blames:
  assumes "validate_relay_fields pf r = Inl e" "r \<in> set rs"
  shows "\<exists>m. e = Invalid m \<and> blames_relays pf rs m"
  using assms unfolding validate_relay_fields_def and_then_Inl reject_if_Inl validate_limit_Inl
  by (elim disjE exE conjE) (simp_all add: blames_relays_def, blast+)

lemma count_list_mem: "x \<in> set xs \<Longrightarrow> 1 \<le> count_list xs x"
  by (metis count_list_0_iff less_one not_le)

lemma validate_relays_blames:
  assumes "validate_relays pf (set (map rs_name seen)) (set (listener_keys seen)) rs = Inl e"
  shows "\<exists>m. e = Invalid m \<and> blames_relays pf (seen @ rs) m"
  using assms
proof (induction rs arbitrary: seen)
  case Nil
  then show ?case by simp
next
  case (Cons r rs)
  let ?k = "ep_address (rs_listen r)"
  consider (name) "trim (rs_name r) = []" "e = Invalid RelayNameEmpty"
    | (dup) "rs_name r \<in> set (map rs_name seen)" "e = Invalid (DuplicateRelayName (rs_name r))"
    | (listener) "ep_port (rs_listen r) \<noteq> 0" "?k \<in> set (listener_keys seen)"
        "e = Invalid (DuplicateListener ?k)"
    | (fields) "validate_relay_fields pf r = Inl e"
    | (rest) "validate_relays pf (insert (rs_name r) (set (map rs_name seen)))
        (if ep_port (rs_listen r) \<noteq> 0 then insert ?k (set (listener_keys seen))
         else set (listener_keys seen)) rs = Inl e"
    using Cons.prems unfolding validate_relays.simps and_then_Inl reject_if_Inl by blast
  then show ?case
  proof cases
    case name
    then show ?thesis by (simp add: blames_relays_def)
  next
    case dup
    then show ?thesis using count_list_mem [OF dup(1)] by (simp add: blames_relays_def)
  next
    case listener
    then show ?thesis using count_list_mem [OF listener(2)]
      by (simp add: blames_relays_def listener_keys_def)
  next
    case fields
    then show ?thesis by (rule validate_relay_fields_blames) simp
  next
    case rest
    have "validate_relays pf (set (map rs_name (seen @ [r]))) (set (listener_keys (seen @ [r]))) rs
          = Inl e"
      using rest by (simp add: listener_keys_def split: if_splits)
    then show ?thesis using Cons.IH [of "seen @ [r]"] by simp
  qed
qed

lemma blames_relays_blames:
  assumes "blames_relays pf (st_relays s) m"
  shows "blames pf s m"
  using assms by (simp add: blames_relays_def blames_def split: config_message.splits limit_name.splits)

lemma validate_blames:
  assumes "validate pf s = Inl e"
  shows "\<exists>m. e = Invalid m \<and> blames pf s m"
proof -
  have relays: ?thesis if "validate_relays pf {} {} (st_relays s) = Inl e"
    using validate_relays_blames [of pf "[]" "st_relays s" e] that blames_relays_blames
    by (auto simp: listener_keys_def)
  have pool: "unat w < 2 \<or> odd (unat w)" if "w < 2 \<or> w mod 2 \<noteq> 0" for w :: usize
    using pool_size_check [of w] that unfolding not_less [symmetric] by blast
  show ?thesis
  proof (cases "validate_relays pf {} {} (st_relays s) = Inl e")
    case True
    then show ?thesis by (rule relays)
  next
    case False
    with assms show ?thesis
      unfolding validate_def and_then_Inl reject_if_Inl validate_limit_Inl reject_if_Inr
        validate_limit_Inr
      by (elim disjE exE conjE)
        (simp_all add: blames_def is_some_iff pool some_and_iff del: not_None_eq)
  qed
qed

section \<open>Properties\<close>

text \<open>
  C17. Validation accepts exactly the settings the declarative predicate describes: relays with
  distinct non-blank names and distinct fixed listener addresses, no zero timeout, limit or
  size, an even buffer pool of at least two, a complete TLS pair that has a listener, a
  non-empty bearer token and only options the platform supports. When it rejects, the message
  it returns is true of the settings.
\<close>

theorem validation_exact:
  "case validate pf s of
     Inr _ \<Rightarrow> valid_settings pf s
   | Inl e \<Rightarrow> \<not> valid_settings pf s \<and> (\<exists>m. e = Invalid m \<and> blames pf s m)"
proof (cases "validate pf s")
  case (Inl e)
  then show ?thesis using validate_iff_valid [of pf s] validate_blames by auto
next
  case (Inr u)
  then show ?thesis using validate_iff_valid [of pf s] by simp
qed

end
