(* ===== verification/Load_Settings.thy ===== *)
theory Load_Settings
  imports Settings
begin

text \<open>
  Where settings come from: the command-line arguments (\<open>src/src/cli.rs\<close>), the TOML file
  and the merge of both (\<open>src/src/config.rs\<close>, lines 170 to 202 and 333 to 602). The
  parsers of third parties are arguments: \<open>parse_duration\<close> is humantime's, \<open>from_toml\<close> is
  the toml crate's deserializer for the file records below, and \<open>read_to_string\<close> is the
  file system's.
\<close>

section \<open>Command-line arguments\<close>

record serve_args =
  sa_listen :: "rstr option"
  sa_target :: "rstr option"
  sa_config :: "path option"
  sa_connect_timeout :: "duration option"
  sa_idle_timeout :: "duration option"
  sa_shutdown_timeout :: "duration option"
  sa_max_connections :: "usize option"
  sa_max_connecting :: "usize option"
  sa_tcp_keepalive :: "duration option"
  sa_dns_refresh :: "duration option"
  sa_socket_buffer_size :: "usize option"
  sa_buffer_size :: "usize option"
  sa_buffer_pool_size :: "usize option"
  sa_connection_log_sample_rate :: "usize option"
  sa_forward_mode :: "rstr option"
  sa_reuse_port :: bool
  sa_metrics_listen :: "rstr option"
  sa_metrics_token :: "rstr option"
  sa_metrics_tls_cert :: "path option"
  sa_metrics_tls_key :: "path option"
  sa_log_level :: "rstr option"

datatype arg_error =
    InvalidDuration rstr rstr
  | DurationZero
  | InvalidPositiveInteger rstr int_error_kind
  | ValueZero

definition parse_duration_arg ::
  "(rstr \<Rightarrow> rstr + duration) \<Rightarrow> rstr \<Rightarrow> arg_error + duration" where
  "parse_duration_arg parse_duration value =
     and_then (map_err (InvalidDuration value) (parse_duration value)) (\<lambda>parsed.
       if is_zero parsed then Inl DurationZero else Inr parsed)"

definition parse_positive_usize :: "rstr \<Rightarrow> arg_error + usize" where
  "parse_positive_usize value =
     and_then (map_err (InvalidPositiveInteger value) (parse_usize value)) (\<lambda>parsed.
       if parsed = 0 then Inl ValueZero else Inr parsed)"

section \<open>The configuration file\<close>

record global_file_config =
  gf_log_level :: "rstr option"
  gf_metrics_listen :: "rstr option"
  gf_metrics_bearer_token :: "rstr option"
  gf_metrics_tls_cert :: "path option"
  gf_metrics_tls_key :: "path option"
  gf_connect_timeout :: "duration option"
  gf_idle_timeout :: "duration option"
  gf_shutdown_timeout :: "duration option"
  gf_max_connections :: "usize option"
  gf_max_connecting :: "usize option"
  gf_tcp_keepalive :: "duration option"
  gf_dns_refresh :: "duration option"
  gf_socket_buffer_size :: "usize option"
  gf_buffer_size :: "usize option"
  gf_buffer_pool_size :: "usize option"
  gf_connection_log_sample_rate :: "usize option"
  gf_forward_mode :: "rstr option"
  gf_reuse_port :: bool

record relay_file_config =
  rf_name :: "rstr option"
  rf_listen :: rstr
  rf_target :: rstr
  rf_connect_timeout :: "duration option"
  rf_idle_timeout :: "duration option"
  rf_max_connections :: "usize option"
  rf_max_connecting :: "usize option"
  rf_tcp_keepalive :: "duration option"
  rf_dns_refresh :: "duration option"
  rf_socket_buffer_size :: "usize option"
  rf_buffer_size :: "usize option"
  rf_forward_mode :: "rstr option"

record file_config =
  fc_global :: global_file_config
  fc_relay :: "relay_file_config list"

text \<open>\<open>deserialize_duration_opt\<close>: unlike the command line, the file's text is trimmed first
  and zero is left to the validation.\<close>

definition deserialize_duration_opt ::
  "(rstr \<Rightarrow> rstr + duration) \<Rightarrow> rstr option \<Rightarrow> rstr + duration option" where
  "deserialize_duration_opt parse_duration raw =
     transpose_opt (map_option (\<lambda>value. parse_duration (trim value)) raw)"

section \<open>Building settings\<close>

text \<open>\<open>text.map(ForwardMode::from_str).transpose()?.unwrap_or(d)\<close> and
  \<open>text.map(|v| Endpoint::parse(v, true, true)).transpose()?\<close>.\<close>

definition forward_mode_or :: "forward_mode \<Rightarrow> rstr option \<Rightarrow> config_error + forward_mode" where
  "forward_mode_or d text =
     and_then (transpose_opt (map_option forward_mode_from_str text)) (\<lambda>m. Inr (unwrap_or m d))"

definition optional_listener :: "rstr option \<Rightarrow> config_error + endpoint option" where
  "optional_listener text =
     transpose_opt (map_option (\<lambda>value. endpoint_parse value True True) text)"

definition settings_single :: "platform \<Rightarrow> rstr \<Rightarrow> rstr \<Rightarrow> config_error + settings" where
  "settings_single pf listen target =
     and_then (endpoint_parse listen True True) (\<lambda>l.
     and_then (endpoint_parse target False False) (\<lambda>t.
       let relay =
         \<lparr>rs_name = lit ''default'', rs_listen = l, rs_target = t,
          rs_connect_timeout = DEFAULT_CONNECT_TIMEOUT, rs_idle_timeout = None,
          rs_max_connections = None, rs_max_connecting = None, rs_tcp_keepalive = None,
          rs_dns_refresh = None, rs_socket_buffer_size = None,
          rs_buffer_size = DEFAULT_BUFFER_SIZE, rs_forward_mode = default_forward_mode\<rparr>;
         settings =
         \<lparr>st_log_level = lit ''info'', st_metrics_listen = None,
          st_metrics_bearer_token = None, st_metrics_tls_cert = None,
          st_metrics_tls_key = None, st_shutdown_timeout = DEFAULT_SHUTDOWN_TIMEOUT,
          st_global_max_connections = None, st_global_max_connecting = None,
          st_buffer_pool_size = DEFAULT_BUFFER_POOL_SIZE,
          st_connection_log_sample_rate = DEFAULT_CONNECTION_LOG_SAMPLE_RATE,
          st_reuse_port = False, st_relays = [relay]\<rparr>
       in and_then (validate pf settings) (\<lambda>_. Inr settings)))"

definition settings_from_cli :: "platform \<Rightarrow> serve_args \<Rightarrow> config_error + settings" where
  "settings_from_cli pf args =
     and_then (ok_or (Invalid ListenAndTargetRequired) (sa_listen args)) (\<lambda>listen.
     and_then (ok_or (Invalid ListenAndTargetRequired) (sa_target args)) (\<lambda>target.
     and_then (forward_mode_or default_forward_mode (sa_forward_mode args)) (\<lambda>mode.
     and_then (endpoint_parse listen True True) (\<lambda>l.
     and_then (endpoint_parse target False False) (\<lambda>t.
     and_then (optional_listener (sa_metrics_listen args)) (\<lambda>metrics_listen.
       let relay =
         \<lparr>rs_name = lit ''default'', rs_listen = l, rs_target = t,
          rs_connect_timeout = unwrap_or (sa_connect_timeout args) DEFAULT_CONNECT_TIMEOUT,
          rs_idle_timeout = sa_idle_timeout args,
          rs_max_connections = None, rs_max_connecting = None,
          rs_tcp_keepalive = sa_tcp_keepalive args, rs_dns_refresh = sa_dns_refresh args,
          rs_socket_buffer_size = sa_socket_buffer_size args,
          rs_buffer_size = unwrap_or (sa_buffer_size args) DEFAULT_BUFFER_SIZE,
          rs_forward_mode = mode\<rparr>;
         settings =
         \<lparr>st_log_level = unwrap_or (sa_log_level args) (lit ''info''),
          st_metrics_listen = metrics_listen,
          st_metrics_bearer_token = sa_metrics_token args,
          st_metrics_tls_cert = sa_metrics_tls_cert args,
          st_metrics_tls_key = sa_metrics_tls_key args,
          st_shutdown_timeout = unwrap_or (sa_shutdown_timeout args) DEFAULT_SHUTDOWN_TIMEOUT,
          st_global_max_connections = sa_max_connections args,
          st_global_max_connecting = sa_max_connecting args,
          st_buffer_pool_size = unwrap_or (sa_buffer_pool_size args) DEFAULT_BUFFER_POOL_SIZE,
          st_connection_log_sample_rate =
            unwrap_or (sa_connection_log_sample_rate args) DEFAULT_CONNECTION_LOG_SAMPLE_RATE,
          st_reuse_port = sa_reuse_port args, st_relays = [relay]\<rparr>
       in and_then (validate pf settings) (\<lambda>_. Inr settings)))))))"

text \<open>The body and the loop of \<open>settings_from_file\<close> over the file's relays, \<open>index\<close>
  counting from 0.\<close>

definition relay_name_of :: "nat \<Rightarrow> rstr option \<Rightarrow> rstr" where
  "relay_name_of index given =
     (case given of
        Some value \<Rightarrow> if trim value = [] then lit ''relay-'' @ dec (index + 1) else value
      | None \<Rightarrow> lit ''relay-'' @ dec (index + 1))"

definition relay_from_file ::
  "global_file_config \<Rightarrow> forward_mode \<Rightarrow> nat \<Rightarrow> relay_file_config \<Rightarrow>
   config_error + relay_spec" where
  "relay_from_file g global_mode index r =
     and_then (forward_mode_or global_mode (rf_forward_mode r)) (\<lambda>mode.
     and_then (endpoint_parse (rf_listen r) True True) (\<lambda>l.
     and_then (endpoint_parse (rf_target r) False False) (\<lambda>t.
       Inr
         \<lparr>rs_name = relay_name_of index (rf_name r), rs_listen = l, rs_target = t,
          rs_connect_timeout =
            unwrap_or (rf_connect_timeout r) (unwrap_or (gf_connect_timeout g) DEFAULT_CONNECT_TIMEOUT),
          rs_idle_timeout = opt_or (rf_idle_timeout r) (gf_idle_timeout g),
          rs_max_connections = rf_max_connections r, rs_max_connecting = rf_max_connecting r,
          rs_tcp_keepalive = opt_or (rf_tcp_keepalive r) (gf_tcp_keepalive g),
          rs_dns_refresh = opt_or (rf_dns_refresh r) (gf_dns_refresh g),
          rs_socket_buffer_size = opt_or (rf_socket_buffer_size r) (gf_socket_buffer_size g),
          rs_buffer_size =
            unwrap_or (rf_buffer_size r) (unwrap_or (gf_buffer_size g) DEFAULT_BUFFER_SIZE),
          rs_forward_mode = mode\<rparr>)))"

fun relays_from_file ::
  "global_file_config \<Rightarrow> forward_mode \<Rightarrow> nat \<Rightarrow> relay_file_config list \<Rightarrow>
   config_error + relay_spec list" where
  "relays_from_file g global_mode index [] = Inr []"
| "relays_from_file g global_mode index (r # rs) =
     and_then (relay_from_file g global_mode index r) (\<lambda>relay.
     and_then (relays_from_file g global_mode (index + 1) rs) (\<lambda>relays.
       Inr (relay # relays)))"

definition settings_from_file ::
  "platform \<Rightarrow> file_config \<Rightarrow> serve_args \<Rightarrow> config_error + settings" where
  "settings_from_file pf file args =
     (if fc_relay file = [] then Inl (Invalid NoRelayEntry)
      else
        let g = fc_global file in
        and_then (optional_listener (sa_metrics_listen args)) (\<lambda>cli_metrics.
        and_then (optional_listener (gf_metrics_listen g)) (\<lambda>file_metrics.
        and_then (forward_mode_or default_forward_mode (gf_forward_mode g)) (\<lambda>global_mode.
        and_then (relays_from_file g global_mode 0 (fc_relay file)) (\<lambda>relays.
          let settings =
            \<lparr>st_log_level = unwrap_or (opt_or (sa_log_level args) (gf_log_level g)) (lit ''info''),
             st_metrics_listen = opt_or cli_metrics file_metrics,
             st_metrics_bearer_token = gf_metrics_bearer_token g,
             st_metrics_tls_cert = gf_metrics_tls_cert g,
             st_metrics_tls_key = gf_metrics_tls_key g,
             st_shutdown_timeout =
               unwrap_or (opt_or (sa_shutdown_timeout args) (gf_shutdown_timeout g))
                 DEFAULT_SHUTDOWN_TIMEOUT,
             st_global_max_connections = gf_max_connections g,
             st_global_max_connecting = gf_max_connecting g,
             st_buffer_pool_size = unwrap_or (gf_buffer_pool_size g) DEFAULT_BUFFER_POOL_SIZE,
             st_connection_log_sample_rate =
               unwrap_or (gf_connection_log_sample_rate g) DEFAULT_CONNECTION_LOG_SAMPLE_RATE,
             st_reuse_port = gf_reuse_port g, st_relays = relays\<rparr>
          in and_then (validate pf settings) (\<lambda>_. Inr settings))))))"

definition runtime_options_given :: "serve_args \<Rightarrow> bool" where
  "runtime_options_given args \<longleftrightarrow>
     is_some (sa_connect_timeout args) \<or> is_some (sa_idle_timeout args) \<or>
     is_some (sa_max_connections args) \<or> is_some (sa_max_connecting args) \<or>
     is_some (sa_tcp_keepalive args) \<or> is_some (sa_dns_refresh args) \<or>
     is_some (sa_socket_buffer_size args) \<or> is_some (sa_buffer_size args) \<or>
     is_some (sa_buffer_pool_size args) \<or> is_some (sa_connection_log_sample_rate args) \<or>
     is_some (sa_forward_mode args) \<or> sa_reuse_port args \<or> is_some (sa_metrics_token args) \<or>
     is_some (sa_metrics_tls_cert args) \<or> is_some (sa_metrics_tls_key args)"

definition load_settings ::
  "platform \<Rightarrow> (path \<Rightarrow> io_error + rstr) \<Rightarrow> (rstr \<Rightarrow> rstr + file_config) \<Rightarrow> serve_args \<Rightarrow>
   config_error + settings" where
  "load_settings pf read_to_string from_toml args =
     (case sa_config args of
        Some p \<Rightarrow>
          if runtime_options_given args then Inl (Invalid RuntimeOptionsWithConfig)
          else and_then (map_err (ReadConfig p) (read_to_string p)) (\<lambda>contents.
               and_then (map_err ParseConfig (from_toml contents)) (\<lambda>file.
                 settings_from_file pf file args))
      | None \<Rightarrow> settings_from_cli pf args)"

section \<open>Lemmas\<close>

text \<open>Settings whose endpoints came out of the endpoint parser with the right flags.\<close>

definition wf_relay_endpoints :: "relay_spec \<Rightarrow> bool" where
  "wf_relay_endpoints r \<longleftrightarrow> wf_endpoint True (rs_listen r) \<and> wf_endpoint False (rs_target r)"

definition usable_settings :: "platform \<Rightarrow> settings \<Rightarrow> bool" where
  "usable_settings pf s \<longleftrightarrow>
     valid_settings pf s \<and> (\<forall>r\<in>set (st_relays s). wf_relay_endpoints r) \<and>
     (\<forall>e. st_metrics_listen s = Some e \<longrightarrow> wf_endpoint True e)"

lemma optional_listener_Inr:
  "optional_listener text = Inr e \<Longrightarrow> (\<forall>x. e = Some x \<longrightarrow> wf_endpoint True x)"
  by (auto simp: optional_listener_def result_simps intro: endpoint_parse_wf)

lemma opt_or_cases: "opt_or x y = Some z \<Longrightarrow> x = Some z \<or> y = Some z"
  by (cases x) auto

text \<open>Every relay of the file, with what it inherits from the global section.\<close>

definition inherits_from :: "global_file_config \<Rightarrow> relay_file_config \<Rightarrow> relay_spec \<Rightarrow> bool" where
  "inherits_from g r spec \<longleftrightarrow>
     endpoint_parse (rf_listen r) True True = Inr (rs_listen spec) \<and>
     endpoint_parse (rf_target r) False False = Inr (rs_target spec) \<and>
     rs_connect_timeout spec =
       (case rf_connect_timeout r of Some d \<Rightarrow> d
        | None \<Rightarrow> (case gf_connect_timeout g of Some d \<Rightarrow> d | None \<Rightarrow> from_secs 10)) \<and>
     rs_idle_timeout spec =
       (case rf_idle_timeout r of Some d \<Rightarrow> Some d | None \<Rightarrow> gf_idle_timeout g) \<and>
     rs_tcp_keepalive spec =
       (case rf_tcp_keepalive r of Some d \<Rightarrow> Some d | None \<Rightarrow> gf_tcp_keepalive g) \<and>
     rs_dns_refresh spec =
       (case rf_dns_refresh r of Some d \<Rightarrow> Some d | None \<Rightarrow> gf_dns_refresh g) \<and>
     rs_socket_buffer_size spec =
       (case rf_socket_buffer_size r of Some n \<Rightarrow> Some n | None \<Rightarrow> gf_socket_buffer_size g) \<and>
     rs_buffer_size spec =
       (case rf_buffer_size r of Some n \<Rightarrow> n
        | None \<Rightarrow> (case gf_buffer_size g of Some n \<Rightarrow> n | None \<Rightarrow> 16384)) \<and>
     rs_max_connections spec = rf_max_connections r \<and>
     rs_max_connecting spec = rf_max_connecting r"

lemma unwrap_or_case: "unwrap_or x d = (case x of Some y \<Rightarrow> y | None \<Rightarrow> d)"
  by (cases x) simp_all

lemma opt_or_case: "opt_or x y = (case x of Some z \<Rightarrow> Some z | None \<Rightarrow> y)"
  by (cases x) simp_all

lemma relay_from_file_inherits:
  assumes "relay_from_file g m i r = Inr spec"
  shows "inherits_from g r spec \<and> rs_name spec = relay_name_of i (rf_name r) \<and>
         forward_mode_or m (rf_forward_mode r) = Inr (rs_forward_mode spec)"
  using assms
  by (clarsimp simp: relay_from_file_def and_then_Inr inherits_from_def unwrap_or_case opt_or_case
      DEFAULT_CONNECT_TIMEOUT_def DEFAULT_BUFFER_SIZE_def cong: option.case_cong)

lemma relays_from_file_inherits:
  assumes "relays_from_file g m i rs = Inr specs"
  shows "list_all2 (inherits_from g) rs specs"
  using assms
proof (induction rs arbitrary: i specs)
  case Nil
  then show ?case by simp
next
  case (Cons r rs)
  then show ?case by (auto simp: and_then_Inr dest: relay_from_file_inherits)
qed

lemma inherits_from_wf: "inherits_from g r spec \<Longrightarrow> wf_relay_endpoints spec"
  by (auto simp: inherits_from_def wf_relay_endpoints_def intro: endpoint_parse_wf)

lemma relays_from_file_wf:
  assumes "relays_from_file g m i rs = Inr specs"
  shows "\<forall>s\<in>set specs. wf_relay_endpoints s"
  using relays_from_file_inherits [OF assms]
  by (induction rule: list_all2_induct) (auto dest: inherits_from_wf)

lemma optional_listener_merge:
  assumes "optional_listener x = Inr a" "optional_listener y = Inr b" "opt_or a b = Some e"
  shows "wf_endpoint True e"
  using optional_listener_Inr [OF assms(1)] optional_listener_Inr [OF assms(2)]
    opt_or_cases [OF assms(3)] by blast

lemma settings_from_cli_usable:
  "settings_from_cli pf args = Inr s \<Longrightarrow> usable_settings pf s"
  by (auto simp: settings_from_cli_def result_simps Let_def usable_settings_def
      wf_relay_endpoints_def validate_iff_valid dest: optional_listener_Inr intro: endpoint_parse_wf)

lemma settings_from_file_InrE:
  assumes "settings_from_file pf file args = Inr s"
  obtains cli_metrics file_metrics mode where
    "fc_relay file \<noteq> []" "valid_settings pf s"
    "optional_listener (sa_metrics_listen args) = Inr cli_metrics"
    "optional_listener (gf_metrics_listen (fc_global file)) = Inr file_metrics"
    "forward_mode_or default_forward_mode (gf_forward_mode (fc_global file)) = Inr mode"
    "relays_from_file (fc_global file) mode 0 (fc_relay file) = Inr (st_relays s)"
    "st_metrics_listen s = opt_or cli_metrics file_metrics"
    "st_log_level s =
       unwrap_or (opt_or (sa_log_level args) (gf_log_level (fc_global file))) (lit ''info'')"
    "st_shutdown_timeout s =
       unwrap_or (opt_or (sa_shutdown_timeout args) (gf_shutdown_timeout (fc_global file)))
         DEFAULT_SHUTDOWN_TIMEOUT"
    "st_global_max_connections s = gf_max_connections (fc_global file)"
    "st_metrics_bearer_token s = gf_metrics_bearer_token (fc_global file)"
  using assms unfolding settings_from_file_def Let_def
  by (auto simp: and_then_Inr validate_iff_valid split: if_splits)

lemma settings_from_file_usable:
  "settings_from_file pf file args = Inr s \<Longrightarrow> usable_settings pf s"
  by (erule settings_from_file_InrE)
    (auto simp: usable_settings_def dest: relays_from_file_wf intro: optional_listener_merge)

lemma settings_single_usable:
  "settings_single pf l t = Inr s \<Longrightarrow> usable_settings pf s"
  by (auto simp: settings_single_def result_simps Let_def usable_settings_def
      wf_relay_endpoints_def validate_iff_valid intro: endpoint_parse_wf)

text \<open>The arguments that stay in force when a configuration file is named.\<close>

definition file_overrides :: "serve_args \<Rightarrow> serve_args" where
  "file_overrides args =
     \<lparr>sa_listen = None, sa_target = None, sa_config = sa_config args, sa_connect_timeout = None,
      sa_idle_timeout = None, sa_shutdown_timeout = sa_shutdown_timeout args,
      sa_max_connections = None, sa_max_connecting = None, sa_tcp_keepalive = None,
      sa_dns_refresh = None, sa_socket_buffer_size = None, sa_buffer_size = None,
      sa_buffer_pool_size = None, sa_connection_log_sample_rate = None, sa_forward_mode = None,
      sa_reuse_port = False, sa_metrics_listen = sa_metrics_listen args, sa_metrics_token = None,
      sa_metrics_tls_cert = None, sa_metrics_tls_key = None, sa_log_level = sa_log_level args\<rparr>"

lemma settings_from_file_overrides:
  "settings_from_file pf file (file_overrides args) = settings_from_file pf file args"
  by (simp add: settings_from_file_def file_overrides_def)

lemma no_runtime_options_overrides: "\<not> runtime_options_given (file_overrides args)"
  by (simp add: runtime_options_given_def file_overrides_def)

lemma relays_from_file_names:
  assumes "relays_from_file g m i rs = Inr specs" "k < length rs"
  shows "rs_name (specs ! k) = relay_name_of (i + k) (rf_name (rs ! k)) \<and>
         forward_mode_or m (rf_forward_mode (rs ! k)) = Inr (rs_forward_mode (specs ! k))"
  using assms
proof (induction rs arbitrary: i k specs)
  case Nil
  then show ?case by simp
next
  case (Cons r rs)
  obtain spec specs' where s: "relay_from_file g m i r = Inr spec"
    "relays_from_file g m (i + 1) rs = Inr specs'" "specs = spec # specs'"
    using Cons.prems(1) by (auto simp: and_then_Inr)
  show ?case
  proof (cases k)
    case 0
    then show ?thesis using relay_from_file_inherits [OF s(1)] s(3) by simp
  next
    case (Suc j)
    then show ?thesis using Cons.IH [OF s(2), of j] Cons.prems(2) s(3) by simp
  qed
qed

lemma load_settings_InrD:
  "load_settings pf read_to_string from_toml args = Inr s \<Longrightarrow> usable_settings pf s"
  by (auto simp: load_settings_def result_simps split: option.splits if_splits
      dest: settings_from_cli_usable settings_from_file_usable)

lemma load_settings_valid:
  "load_settings pf read_to_string from_toml args = Inr s \<Longrightarrow> valid_settings pf s"
  using load_settings_InrD by (simp add: usable_settings_def)

section \<open>Properties\<close>

text \<open>
  C18. Whatever path the settings take (file or command line), settings that load are valid,
  every listener and target endpoint is well formed (port 0 only for listeners), and so is the
  metrics listener: the server never starts from settings that validation would reject.
\<close>

theorem load_settings_usable:
  "load_settings pf read_to_string from_toml args = Inr s \<Longrightarrow> usable_settings pf s"
  by (rule load_settings_InrD)

definition example_args :: serve_args where
  "example_args =
     \<lparr>sa_listen = Some (lit '':8080''), sa_target = Some (lit ''db:5432''), sa_config = None,
      sa_connect_timeout = None, sa_idle_timeout = None, sa_shutdown_timeout = None,
      sa_max_connections = Some 10, sa_max_connecting = None, sa_tcp_keepalive = None,
      sa_dns_refresh = None, sa_socket_buffer_size = None, sa_buffer_size = None,
      sa_buffer_pool_size = None, sa_connection_log_sample_rate = None, sa_forward_mode = None,
      sa_reuse_port = False, sa_metrics_listen = None, sa_metrics_token = None,
      sa_metrics_tls_cert = None, sa_metrics_tls_key = None, sa_log_level = None\<rparr>"

lemma example_endpoints:
  "endpoint_parse (lit '':8080'') True True =
     Inr \<lparr>ep_address = lit ''0.0.0.0:8080'', ep_host = lit ''0.0.0.0'', ep_port = 8080\<rparr>"
  "endpoint_parse (lit ''db:5432'') False False =
     Inr \<lparr>ep_address = lit ''db:5432'', ep_host = lit ''db'', ep_port = 5432\<rparr>"
  by (simp_all add: endpoint_parse_def trim_def lit_def is_whitespace_def split_host_port_def
      strip_prefix_def parse_u16_def parse_unsigned_def is_digit_def format_address_def dec.simps)

lemmas validation_defs = validate_def validate_limit_def reject_if_def validate_relay_fields_def
  is_zero_def from_secs_def DEFAULT_CONNECT_TIMEOUT_def DEFAULT_SHUTDOWN_TIMEOUT_def
  DEFAULT_BUFFER_SIZE_def DEFAULT_BUFFER_POOL_SIZE_def DEFAULT_CONNECTION_LOG_SAMPLE_RATE_def
  default_forward_mode_def

lemma example_loads:
  "\<exists>s. load_settings Linux (\<lambda>_. Inl (OsError 2)) (\<lambda>_. Inl []) example_args = Inr s"
  by (simp add: load_settings_def settings_from_cli_def example_args_def forward_mode_or_def
      optional_listener_def example_endpoints validation_defs Let_def)
    (simp add: lit_def trim_def is_whitespace_def)

lemma load_settings_usable_witness:
  "\<exists>s. load_settings Linux (\<lambda>_. Inl (OsError 2)) (\<lambda>_. Inl []) example_args = Inr s \<and>
       usable_settings Linux s"
  using example_loads load_settings_usable by blast

text \<open>
  C37. With a configuration file named, a relay, limit or security option on the command line is
  refused before the file is read, and otherwise the result depends on the command line only
  through the log level, the metrics listener and the shutdown timeout.
\<close>

theorem config_mode_overrides:
  assumes "sa_config args = Some p"
  shows "load_settings pf read_to_string from_toml args =
     (if runtime_options_given args then Inl (Invalid RuntimeOptionsWithConfig)
      else load_settings pf read_to_string from_toml (file_overrides args))"
proof -
  have "sa_config (file_overrides args) = Some p" using assms by (simp add: file_overrides_def)
  then show ?thesis using assms
    by (simp add: load_settings_def settings_from_file_overrides no_runtime_options_overrides)
qed

lemma config_mode_overrides_witness:
  "load_settings Linux (\<lambda>_. Inl (OsError 2)) (\<lambda>_. Inl []) (example_args\<lparr>sa_config := Some []\<rparr>) =
     Inl (Invalid RuntimeOptionsWithConfig)"
  using config_mode_overrides [of "example_args\<lparr>sa_config := Some []\<rparr>" "[]" Linux]
  by (simp add: example_args_def runtime_options_given_def)


definition empty_global :: global_file_config where
  "empty_global =
     \<lparr>gf_log_level = None, gf_metrics_listen = None, gf_metrics_bearer_token = None,
      gf_metrics_tls_cert = None, gf_metrics_tls_key = None, gf_connect_timeout = None,
      gf_idle_timeout = None, gf_shutdown_timeout = None, gf_max_connections = None,
      gf_max_connecting = None, gf_tcp_keepalive = None, gf_dns_refresh = None,
      gf_socket_buffer_size = None, gf_buffer_size = None, gf_buffer_pool_size = None,
      gf_connection_log_sample_rate = None, gf_forward_mode = None, gf_reuse_port = False\<rparr>"

definition example_entry :: relay_file_config where
  "example_entry =
     \<lparr>rf_name = None, rf_listen = lit '':8080'', rf_target = lit ''db:5432'',
      rf_connect_timeout = None, rf_idle_timeout = None, rf_max_connections = None,
      rf_max_connecting = None, rf_tcp_keepalive = None, rf_dns_refresh = None,
      rf_socket_buffer_size = None, rf_buffer_size = None, rf_forward_mode = None\<rparr>"


text \<open>
  A value the command-line parsers accept is positive and is the value of its text: no
  duration or count that reaches the settings this way can be the zero that validation refuses,
  and every positive count prints to a text that is accepted.
\<close>

lemma cli_values_positive:
  "(case parse_positive_usize text of
      Inr n \<Rightarrow> n \<noteq> 0 \<and> parse_unsigned (2 ^ 64 - 1) text = Inr (unat n)
    | Inl _ \<Rightarrow> \<not> (\<exists>n. n \<noteq> 0 \<and> parse_unsigned (2 ^ 64 - 1) text = Inr n)) \<and>
   (n \<noteq> 0 \<longrightarrow> parse_positive_usize (dec (unat n)) = Inr n) \<and>
   (case parse_duration_arg parse_duration text of
      Inr d \<Rightarrow> \<not> is_zero d \<and> parse_duration text = Inr d
    | Inl e \<Rightarrow> e = DurationZero \<longrightarrow> (\<exists>d. parse_duration text = Inr d \<and> is_zero d))"
proof (intro conjI impI)
  show "case parse_positive_usize text of
      Inr n \<Rightarrow> n \<noteq> 0 \<and> parse_unsigned (2 ^ 64 - 1) text = Inr (unat n)
    | Inl _ \<Rightarrow> \<not> (\<exists>n. n \<noteq> 0 \<and> parse_unsigned (2 ^ 64 - 1) text = Inr n)"
  proof (cases "parse_unsigned 18446744073709551615 text")
    case (Inl e)
    then show ?thesis by (simp add: parse_positive_usize_def parse_usize_def)
  next
    case (Inr n)
    then have "unat (of_nat n :: usize) = n"
      using parse_unsigned_bound [OF Inr] by (simp add: unat_of_nat take_bit_nat_eq_self)
    with Inr show ?thesis
      by (auto simp: parse_positive_usize_def parse_usize_def word_unat_eq_iff)
  qed
  assume "n \<noteq> 0"
  moreover have "unat n \<le> 18446744073709551615" using unat_bound [of n] by simp
  ultimately show "parse_positive_usize (dec (unat n)) = Inr n"
    by (simp add: parse_positive_usize_def parse_usize_def parse_unsigned_dec)
next
  show "case parse_duration_arg parse_duration text of
      Inr d \<Rightarrow> \<not> is_zero d \<and> parse_duration text = Inr d
    | Inl e \<Rightarrow> e = DurationZero \<longrightarrow> (\<exists>d. parse_duration text = Inr d \<and> is_zero d)"
    by (cases "parse_duration text") (auto simp: parse_duration_arg_def)
qed

end
