(* ===== verification/Limits.thy ===== *)
theory Limits
  imports Prelude
begin

text \<open>
  Connection limits (\<open>src/src/server.rs\<close>, lines 519 to 530, and the fields of \<open>BoundRelay\<close>).
  The semaphores are tokio's: they enter as a record of operations, with the documented laws
  as a locale. On top of them stand the program's own \<open>acquire_permit\<close> and the dropping of
  an owned permit, over the store of all semaphores the relays share; the locale \<open>limiter\<close>
  is the contract the admission code relies on, and \<open>acquire_all\<close> its all-or-nothing use.
\<close>

section \<open>Semaphores\<close>

text \<open>
  \<open>sem_new n = None\<close> is the documented panic of \<open>Semaphore::new\<close> above \<open>MAX_PERMITS\<close>
  (\<open>usize::MAX >> 3\<close>); \<open>acquire_many n s = None\<close> says that \<open>n\<close> permits are not available, which
  \<open>try_acquire_owned\<close> reports and \<open>acquire_many_owned\<close> waits for.
\<close>

record 's semaphore_ops =
  sem_new :: "nat \<Rightarrow> 's option"
  acquire_many :: "nat \<Rightarrow> 's \<Rightarrow> 's option"
  release :: "'s \<Rightarrow> 's"
  available :: "'s \<Rightarrow> nat"

definition MAX_PERMITS :: nat where
  "MAX_PERMITS = 2 ^ 61 - 1"

locale semaphore =
  fixes ops :: "'s semaphore_ops"
  assumes new_None: "sem_new ops n = None \<longleftrightarrow> MAX_PERMITS < n"
    and new_Some: "sem_new ops n = Some s \<Longrightarrow> available ops s = n"
    and acquire_None: "acquire_many ops n s = None \<longleftrightarrow> available ops s < n"
    and acquire_Some: "acquire_many ops n s = Some s' \<Longrightarrow> available ops s' + n = available ops s"
    and available_release: "available ops (release ops s) = available ops s + 1"

section \<open>The store of semaphores and its permits\<close>

text \<open>
  The listener and connection tasks share semaphores through \<open>Arc\<close>s: two for the whole
  process, two for each relay. An owned permit remembers the semaphore it returns to; a limit
  that is not configured has no semaphore and hands out the permit \<open>None\<close>.
\<close>

datatype sem_id = GlobalLimit | RelayLimit nat | GlobalConnecting | RelayConnecting nat

type_synonym permit = "sem_id option"
type_synonym 's store = "sem_id \<Rightarrow> 's option"

definition acquire_permit ::
  "'s semaphore_ops \<Rightarrow> sem_id \<Rightarrow> 's store \<Rightarrow> unit + permit \<times> 's store" where
  "acquire_permit ops limit st =
     (case st limit of
        None \<Rightarrow> Inr (None, st)
      | Some s \<Rightarrow>
          (case acquire_many ops 1 s of
             None \<Rightarrow> Inl ()
           | Some s' \<Rightarrow> Inr (Some limit, st(limit \<mapsto> s'))))"

text \<open>\<open>Drop for OwnedSemaphorePermit\<close>: the permit goes back to its semaphore.\<close>

definition drop_permit :: "'s semaphore_ops \<Rightarrow> permit \<Rightarrow> 's store \<Rightarrow> 's store" where
  "drop_permit ops p st =
     (case p of
        None \<Rightarrow> st
      | Some i \<Rightarrow> (case st i of None \<Rightarrow> st | Some s \<Rightarrow> st(i \<mapsto> release ops s)))"

text \<open>What can be observed of a store: the free permits of every configured limit.\<close>

definition free_permits :: "'s semaphore_ops \<Rightarrow> 's store \<Rightarrow> sem_id \<Rightarrow> nat option" where
  "free_permits ops st = (\<lambda>i. map_option (available ops) (st i))"

section \<open>The contract of the limits\<close>

locale limiter =
  fixes acquire :: "'i \<Rightarrow> 'st \<Rightarrow> unit + 'i option \<times> 'st"
    and give_back :: "'i option \<Rightarrow> 'st \<Rightarrow> 'st"
    and free :: "'st \<Rightarrow> 'i \<Rightarrow> nat option"
  assumes refused: "acquire i st = Inl () \<longleftrightarrow> free st i = Some 0"
    and unlimited: "free st i = None \<Longrightarrow> acquire i st = Inr (None, st)"
    and granted: "acquire i st = Inr (p, st') \<Longrightarrow> free st i = Some n \<Longrightarrow>
      p = Some i \<and> 0 < n \<and> free st' = (free st)(i \<mapsto> n - 1)"
    and give_None: "give_back None st = st"
    and give_Some: "free st i = Some n \<Longrightarrow> free (give_back (Some i) st) = (free st)(i \<mapsto> n + 1)"

text \<open>
  The nested matches of the listener: acquire the limits in order; when one is exhausted, give
  back what was taken, the last one first.
\<close>

fun give_back_all :: "('i option \<Rightarrow> 'st \<Rightarrow> 'st) \<Rightarrow> 'i option list \<Rightarrow> 'st \<Rightarrow> 'st" where
  "give_back_all give_back [] st = st"
| "give_back_all give_back (p # ps) st = give_back_all give_back ps (give_back p st)"

fun acquire_all ::
  "('i \<Rightarrow> 'st \<Rightarrow> unit + 'i option \<times> 'st) \<Rightarrow> ('i option \<Rightarrow> 'st \<Rightarrow> 'st) \<Rightarrow> 'i list \<Rightarrow>
   'i option list \<Rightarrow> 'st \<Rightarrow> 'i option list option \<times> 'st" where
  "acquire_all acquire give_back [] taken st = (Some taken, st)"
| "acquire_all acquire give_back (i # is) taken st =
     (case acquire i st of
        Inl _ \<Rightarrow> (None, give_back_all give_back (rev taken) st)
      | Inr (p, st') \<Rightarrow> acquire_all acquire give_back is (taken @ [p]) st')"

text \<open>The permits a store hands out for a list of limits.\<close>

definition permit_for :: "('i \<Rightarrow> nat option) \<Rightarrow> 'i \<Rightarrow> 'i option" where
  "permit_for free i = (if free i = None then None else Some i)"

text \<open>Free permits after taking one for each limit of a list without repetitions.\<close>

definition after_taking :: "'i set \<Rightarrow> ('i \<Rightarrow> nat option) \<Rightarrow> 'i \<Rightarrow> nat option" where
  "after_taking I free = (\<lambda>i. if i \<in> I then map_option (\<lambda>n. n - 1) (free i) else free i)"

context limiter
begin

lemma acquired:
  assumes "acquire i st = Inr (p, st')"
  shows "p = permit_for (free st) i \<and> free st' = after_taking {i} (free st) \<and> free st i \<noteq> Some 0"
proof (cases "free st i")
  case None
  then show ?thesis using assms unlimited [OF None]
    by (auto simp: permit_for_def after_taking_def fun_eq_iff)
next
  case (Some n)
  then show ?thesis using granted [OF assms Some]
    by (auto simp: permit_for_def after_taking_def fun_eq_iff)
qed

lemma give_back_taken:
  assumes "free st = after_taking (insert i I) f" "i \<notin> I" "f i \<noteq> Some 0"
  shows "free (give_back (permit_for f i) st) = after_taking I f"
proof (cases "f i")
  case None
  then have "after_taking (insert i I) f = after_taking I f"
    by (auto simp: after_taking_def fun_eq_iff)
  with None show ?thesis using assms(1) by (simp add: permit_for_def give_None)
next
  case (Some n)
  then have "free st i = Some (n - 1)" "0 < n"
    using assms by (auto simp: after_taking_def)
  then have "free (give_back (Some i) st) = (free st)(i \<mapsto> n)"
    using give_Some [of st i "n - 1"] by simp
  with Some assms show ?thesis by (auto simp: permit_for_def after_taking_def fun_eq_iff)
qed

lemma give_back_all_taken:
  assumes "free st = after_taking (set is) f" "distinct is" "\<forall>i\<in>set is. f i \<noteq> Some 0"
  shows "free (give_back_all give_back (map (permit_for f) is) st) = f"
  using assms
proof (induction "is" arbitrary: st)
  case Nil
  then show ?case by (simp add: after_taking_def)
next
  case (Cons i js)
  have "free (give_back (permit_for f i) st) = after_taking (set js) f"
    using Cons.prems by (intro give_back_taken) auto
  then show ?case using Cons by simp
qed

lemma after_taking_insert:
  "i \<notin> I \<Longrightarrow> after_taking {i} (after_taking I f) = after_taking (insert i I) f"
  by (auto simp: after_taking_def fun_eq_iff)

lemma acquire_all_spec:
  assumes "distinct (js @ is)" "free st = after_taking (set js) f" "\<forall>j\<in>set js. f j \<noteq> Some 0"
  shows "\<exists>st'. acquire_all acquire give_back is (map (permit_for f) js) st =
           (if \<exists>i\<in>set is. f i = Some 0 then None else Some (map (permit_for f) (js @ is)), st') \<and>
         free st' = (if \<exists>i\<in>set is. f i = Some 0 then f else after_taking (set (js @ is)) f)"
  using assms
proof (induction "is" arbitrary: js st)
  case Nil
  then show ?case by simp
next
  case (Cons i "is")
  have fi: "free st i = f i" using Cons.prems by (simp add: after_taking_def)
  show ?case
  proof (cases "acquire i st")
    case (Inl u)
    then have "f i = Some 0" using refused [of i st] fi by simp
    moreover have "free (give_back_all give_back (rev (map (permit_for f) js)) st) = f"
      using give_back_all_taken [of st "rev js" f] Cons.prems by (simp add: rev_map)
    ultimately show ?thesis using Inl by simp
  next
    case (Inr r)
    obtain p st' where r: "r = (p, st')" by (cases r)
    note a = acquired [OF Inr [unfolded r]]
    then have "p = permit_for f i" "f i \<noteq> Some 0" using fi by (simp_all add: permit_for_def)
    moreover have "free st' = after_taking (set (js @ [i])) f"
      using a Cons.prems by (simp add: after_taking_insert)
    ultimately show ?thesis using Cons.IH [of "js @ [i]" st'] Cons.prems Inr r by auto
  qed
qed

end

section \<open>Tokio's semaphores give that contract\<close>

sublocale semaphore \<subseteq> limiter "acquire_permit ops" "drop_permit ops" "free_permits ops"
proof
  fix i :: sem_id and st :: "'s store"
  show "acquire_permit ops i st = Inl () \<longleftrightarrow> free_permits ops st i = Some 0"
    by (auto simp: acquire_permit_def free_permits_def acquire_None split: option.splits
        dest: acquire_Some)
next
  fix i :: sem_id and st :: "'s store"
  assume "free_permits ops st i = None"
  then show "acquire_permit ops i st = Inr (None, st)"
    by (simp add: acquire_permit_def free_permits_def)
next
  fix i p n and st st' :: "'s store"
  assume "acquire_permit ops i st = Inr (p, st')" "free_permits ops st i = Some n"
  then obtain s s' where "st i = Some s" "acquire_many ops 1 s = Some s'" "p = Some i"
    "st' = st(i \<mapsto> s')" "n = available ops s"
    by (auto simp: acquire_permit_def free_permits_def split: option.splits)
  then show "p = Some i \<and> 0 < n \<and> free_permits ops st' = (free_permits ops st)(i \<mapsto> n - 1)"
    using acquire_Some [of 1 s s'] by (auto simp: free_permits_def fun_eq_iff)
next
  fix st :: "'s store"
  show "drop_permit ops None st = st" by (simp add: drop_permit_def)
next
  fix i n and st :: "'s store"
  assume "free_permits ops st i = Some n"
  then show "free_permits ops (drop_permit ops (Some i) st) = (free_permits ops st)(i \<mapsto> n + 1)"
    by (auto simp: drop_permit_def free_permits_def available_release fun_eq_iff)
qed

text \<open>A counting semaphore satisfies the laws: the hypotheses of the properties can hold.\<close>

definition counting_ops :: "nat semaphore_ops" where
  "counting_ops =
     \<lparr>sem_new = (\<lambda>n. if MAX_PERMITS < n then None else Some n),
      acquire_many = (\<lambda>n s. if s < n then None else Some (s - n)),
      release = Suc, available = id\<rparr>"

interpretation counting: semaphore counting_ops
  by unfold_locales (auto simp: counting_ops_def split: if_splits)

end
