(* ===== verification/Metrics.thy ===== *)
theory Metrics
  imports Rust_Std
begin

text \<open>
  The counters of one relay and the registry (\<open>src/src/metrics.rs\<close>): the duration
  histogram, the operations of \<open>RelayMetrics\<close> and how they move the counters. The counters
  are \<open>AtomicU64\<close>: \<open>fetch_add\<close> and \<open>fetch_sub\<close> wrap at 64 bits, which \<open>u64\<close> addition and
  subtraction do. Rendering is in theory \<open>Metrics_Text\<close>.
\<close>

section \<open>Histograms\<close>

definition DURATION_BUCKETS_MILLIS :: "u64 list" where
  "DURATION_BUCKETS_MILLIS = [1, 5, 10, 25, 50, 100, 250, 500, 1000, 5000, 30000, 300000]"

record histogram =
  h_buckets :: "u64 list"
  h_count :: u64
  h_sum_micros :: u64

definition histogram_new :: histogram where
  "histogram_new =
     \<lparr>h_buckets = map (\<lambda>_. 0) DURATION_BUCKETS_MILLIS, h_count = 0, h_sum_micros = 0\<rparr>"

text \<open>The \<open>for\<close> loop of \<open>observe\<close>: the first bound that is not exceeded is counted, then
  the loop is left.\<close>

fun bump_bucket :: "u64 \<Rightarrow> u64 list \<Rightarrow> u64 list \<Rightarrow> u64 list" where
  "bump_bucket millis (bound # bounds) (b # bs) =
     (if millis \<le> bound then (b + 1) # bs else b # bump_bucket millis bounds bs)"
| "bump_bucket millis bounds bs = bs"

definition observe :: "duration \<Rightarrow> histogram \<Rightarrow> histogram" where
  "observe d h =
     h\<lparr>h_buckets :=
         bump_bucket (saturate_u64 (as_millis d)) DURATION_BUCKETS_MILLIS (h_buckets h),
       h_count := h_count h + 1,
       h_sum_micros := h_sum_micros h + saturate_u64 (as_micros d)\<rparr>"

section \<open>The counters of a relay\<close>

text \<open>\<open>escape_label\<close>: three passes of \<open>str::replace\<close> with one-character patterns.\<close>

definition replace_char :: "rchar \<Rightarrow> rstr \<Rightarrow> rstr \<Rightarrow> rstr" where
  "replace_char c by_text s = concat (map (\<lambda>x. if x = c then by_text else [x]) s)"

definition escape_label :: "rstr \<Rightarrow> rstr" where
  "escape_label value =
     replace_char 10 [92, 110] (replace_char 34 [92, 34] (replace_char 92 [92, 92] value))"

record relay_metrics =
  m_name :: rstr
  m_label :: rstr
  active_connections :: u64
  connections_accepted :: u64
  connections_rejected :: u64
  connections_closed :: u64
  upstream_connect_failures :: u64
  upstream_connect_timeouts :: u64
  idle_timeouts :: u64
  bytes_client_to_upstream :: u64
  bytes_upstream_to_client :: u64
  connection_duration :: histogram
  upstream_connect_duration :: histogram

definition metrics_new :: "rstr \<Rightarrow> relay_metrics" where
  "metrics_new name =
     \<lparr>m_name = name, m_label = escape_label name, active_connections = 0,
      connections_accepted = 0, connections_rejected = 0, connections_closed = 0,
      upstream_connect_failures = 0, upstream_connect_timeouts = 0, idle_timeouts = 0,
      bytes_client_to_upstream = 0, bytes_upstream_to_client = 0,
      connection_duration = histogram_new, upstream_connect_duration = histogram_new\<rparr>"

definition accepted :: "relay_metrics \<Rightarrow> relay_metrics" where
  "accepted m = m\<lparr>connections_accepted := connections_accepted m + 1,
                  active_connections := active_connections m + 1\<rparr>"

definition rejected :: "relay_metrics \<Rightarrow> relay_metrics" where
  "rejected m = m\<lparr>connections_rejected := connections_rejected m + 1\<rparr>"

definition closed :: "duration \<Rightarrow> u64 \<Rightarrow> u64 \<Rightarrow> relay_metrics \<Rightarrow> relay_metrics" where
  "closed d client_to_upstream upstream_to_client m =
     m\<lparr>active_connections := active_connections m - 1,
       connections_closed := connections_closed m + 1,
       bytes_client_to_upstream := bytes_client_to_upstream m + client_to_upstream,
       bytes_upstream_to_client := bytes_upstream_to_client m + upstream_to_client,
       connection_duration := observe d (connection_duration m)\<rparr>"

definition upstream_failure :: "relay_metrics \<Rightarrow> relay_metrics" where
  "upstream_failure m = m\<lparr>upstream_connect_failures := upstream_connect_failures m + 1\<rparr>"

definition upstream_timeout :: "relay_metrics \<Rightarrow> relay_metrics" where
  "upstream_timeout m = m\<lparr>upstream_connect_timeouts := upstream_connect_timeouts m + 1\<rparr>"

definition idle_timeout :: "relay_metrics \<Rightarrow> relay_metrics" where
  "idle_timeout m = m\<lparr>idle_timeouts := idle_timeouts m + 1\<rparr>"

definition observe_upstream_connect :: "duration \<Rightarrow> relay_metrics \<Rightarrow> relay_metrics" where
  "observe_upstream_connect d m =
     m\<lparr>upstream_connect_duration := observe d (upstream_connect_duration m)\<rparr>"

lemmas metrics_defs = accepted_def rejected_def closed_def upstream_failure_def
  upstream_timeout_def idle_timeout_def observe_upstream_connect_def

section \<open>Lemmas on histograms\<close>

lemma length_bump_bucket [simp]: "length (bump_bucket x bounds bs) = length bs"
  by (induction x bounds bs rule: bump_bucket.induct) auto

text \<open>
  The bucket a value falls into: the first bound it does not exceed. The loop adds one there
  and nowhere else.
\<close>

lemma bump_bucket_nth:
  assumes "length bounds = length bs" "i < length bs"
  shows "bump_bucket x bounds bs ! i =
         (if position (\<lambda>b. x \<le> b) bounds = Some i then bs ! i + 1 else bs ! i)"
  using assms
proof (induction x bounds bs arbitrary: i rule: bump_bucket.induct)
  case (1 x b bounds c bs)
  then show ?case by (cases i) (auto split: option.splits)
qed auto

definition wf_histogram :: "histogram \<Rightarrow> bool" where
  "wf_histogram h \<longleftrightarrow> length (h_buckets h) = length DURATION_BUCKETS_MILLIS"

lemma wf_histogram_new [simp]: "wf_histogram histogram_new"
  by (simp add: wf_histogram_def histogram_new_def)

lemma wf_observe [simp]: "wf_histogram (observe d h) = wf_histogram h"
  by (simp add: wf_histogram_def observe_def)

text \<open>A run of observations, as natural numbers: what the histogram counts.\<close>

definition observe_all :: "duration list \<Rightarrow> histogram \<Rightarrow> histogram" where
  "observe_all ds h = fold observe ds h"

definition clamp_u64 :: "nat \<Rightarrow> nat" where
  "clamp_u64 n = min n 18446744073709551615"

definition bucket_of :: "duration \<Rightarrow> nat option" where
  "bucket_of d = position (\<lambda>b. saturate_u64 (as_millis d) \<le> b) DURATION_BUCKETS_MILLIS"

lemma observe_all_buckets:
  assumes "wf_histogram h" "i < length DURATION_BUCKETS_MILLIS"
  shows "h_buckets (observe_all ds h) ! i =
         h_buckets h ! i + of_nat (length (filter (\<lambda>d. bucket_of d = Some i) ds))"
  using assms
proof (induction ds arbitrary: h)
  case Nil
  then show ?case by (simp add: observe_all_def)
next
  case (Cons d ds)
  have "h_buckets (observe d h) ! i =
        h_buckets h ! i + (if bucket_of d = Some i then 1 else 0)"
    using Cons.prems by (simp add: observe_def bump_bucket_nth wf_histogram_def bucket_of_def)
  then show ?case using Cons by (simp add: observe_all_def)
qed

lemma observe_all_count:
  "h_count (observe_all ds h) = h_count h + of_nat (length ds)"
  by (induction ds arbitrary: h) (auto simp: observe_all_def observe_def)

lemma observe_all_sum:
  "h_sum_micros (observe_all ds h) =
   h_sum_micros h + of_nat (sum_list (map (\<lambda>d. clamp_u64 (micros_nat d)) ds))"
proof (induction ds arbitrary: h)
  case Nil
  then show ?case by (simp add: observe_all_def)
next
  case (Cons d ds)
  have "saturate_u64 (as_micros d) = of_nat (clamp_u64 (micros_nat d))"
    unfolding word_unat_eq_iff
    by (simp add: unat_saturate_u64 unat_as_micros clamp_u64_def unat_of_nat)
  then show ?case using Cons by (simp add: observe_all_def observe_def)
qed

end
