(* ===== verification/Connection.thy ===== *)
theory Connection
  imports Limits Metrics
begin

text \<open>
  One relayed connection (\<open>src/src/relay.rs\<close>, lines 142 to 337): the socket options, the two
  phases of \<open>handle_connection\<close> with their metrics and log events, and the order in which the
  task gives its permits back. Connecting, forwarding, timers and the shutdown token decide
  which outcome an \<open>await\<close> has; they are the events of the step function.
\<close>

section \<open>Socket options\<close>

datatype sock_opt = RecvBuffer usize | SendBuffer usize | NoDelay | Keepalive duration

text \<open>The options that are set, in order, and those among them whose failure is logged;
  \<open>fails\<close> is the operating system's answer.\<close>

definition apply_socket_options ::
  "(sock_opt \<Rightarrow> bool) \<Rightarrow> duration option \<Rightarrow> usize option \<Rightarrow> sock_opt list \<times> sock_opt list" where
  "apply_socket_options fails keepalive socket_buffer_size =
     (let calls =
        (case socket_buffer_size of None \<Rightarrow> [] | Some n \<Rightarrow> [RecvBuffer n, SendBuffer n]) @
        [NoDelay] @
        (case keepalive of None \<Rightarrow> [] | Some d \<Rightarrow> [Keepalive d])
      in (calls, filter fails calls))"

section \<open>The phases of a connection\<close>

datatype log_event =
    ConnectionOpened | UpstreamConnectFailed | UpstreamConnectTimeout
  | ConnectionIdleTimeout | ConnectionForwardError | ConnectionClosed

definition log_if :: "bool \<Rightarrow> log_event list \<Rightarrow> log_event list" where
  "log_if log_connection events = (if log_connection then events else [])"

text \<open>How the first \<open>select!\<close> ends: forced shutdown, or \<open>timeout(connect_timeout, connect())\<close>.\<close>

datatype connect_outcome =
  ConnectForced | ConnectOk | ConnectFailed io_error | ConnectElapsed

text \<open>The result says whether the connection goes on; \<open>d\<close> is \<open>connection_started.elapsed()\<close>.\<close>

definition connect_phase ::
  "bool \<Rightarrow> connect_outcome \<Rightarrow> duration \<Rightarrow> relay_metrics \<Rightarrow> bool \<times> relay_metrics \<times> log_event list" where
  "connect_phase log_connection outcome d m =
     (case outcome of
        ConnectForced \<Rightarrow> (False, closed d 0 0 m, [])
      | ConnectOk \<Rightarrow> (True, m, [])
      | ConnectFailed e \<Rightarrow>
          (False, closed d 0 0 (upstream_failure m), log_if log_connection [UpstreamConnectFailed])
      | ConnectElapsed \<Rightarrow>
          (False, closed d 0 0 (upstream_timeout m), log_if log_connection [UpstreamConnectTimeout]))"

text \<open>How the second \<open>select!\<close> ends: forced shutdown, or the result of \<open>forward_with_mode\<close>.\<close>

datatype transfer_outcome = TransferForced | TransferDone "io_error + u64 \<times> u64"

definition transfer_phase ::
  "bool \<Rightarrow> transfer_outcome \<Rightarrow> duration \<Rightarrow> relay_metrics \<Rightarrow> relay_metrics \<times> log_event list" where
  "transfer_phase log_connection outcome d m =
     (case outcome of
        TransferForced \<Rightarrow> (closed d 0 0 m, [])
      | TransferDone transfer \<Rightarrow>
          (let (m', (client_to_upstream, upstream_to_client), events) =
             (case transfer of
                Inr bytes \<Rightarrow> (m, bytes, [])
              | Inl e \<Rightarrow>
                  if error_kind e = TimedOut then (idle_timeout m, (0, 0), [ConnectionIdleTimeout])
                  else (m, (0, 0), [ConnectionForwardError]))
           in (closed d client_to_upstream upstream_to_client m',
               log_if log_connection (events @ [ConnectionClosed]))))"

text \<open>
  Where a connection task is, with the permits it still owns, in the order they are dropped:
  the connecting permits explicitly after the upstream is connected, or first of all on an
  early return (locals drop in reverse order of declaration); the relay's and then the
  global connection permit when the task's block ends.
\<close>

datatype task_phase =
    Connecting permit permit permit permit \<comment> \<open>relay and global connecting, relay and global\<close>
  | Relaying "permit list" permit permit \<comment> \<open>connecting permits still to drop, relay and global\<close>
  | Returning "permit list"

datatype task_event =
    ConnectEnds connect_outcome duration
  | TransferEnds transfer_outcome duration
  | DropNext

fun handle_connection ::
  "'s semaphore_ops \<Rightarrow> bool \<Rightarrow> bool \<Rightarrow> task_event \<Rightarrow> task_phase \<Rightarrow> relay_metrics \<Rightarrow> 's store \<Rightarrow>
   (task_phase \<times> relay_metrics \<times> 's store \<times> log_event list) option" where
  "handle_connection ops force log_connection (ConnectEnds outcome d) (Connecting rc gc r g) m st =
     (if outcome = ConnectForced \<and> \<not> force then None
      else case connect_phase log_connection outcome d m of
        (True, m', events) \<Rightarrow> Some (Relaying [gc, rc] r g, m', st, events)
      | (False, m', events) \<Rightarrow> Some (Returning [rc, gc, r, g], m', st, events))"
| "handle_connection ops force log_connection DropNext (Relaying (p # ps) r g) m st =
     Some (Relaying ps r g, m, drop_permit ops p st, [])"
| "handle_connection ops force log_connection (TransferEnds outcome d) (Relaying [] r g) m st =
     (if outcome = TransferForced \<and> \<not> force then None
      else case transfer_phase log_connection outcome d m of
        (m', events) \<Rightarrow> Some (Returning [r, g], m', st, events))"
| "handle_connection ops force log_connection DropNext (Returning (p # ps)) m st =
     Some (Returning ps, m, drop_permit ops p st, [])"
| "handle_connection ops force log_connection _ _ m st = None"

fun task_held :: "task_phase \<Rightarrow> permit list" where
  "task_held (Connecting rc gc r g) = [rc, gc, r, g]"
| "task_held (Relaying ps r g) = ps @ [r, g]"
| "task_held (Returning ps) = ps"

text \<open>A task is live until it has recorded its \<open>closed\<close>, and finished when nothing is left to
  drop.\<close>

fun live :: "task_phase \<Rightarrow> bool" where
  "live (Returning ps) = False"
| "live _ = True"

definition finished :: "task_phase \<Rightarrow> bool" where
  "finished ph \<longleftrightarrow> ph = Returning []"

fun connecting :: "task_phase \<Rightarrow> bool" where
  "connecting (Connecting rc gc r g) = True"
| "connecting _ = False"

section \<open>Lemmas\<close>

text \<open>One recorded end of a connection, possibly after a failure counter.\<close>

definition closes :: "relay_metrics \<Rightarrow> relay_metrics \<Rightarrow> bool" where
  "closes m m' \<longleftrightarrow>
     (\<exists>d a b. m' \<in> closed d a b ` {m, upstream_failure m, upstream_timeout m, idle_timeout m})"

lemma closes_simps [simp]:
  "closes m (closed d a b m)" "closes m (closed d a b (upstream_failure m))"
  "closes m (closed d a b (upstream_timeout m))" "closes m (closed d a b (idle_timeout m))"
  by (auto simp: closes_def)

text \<open>What one step does to the permits, the metrics and the phase.\<close>

lemma handle_connection_cases [consumes 1, case_names stay goes drops]:
  assumes "handle_connection ops force lc ev ph m st = Some (ph', m', st', events)"
  obtains (stay) rc gc r g where "ph = Connecting rc gc r g" "ph' = Relaying [gc, rc] r g" "m' = m"
      "st' = st" "events = []"
    | (goes) "live ph" "\<not> live ph'" "task_held ph' = task_held ph" "st' = st"
      "closes m m'" "\<not> lc \<longrightarrow> events = []"
    | (drops) p ps where "live ph' = live ph" "task_held ph = p # ps" "task_held ph' = ps"
      "st' = drop_permit ops p st" "m' = m" "events = []" "connecting ph' = connecting ph"
proof (cases "(ops, force, lc, ev, ph, m, st)" rule: handle_connection.cases)
  case (1 _ _ _ outcome d rc gc r g)
  then show ?thesis using assms that(1,2)
    by (cases outcome) (auto simp: connect_phase_def log_if_def split: if_splits)
next
  case (2 _ _ _ p ps r g)
  then show ?thesis using assms that(3) by auto
next
  case (3 _ _ _ outcome d r g)
  then show ?thesis using assms that(2)
    by (cases outcome) (auto simp: transfer_phase_def log_if_def Let_def split: if_splits sum.splits)
next
  case (4 _ _ _ p ps)
  then show ?thesis using assms that(3) by auto
qed (use assms in auto)

text \<open>A forced shutdown ends every task in a bounded number of its own steps.\<close>

fun forced_event :: "task_phase \<Rightarrow> duration \<Rightarrow> task_event" where
  "forced_event (Connecting rc gc r g) d = ConnectEnds ConnectForced d"
| "forced_event (Relaying [] r g) d = TransferEnds TransferForced d"
| "forced_event _ d = DropNext"

text \<open>How many steps a task needs once shutdown is forced.\<close>

fun remaining_steps :: "task_phase \<Rightarrow> nat" where
  "remaining_steps (Connecting rc gc r g) = 5"
| "remaining_steps (Relaying ps r g) = length ps + 3"
| "remaining_steps (Returning ps) = length ps"

lemma forced_step:
  assumes "\<not> finished ph"
  shows "\<exists>ph' m' st' events.
           handle_connection ops True lc (forced_event ph d) ph m st = Some (ph', m', st', events) \<and>
           remaining_steps ph = Suc (remaining_steps ph')"
proof (cases ph)
  case (Connecting rc gc r g)
  then show ?thesis by (simp add: connect_phase_def)
next
  case (Relaying ps r g)
  then show ?thesis by (cases ps) (simp_all add: transfer_phase_def)
next
  case (Returning ps)
  then show ?thesis using assms by (cases ps) (simp_all add: finished_def)
qed

text \<open>Running a task on its own.\<close>

fun run_connection ::
  "'s semaphore_ops \<Rightarrow> bool \<Rightarrow> bool \<Rightarrow> task_event list \<Rightarrow> task_phase \<Rightarrow> relay_metrics \<Rightarrow> 's store \<Rightarrow>
   (task_phase \<times> relay_metrics \<times> 's store \<times> log_event list) option" where
  "run_connection ops force lc [] ph m st = Some (ph, m, st, [])"
| "run_connection ops force lc (ev # evs) ph m st =
     (case handle_connection ops force lc ev ph m st of
        None \<Rightarrow> None
      | Some (ph', m', st', events) \<Rightarrow>
          map_option (\<lambda>(ph'', m'', st'', events'). (ph'', m'', st'', events @ events'))
            (run_connection ops force lc evs ph' m' st'))"

lemma forced_run:
  "\<exists>evs m' st' events. length evs = remaining_steps ph \<and>
     run_connection ops True lc evs ph m st = Some (Returning [], m', st', events)"
proof (induction "remaining_steps ph" arbitrary: ph m st)
  case 0
  then have "ph = Returning []" by (cases ph) auto
  then show ?case by auto
next
  case (Suc n)
  then have "\<not> finished ph" by (auto simp: finished_def)
  from forced_step [OF this] obtain ph' m' st' events where
    s: "handle_connection ops True lc (forced_event ph undefined) ph m st
        = Some (ph', m', st', events)" "remaining_steps ph = Suc (remaining_steps ph')" by blast
  with Suc obtain evs m'' st'' events' where
    "length evs = remaining_steps ph'"
    "run_connection ops True lc evs ph' m' st' = Some (Returning [], m'', st'', events')"
    by (metis Suc_inject)
  then show ?case using s
    by (intro exI [of _ "forced_event ph undefined # evs"]) auto
qed

text \<open>Counters: what \<open>closed\<close> and the failure counters leave alone.\<close>

lemma metrics_fields [field_updates]:
  "active_connections (accepted m) = active_connections m + 1"
  "connections_accepted (accepted m) = connections_accepted m + 1"
  "connections_closed (accepted m) = connections_closed m"
  "connections_rejected (accepted m) = connections_rejected m"
  "upstream_connect_duration (accepted m) = upstream_connect_duration m"
  "connection_duration (accepted m) = connection_duration m"
  "active_connections (rejected m) = active_connections m"
  "connections_accepted (rejected m) = connections_accepted m"
  "connections_closed (rejected m) = connections_closed m"
  "connections_rejected (rejected m) = connections_rejected m + 1"
  "upstream_connect_duration (rejected m) = upstream_connect_duration m"
  "connection_duration (rejected m) = connection_duration m"
  "active_connections (closed d a b m) = active_connections m - 1"
  "connections_accepted (closed d a b m) = connections_accepted m"
  "connections_closed (closed d a b m) = connections_closed m + 1"
  "connections_rejected (closed d a b m) = connections_rejected m"
  "upstream_connect_duration (closed d a b m) = upstream_connect_duration m"
  "connection_duration (closed d a b m) = observe d (connection_duration m)"
  by (simp_all add: metrics_defs)

text \<open>The gauges a failure counter does not touch.\<close>

definition gauges :: "relay_metrics \<Rightarrow> u64 \<times> u64 \<times> u64 \<times> u64 \<times> histogram \<times> histogram \<times> rstr \<times> rstr" where
  "gauges m = (active_connections m, connections_accepted m, connections_closed m,
     connections_rejected m, connection_duration m, upstream_connect_duration m, m_name m, m_label m)"

lemma gauges_failures [field_updates]:
  "gauges (upstream_failure m) = gauges m" "gauges (upstream_timeout m) = gauges m"
  "gauges (idle_timeout m) = gauges m"
  by (simp_all add: gauges_def metrics_defs)

end
