(* ===== verification/Relay_System.thy ===== *)
theory Relay_System
  imports Connection
begin

text \<open>
  The running server (\<open>src/src/server.rs\<close>, lines 225 to 307 and 405 to 517) as a state machine:
  the listener tasks with their admission code, the connection tasks they spawn, the metrics
  connections, and \<open>Server::run\<close> with its graceful and forced shutdown. A step is one atomic
  action of one task (a semaphore operation, a counter, a flag), so every interleaving of the
  multi-threaded runtime is a run of the machine.
\<close>

section \<open>State\<close>

datatype listener_pc =
    Accepting
  | BackingOff                          \<comment> \<open>the sleep after an accept error\<close>
  | Accepted                            \<comment> \<open>a client, before the shutdown check\<close>
  | Admitting "permit list"             \<comment> \<open>the permits acquired so far\<close>
  | Rejecting "permit list"             \<comment> \<open>the permits still to give back\<close>
  | Numbered u64 "permit list"          \<comment> \<open>all limits passed, connection id taken\<close>
  | Stopped

record task =
  tk_relay :: nat
  tk_id :: u64
  tk_log :: bool
  tk_phase :: task_phase

datatype run_phase = Serving | Draining | Forcing | Complete bool

record 's server_state =
  sv_store :: "'s store"
  sv_listeners :: "listener_pc list"
  sv_tasks :: "task list"
  sv_metrics :: "relay_metrics list"
  sv_next_id :: u64
  sv_shutdown :: bool
  sv_force :: bool
  sv_helpers :: nat      \<comment> \<open>running metrics listener and refresh tasks\<close>
  sv_pages :: nat        \<comment> \<open>metrics connections being served\<close>
  sv_run :: run_phase
  sv_log :: "(u64 \<times> log_event) list"

section \<open>The listener task\<close>

definition limits_of :: "nat \<Rightarrow> sem_id list" where
  "limits_of i = [GlobalLimit, RelayLimit i, GlobalConnecting, RelayConnecting i]"

datatype listener_event = AcceptOk | AcceptError | BackoffElapsed | SeeShutdown | Proceed

definition set_listener :: "nat \<Rightarrow> listener_pc \<Rightarrow> 's server_state \<Rightarrow> 's server_state" where
  "set_listener i pc s = s\<lparr>sv_listeners := (sv_listeners s)[i := pc]\<rparr>"

definition count_metric ::
  "nat \<Rightarrow> (relay_metrics \<Rightarrow> relay_metrics) \<Rightarrow> 's server_state \<Rightarrow> 's server_state" where
  "count_metric i f s = s\<lparr>sv_metrics := (sv_metrics s)[i := f (sv_metrics s ! i)]\<rparr>"

text \<open>\<open>log_connection\<close>; a rate of 0 would panic here and is refused by the validation.\<close>

definition sampled :: "usize \<Rightarrow> u64 \<Rightarrow> bool" where
  "sampled rate connection_id \<longleftrightarrow> rate = 1 \<or> connection_id mod rate = 0"

definition spawn_connection :: "usize \<Rightarrow> nat \<Rightarrow> u64 \<Rightarrow> permit list \<Rightarrow> 's server_state \<Rightarrow> 's server_state" where
  "spawn_connection rate i connection_id permits s =
     (let lc = sampled rate connection_id;
          t = \<lparr>tk_relay = i, tk_id = connection_id, tk_log = lc,
               tk_phase = Connecting (permits ! 3) (permits ! 2) (permits ! 1) (permits ! 0)\<rparr>
      in s\<lparr>sv_metrics := (sv_metrics s)[i := accepted (sv_metrics s ! i)],
           sv_log := sv_log s @ map (Pair connection_id) (log_if lc [ConnectionOpened]),
           sv_tasks := sv_tasks s @ [t]\<rparr>)"

definition run_relay_listener ::
  "'s semaphore_ops \<Rightarrow> usize \<Rightarrow> nat \<Rightarrow> listener_event \<Rightarrow> 's server_state \<Rightarrow> 's server_state option" where
  "run_relay_listener ops rate i event s =
     (case sv_listeners s ! i of
        Accepting \<Rightarrow>
          if sv_shutdown s then Some (set_listener i Stopped s)
          else if event = AcceptOk then Some (set_listener i Accepted s)
          else if event = AcceptError then Some (set_listener i BackingOff s)
          else None
      | BackingOff \<Rightarrow>
          if event = SeeShutdown \<and> sv_shutdown s then Some (set_listener i Stopped s)
          else if event = BackoffElapsed then Some (set_listener i Accepting s)
          else None
      | Accepted \<Rightarrow>
          if sv_shutdown s then Some (set_listener i Stopped s)
          else Some (set_listener i (Admitting []) s)
      | Admitting permits \<Rightarrow>
          if length permits < length (limits_of i) then
            (case acquire_permit ops (limits_of i ! length permits) (sv_store s) of
               Inl _ \<Rightarrow> Some (set_listener i (Rejecting (rev permits)) (count_metric i rejected s))
             | Inr (p, store) \<Rightarrow>
                 Some (set_listener i (Admitting (permits @ [p])) (s\<lparr>sv_store := store\<rparr>)))
          else
            Some (set_listener i (Numbered (sv_next_id s) permits)
                    (s\<lparr>sv_next_id := sv_next_id s + 1\<rparr>))
      | Rejecting [] \<Rightarrow> Some (set_listener i Accepting s)
      | Rejecting (p # ps) \<Rightarrow>
          Some (set_listener i (Rejecting ps) (s\<lparr>sv_store := drop_permit ops p (sv_store s)\<rparr>))
      | Numbered connection_id permits \<Rightarrow>
          Some (set_listener i Accepting (spawn_connection rate i connection_id permits s))
      | Stopped \<Rightarrow> None)"

section \<open>The connection tasks\<close>

definition run_task ::
  "'s semaphore_ops \<Rightarrow> nat \<Rightarrow> task_event \<Rightarrow> 's server_state \<Rightarrow> 's server_state option" where
  "run_task ops k event s =
     (let t = sv_tasks s ! k in
      map_option
        (\<lambda>(phase, m, store, events).
           s\<lparr>sv_tasks := (sv_tasks s)[k := t\<lparr>tk_phase := phase\<rparr>],
             sv_metrics := (sv_metrics s)[tk_relay t := m], sv_store := store,
             sv_log := sv_log s @ map (Pair (tk_id t)) events\<rparr>)
        (handle_connection ops (sv_force s) (tk_log t) event (tk_phase t)
           (sv_metrics s ! tk_relay t) (sv_store s)))"

section \<open>Server::run\<close>

definition listeners_joined :: "'s server_state \<Rightarrow> bool" where
  "listeners_joined s \<longleftrightarrow> list_all (\<lambda>pc. pc = Stopped) (sv_listeners s) \<and> sv_helpers s = 0"

definition tasks_drained :: "'s server_state \<Rightarrow> bool" where
  "tasks_drained s \<longleftrightarrow> list_all (\<lambda>t. finished (tk_phase t)) (sv_tasks s) \<and> sv_pages s = 0"

datatype run_event = JoinAll | DeadlineElapsed

definition run_server :: "run_event \<Rightarrow> 's server_state \<Rightarrow> 's server_state option" where
  "run_server event s =
     (case sv_run s of
        Serving \<Rightarrow> if sv_shutdown s then Some (s\<lparr>sv_run := Draining\<rparr>) else None
      | Draining \<Rightarrow>
          (case event of
             JoinAll \<Rightarrow>
               if listeners_joined s \<and> tasks_drained s then Some (s\<lparr>sv_run := Complete True\<rparr>)
               else None
           | DeadlineElapsed \<Rightarrow> Some (s\<lparr>sv_force := True, sv_run := Forcing\<rparr>))
      | Forcing \<Rightarrow> if listeners_joined s then Some (s\<lparr>sv_run := Complete False\<rparr>) else None
      | Complete graceful \<Rightarrow> None)"

section \<open>The machine\<close>

text \<open>
  \<open>shutdown\<close> is the signal; a helper stops once it sees the signal (or is aborted); a metrics
  connection is opened by a helper and closed at any time (it ends by itself, by its timeout
  or by the forced shutdown).
\<close>

inductive server_step ::
  "'s semaphore_ops \<Rightarrow> usize \<Rightarrow> 's server_state \<Rightarrow> 's server_state \<Rightarrow> bool"
  for ops :: "'s semaphore_ops" and rate :: usize where
  listener: "i < length (sv_listeners s) \<Longrightarrow> run_relay_listener ops rate i event s = Some s' \<Longrightarrow>
             server_step ops rate s s'"
| connection: "k < length (sv_tasks s) \<Longrightarrow> run_task ops k event s = Some s' \<Longrightarrow>
               server_step ops rate s s'"
| run: "run_server event s = Some s' \<Longrightarrow> server_step ops rate s s'"
| shutdown: "server_step ops rate s (s\<lparr>sv_shutdown := True\<rparr>)"
| helper: "sv_shutdown s \<Longrightarrow> 0 < sv_helpers s \<Longrightarrow>
           server_step ops rate s (s\<lparr>sv_helpers := sv_helpers s - 1\<rparr>)"
| page_open: "0 < sv_helpers s \<Longrightarrow> server_step ops rate s (s\<lparr>sv_pages := sv_pages s + 1\<rparr>)"
| page_close: "0 < sv_pages s \<Longrightarrow> server_step ops rate s (s\<lparr>sv_pages := sv_pages s - 1\<rparr>)"

inductive_cases server_stepE: "server_step ops rate s s'"

text \<open>The state \<open>run\<close> starts from: the semaphores of the configured limits, no connection.\<close>

definition initial_store :: "'s semaphore_ops \<Rightarrow> (sem_id \<Rightarrow> nat option) \<Rightarrow> 's store" where
  "initial_store ops limits = (\<lambda>i. Option.bind (limits i) (sem_new ops))"

definition initial_state ::
  "'s semaphore_ops \<Rightarrow> (sem_id \<Rightarrow> nat option) \<Rightarrow> rstr list \<Rightarrow> nat \<Rightarrow> 's server_state" where
  "initial_state ops limits names helpers =
     \<lparr>sv_store = initial_store ops limits, sv_listeners = map (\<lambda>_. Accepting) names, sv_tasks = [],
      sv_metrics = map metrics_new names, sv_next_id = 1, sv_shutdown = False, sv_force = False,
      sv_helpers = helpers, sv_pages = 0, sv_run = Serving, sv_log = []\<rparr>"

definition reachable ::
  "'s semaphore_ops \<Rightarrow> usize \<Rightarrow> (sem_id \<Rightarrow> nat option) \<Rightarrow> rstr list \<Rightarrow> nat \<Rightarrow>
   's server_state \<Rightarrow> bool" where
  "reachable ops rate limits names helpers s \<longleftrightarrow>
     (server_step ops rate)\<^sup>*\<^sup>* (initial_state ops limits names helpers) s"

text \<open>Runs as lists of actions: the executable side of the relation.\<close>

datatype action =
    Listener nat listener_event | Task nat task_event | Run run_event | Signal | StopHelper

fun perform ::
  "'s semaphore_ops \<Rightarrow> usize \<Rightarrow> action \<Rightarrow> 's server_state \<Rightarrow> 's server_state option" where
  "perform ops rate (Listener i ev) s =
     (if i < length (sv_listeners s) then run_relay_listener ops rate i ev s else None)"
| "perform ops rate (Task k ev) s =
     (if k < length (sv_tasks s) then run_task ops k ev s else None)"
| "perform ops rate (Run ev) s = run_server ev s"
| "perform ops rate Signal s = Some (s\<lparr>sv_shutdown := True\<rparr>)"
| "perform ops rate StopHelper s =
     (if sv_shutdown s \<and> 0 < sv_helpers s then Some (s\<lparr>sv_helpers := sv_helpers s - 1\<rparr>) else None)"

fun perform_all ::
  "'s semaphore_ops \<Rightarrow> usize \<Rightarrow> action list \<Rightarrow> 's server_state \<Rightarrow> 's server_state option" where
  "perform_all ops rate [] s = Some s"
| "perform_all ops rate (a # as) s = Option.bind (perform ops rate a s) (perform_all ops rate as)"

lemma perform_step: "perform ops rate a s = Some s' \<Longrightarrow> server_step ops rate s s'"
  by (cases a) (auto intro: server_step.intros server_step.helper [simplified] split: if_splits)

lemma perform_all_steps: "perform_all ops rate as s = Some s' \<Longrightarrow> (server_step ops rate)\<^sup>*\<^sup>* s s'"
proof (induction "as" arbitrary: s)
  case Nil
  then show ?case by simp
next
  case (Cons a "as")
  then obtain s1 where "perform ops rate a s = Some s1" "perform_all ops rate as s1 = Some s'"
    by (auto split: bind_splits)
  then show ?case using Cons.IH perform_step converse_rtranclp_into_rtranclp by metis
qed

lemma perform_all_append:
  "perform_all ops rate (as @ bs) s = Option.bind (perform_all ops rate as s) (perform_all ops rate bs)"
  by (induction "as" arbitrary: s) (auto split: bind_splits)

end
