(* ===== verification/Relay_Invariants.thy ===== *)
theory Relay_Invariants
  imports Relay_System
begin

text \<open>
  Invariants of the server machine: where every permit is, what the counters of a relay mean,
  which connection ids are in use, and what shutdown has reached. The locale
  \<open>running_server\<close> extends the semaphore laws by a configuration tokio can represent; its
  sublocales give each invariant for every reachable state.
\<close>

section \<open>Where the permits are\<close>

fun listener_held :: "listener_pc \<Rightarrow> permit list" where
  "listener_held (Admitting ps) = ps"
| "listener_held (Rejecting ps) = ps"
| "listener_held (Numbered n ps) = ps"
| "listener_held _ = []"

definition held_by_listeners :: "sem_id \<Rightarrow> 's server_state \<Rightarrow> nat" where
  "held_by_listeners i s = sum_list (map (\<lambda>pc. count_list (listener_held pc) (Some i)) (sv_listeners s))"

definition held_by_tasks :: "sem_id \<Rightarrow> 's server_state \<Rightarrow> nat" where
  "held_by_tasks i s =
     sum_list (map (\<lambda>t. count_list (task_held (tk_phase t)) (Some i)) (sv_tasks s))"

definition held :: "sem_id \<Rightarrow> 's server_state \<Rightarrow> nat" where
  "held i s = held_by_listeners i s + held_by_tasks i s"

text \<open>Every permit of a configured limit is either free or held, exactly once.\<close>

definition conserved ::
  "'s semaphore_ops \<Rightarrow> (sem_id \<Rightarrow> nat option) \<Rightarrow> 's server_state \<Rightarrow> bool" where
  "conserved ops limits s \<longleftrightarrow>
     (\<forall>i. map_option (\<lambda>n. n + held i s) (free_permits ops (sv_store s) i) = limits i)"

text \<open>What a listener and a task hold at each point.\<close>

definition listener_ok :: "(sem_id \<Rightarrow> nat option) \<Rightarrow> nat \<Rightarrow> listener_pc \<Rightarrow> bool" where
  "listener_ok limits i pc =
     (case pc of
        Admitting ps \<Rightarrow>
          length ps \<le> 4 \<and> ps = map (permit_for limits) (take (length ps) (limits_of i))
      | Numbered n ps \<Rightarrow> ps = map (permit_for limits) (limits_of i)
      | _ \<Rightarrow> True)"

definition task_ok :: "(sem_id \<Rightarrow> nat option) \<Rightarrow> task \<Rightarrow> bool" where
  "task_ok limits t =
     (case tk_phase t of
        Connecting rc gc r g \<Rightarrow> [g, r, gc, rc] = map (permit_for limits) (limits_of (tk_relay t))
      | Relaying ps r g \<Rightarrow>
          [g, r] = map (permit_for limits) [GlobalLimit, RelayLimit (tk_relay t)]
      | Returning ps \<Rightarrow> True)"

definition well_shaped :: "(sem_id \<Rightarrow> nat option) \<Rightarrow> nat \<Rightarrow> 's server_state \<Rightarrow> bool" where
  "well_shaped limits n s \<longleftrightarrow>
     length (sv_listeners s) = n \<and> length (sv_metrics s) = n \<and>
     (\<forall>i<n. listener_ok limits i (sv_listeners s ! i)) \<and>
     (\<forall>t\<in>set (sv_tasks s). tk_relay t < n \<and> task_ok limits t)"

definition permits_inv ::
  "'s semaphore_ops \<Rightarrow> (sem_id \<Rightarrow> nat option) \<Rightarrow> nat \<Rightarrow> 's server_state \<Rightarrow> bool" where
  "permits_inv ops limits n s \<longleftrightarrow> conserved ops limits s \<and> well_shaped limits n s"

section \<open>The shapes of a step\<close>

lemma listener_step_cases [consumes 1, case_names idle refuse take_permit number give spawn]:
  assumes "run_relay_listener ops rate i ev s = Some s'"
  obtains (idle) pc where "s' = set_listener i pc s" "listener_held pc = []" "\<nexists>n ps. pc = Numbered n ps"
      "listener_held (sv_listeners s ! i) = []" "\<nexists>n ps. sv_listeners s ! i = Numbered n ps"
      "pc = Stopped \<longrightarrow> sv_shutdown s" "sv_listeners s ! i \<noteq> Stopped"
    | (refuse) ps where "sv_listeners s ! i = Admitting ps" "length ps < 4"
      "acquire_permit ops (limits_of i ! length ps) (sv_store s) = Inl ()"
      "s' = set_listener i (Rejecting (rev ps)) (count_metric i rejected s)"
    | (take_permit) ps p store where "sv_listeners s ! i = Admitting ps" "length ps < 4"
      "acquire_permit ops (limits_of i ! length ps) (sv_store s) = Inr (p, store)"
      "s' = set_listener i (Admitting (ps @ [p])) (s\<lparr>sv_store := store\<rparr>)"
    | (number) ps where "sv_listeners s ! i = Admitting ps" "4 \<le> length ps"
      "s' = set_listener i (Numbered (sv_next_id s) ps) (s\<lparr>sv_next_id := sv_next_id s + 1\<rparr>)"
    | (give) p ps where "sv_listeners s ! i = Rejecting (p # ps)"
      "s' = set_listener i (Rejecting ps) (s\<lparr>sv_store := drop_permit ops p (sv_store s)\<rparr>)"
    | (spawn) n ps where "sv_listeners s ! i = Numbered n ps"
      "s' = set_listener i Accepting (spawn_connection rate i n ps s)"
proof (cases "sv_listeners s ! i")
  case (Admitting ps)
  then show ?thesis using assms that(2,3,4)
    by (cases "acquire_permit ops (limits_of i ! length ps) (sv_store s)")
      (auto simp: run_relay_listener_def limits_of_def split: if_splits)
next
  case (Rejecting ps)
  then show ?thesis using assms that(1,5)
    by (cases ps) (auto simp: run_relay_listener_def)
next
  case (Numbered n ps)
  then show ?thesis using assms that(6) by (auto simp: run_relay_listener_def)
qed (use assms that(1) in \<open>auto simp: run_relay_listener_def split: if_splits\<close>)

lemma task_step_cases [consumes 1, case_names stay goes drops]:
  assumes "run_task ops k ev s = Some s'"
  obtains (stay) rc gc r g where "tk_phase (sv_tasks s ! k) = Connecting rc gc r g"
      "s' = s\<lparr>sv_tasks := (sv_tasks s)[k := (sv_tasks s ! k)\<lparr>tk_phase := Relaying [gc, rc] r g\<rparr>]\<rparr>"
    | (goes) ph m events where "live (tk_phase (sv_tasks s ! k))" "\<not> live ph"
      "task_held ph = task_held (tk_phase (sv_tasks s ! k))"
      "closes (sv_metrics s ! tk_relay (sv_tasks s ! k)) m"
      "\<not> tk_log (sv_tasks s ! k) \<longrightarrow> events = []"
      "s' = s\<lparr>sv_tasks := (sv_tasks s)[k := (sv_tasks s ! k)\<lparr>tk_phase := ph\<rparr>],
              sv_metrics := (sv_metrics s)[tk_relay (sv_tasks s ! k) := m],
              sv_log := sv_log s @ map (Pair (tk_id (sv_tasks s ! k))) events\<rparr>"
    | (drops) ph p ps where "live ph = live (tk_phase (sv_tasks s ! k))"
      "task_held (tk_phase (sv_tasks s ! k)) = p # ps" "task_held ph = ps"
      "connecting ph = connecting (tk_phase (sv_tasks s ! k))"
      "s' = s\<lparr>sv_tasks := (sv_tasks s)[k := (sv_tasks s ! k)\<lparr>tk_phase := ph\<rparr>],
              sv_store := drop_permit ops p (sv_store s)\<rparr>"
proof -
  let ?t = "sv_tasks s ! k"
  from assms obtain ph m store events where
    h: "handle_connection ops (sv_force s) (tk_log ?t) ev (tk_phase ?t) (sv_metrics s ! tk_relay ?t)
          (sv_store s) = Some (ph, m, store, events)" and
    s': "s' = s\<lparr>sv_tasks := (sv_tasks s)[k := ?t\<lparr>tk_phase := ph\<rparr>],
             sv_metrics := (sv_metrics s)[tk_relay ?t := m], sv_store := store,
             sv_log := sv_log s @ map (Pair (tk_id ?t)) events\<rparr>"
    by (auto simp: run_task_def Let_def)
  from h show ?thesis
  proof (cases rule: handle_connection_cases)
    case (stay rc gc r g)
    then show ?thesis using s' that(1) by simp
  next
    case goes
    then show ?thesis using s' that(2) [of ph m events] by simp
  next
    case (drops p ps)
    then show ?thesis using s' that(3) [of ph p ps] by simp
  qed
qed

section \<open>Counting held permits\<close>

lemma count_list_sum [simp]: "count_list (p # ps) q = (if p = q then 1 else 0) + count_list ps q"
  by simp

declare count_list.simps(2) [simp del]

lemma count_list_rev [simp]: "count_list (rev xs) x = count_list xs x"
  by (induction xs) auto

lemma held_set_listener:
  assumes "i < length (sv_listeners s)"
  shows "held_by_listeners j (set_listener i pc s) + count_list (listener_held (sv_listeners s ! i)) (Some j)
         = held_by_listeners j s + count_list (listener_held pc) (Some j)"
  using sum_list_map_update [OF assms, of "\<lambda>pc. count_list (listener_held pc) (Some j)" pc]
  by (simp add: held_by_listeners_def set_listener_def)

lemma held_update_task:
  assumes "k < length (sv_tasks s)"
  shows "held_by_tasks j (s\<lparr>sv_tasks := (sv_tasks s)[k := (sv_tasks s ! k)\<lparr>tk_phase := ph\<rparr>]\<rparr>) +
           count_list (task_held (tk_phase (sv_tasks s ! k))) (Some j)
         = held_by_tasks j s + count_list (task_held ph) (Some j)"
  using sum_list_map_update [OF assms, of "\<lambda>t. count_list (task_held (tk_phase t)) (Some j)"
      "(sv_tasks s ! k)\<lparr>tk_phase := ph\<rparr>"]
  by (simp add: held_by_tasks_def)

lemma held_only_listeners:
  "held_by_listeners j (s\<lparr>sv_store := a\<rparr>) = held_by_listeners j s"
  "held_by_listeners j (s\<lparr>sv_tasks := b\<rparr>) = held_by_listeners j s"
  "held_by_listeners j (s\<lparr>sv_metrics := c\<rparr>) = held_by_listeners j s"
  "held_by_listeners j (s\<lparr>sv_log := d\<rparr>) = held_by_listeners j s"
  "held_by_listeners j (s\<lparr>sv_next_id := e\<rparr>) = held_by_listeners j s"
  by (simp_all add: held_by_listeners_def)

lemma held_only_tasks:
  "held_by_tasks j (s\<lparr>sv_store := a\<rparr>) = held_by_tasks j s"
  "held_by_tasks j (s\<lparr>sv_listeners := b\<rparr>) = held_by_tasks j s"
  "held_by_tasks j (s\<lparr>sv_metrics := c\<rparr>) = held_by_tasks j s"
  "held_by_tasks j (s\<lparr>sv_log := d\<rparr>) = held_by_tasks j s"
  "held_by_tasks j (s\<lparr>sv_next_id := e\<rparr>) = held_by_tasks j s"
  by (simp_all add: held_by_tasks_def)

lemma held_by_tasks_set_listener [simp]: "held_by_tasks j (set_listener i pc s) = held_by_tasks j s"
  by (simp add: set_listener_def held_only_tasks)

lemmas held_frame = held_only_listeners held_only_tasks

lemma sv_store_set_listener [simp]:
  "sv_store (set_listener i pc s) = sv_store s"
  "sv_tasks (set_listener i pc s) = sv_tasks s"
  "sv_metrics (set_listener i pc s) = sv_metrics s"
  "sv_next_id (set_listener i pc s) = sv_next_id s"
  "sv_shutdown (set_listener i pc s) = sv_shutdown s"
  "sv_force (set_listener i pc s) = sv_force s"
  "sv_run (set_listener i pc s) = sv_run s"
  "sv_pages (set_listener i pc s) = sv_pages s"
  "sv_helpers (set_listener i pc s) = sv_helpers s"
  "sv_log (set_listener i pc s) = sv_log s"
  "sv_listeners (set_listener i pc s) = (sv_listeners s)[i := pc]"
  by (simp_all add: set_listener_def)

lemma count_metric_frame [simp]:
  "sv_store (count_metric i f s) = sv_store s" "sv_tasks (count_metric i f s) = sv_tasks s"
  "sv_listeners (count_metric i f s) = sv_listeners s"
  "sv_next_id (count_metric i f s) = sv_next_id s"
  "sv_metrics (count_metric i f s) = (sv_metrics s)[i := f (sv_metrics s ! i)]"
  by (simp_all add: count_metric_def)

lemma held_count_metric [simp]: "held_by_listeners j (count_metric i f s) = held_by_listeners j s"
  "held_by_tasks j (count_metric i f s) = held_by_tasks j s"
  by (simp_all add: count_metric_def held_frame)

section \<open>Conservation\<close>

context semaphore
begin

lemma conserved_same:
  assumes "conserved ops limits s" "sv_store s' = sv_store s" "\<And>j. held j s' = held j s"
  shows "conserved ops limits s'"
  using assms by (simp add: conserved_def)

lemma conserved_take:
  assumes "conserved ops limits s" "acquire_permit ops l (sv_store s) = Inr (p, sv_store s')"
    "\<And>j. held j s' = held j s + (if p = Some j then 1 else 0)"
  shows "conserved ops limits s' \<and> p = permit_for limits l"
proof -
  note a = acquired [OF assms(2)]
  let ?f = "free_permits ops (sv_store s)"
  have lim: "limits j = map_option (\<lambda>n. n + held j s) (?f j)" for j
    using assms(1) by (simp add: conserved_def)
  have p: "p = permit_for limits l" using a lim [of l] by (simp add: permit_for_def)
  have "map_option (\<lambda>n. n + held j s') (free_permits ops (sv_store s') j) = limits j" for j
  proof (cases "j = l")
    case True
    then show ?thesis using a lim [of l] assms(3) [of l]
      by (cases "?f l") (auto simp: after_taking_def permit_for_def)
  next
    case False
    then have "p \<noteq> Some j" using p by (simp add: permit_for_def)
    then show ?thesis using False a lim [of j] assms(3) [of j] by (simp add: after_taking_def)
  qed
  with p show ?thesis by (simp add: conserved_def)
qed

lemma conserved_give:
  assumes "conserved ops limits s" "sv_store s' = drop_permit ops p (sv_store s)"
    "\<And>j. held j s = held j s' + (if p = Some j then 1 else 0)"
  shows "conserved ops limits s'"
proof (cases p)
  case None
  then show ?thesis using assms by (intro conserved_same [OF assms(1)]) (auto simp: give_None)
next
  case (Some l)
  let ?f = "free_permits ops (sv_store s)"
  have lim: "limits j = map_option (\<lambda>n. n + held j s) (?f j)" for j
    using assms(1) by (simp add: conserved_def)
  show ?thesis
  proof (cases "?f l")
    case None
    then have "sv_store s' = sv_store s"
      using Some assms(2) by (simp add: drop_permit_def free_permits_def split: option.splits)
    then show ?thesis using lim None Some assms(3)
      by (auto simp: conserved_def split: if_splits)
  next
    case (Some n)
    then have "free_permits ops (sv_store s') = ?f(l \<mapsto> n + 1)"
      using give_Some [OF Some] assms(2) \<open>p = Some l\<close> by simp
    then show ?thesis using lim Some \<open>p = Some l\<close> assms(3)
      by (auto simp: conserved_def)
  qed
qed

end

section \<open>Shapes\<close>

lemma listener_ok_empty:
  "listener_held pc = [] \<Longrightarrow> \<nexists>n ps. pc = Numbered n ps \<Longrightarrow> listener_ok limits i pc"
  by (cases pc) (auto simp: listener_ok_def)

lemma listener_ok_Rejecting [simp]: "listener_ok limits i (Rejecting ps)"
  by (simp add: listener_ok_def)

lemma listener_ok_take:
  assumes "listener_ok limits i (Admitting ps)" "length ps < 4"
    "p = permit_for limits (limits_of i ! length ps)"
  shows "listener_ok limits i (Admitting (ps @ [p]))"
proof -
  have "take (Suc (length ps)) (limits_of i) =
        take (length ps) (limits_of i) @ [limits_of i ! length ps]"
    using assms(2) by (intro take_Suc_conv_app_nth) (simp add: limits_of_def)
  then show ?thesis using assms by (simp add: listener_ok_def)
qed

lemma listener_ok_Numbered:
  "listener_ok limits i (Admitting ps) \<Longrightarrow> 4 \<le> length ps \<Longrightarrow> listener_ok limits i (Numbered n ps)"
  by (auto simp: listener_ok_def limits_of_def)

lemma well_shaped_listener:
  assumes "well_shaped limits n s" "i < n" "listener_ok limits i pc"
    "sv_listeners s' = (sv_listeners s)[i := pc]" "length (sv_metrics s') = length (sv_metrics s)"
    "sv_tasks s' = sv_tasks s"
  shows "well_shaped limits n s'"
  using assms by (auto simp: well_shaped_def nth_list_update)

lemma well_shaped_task:
  assumes "well_shaped limits n s" "k < length (sv_tasks s)"
    "task_ok limits ((sv_tasks s ! k)\<lparr>tk_phase := ph\<rparr>)"
    "sv_tasks s' = (sv_tasks s)[k := (sv_tasks s ! k)\<lparr>tk_phase := ph\<rparr>]"
    "length (sv_metrics s') = length (sv_metrics s)" "sv_listeners s' = sv_listeners s"
  shows "well_shaped limits n s'"
  using assms nth_mem [OF assms(2)]
  by (auto simp: well_shaped_def dest!: set_update_subset_insert [THEN subsetD])

lemma task_ok_drop:
  assumes "task_ok limits t" "live ph = live (tk_phase t)" "task_held (tk_phase t) = p # ps"
    "task_held ph = ps" "connecting ph = connecting (tk_phase t)"
  shows "task_ok limits (t\<lparr>tk_phase := ph\<rparr>)"
  using assms by (cases "tk_phase t"; cases ph) (auto simp: task_ok_def Cons_eq_append_conv)

lemma four_permits:
  assumes "listener_ok limits i (Numbered n ps)"
  obtains g r gc rc where "ps = [g, r, gc, rc]"
    "[g, r, gc, rc] = map (permit_for limits) (limits_of i)"
  using assms by (auto simp: listener_ok_def limits_of_def)

section \<open>Every step keeps the permits in order\<close>

context semaphore
begin

text \<open>A listener that moves without touching the store, and one that spawns a task.\<close>

lemma listener_moves:
  assumes inv: "permits_inv ops limits n s" and i: "i < n"
    and s': "s' = set_listener i pc t" "sv_listeners t = sv_listeners s" "sv_tasks t = sv_tasks s"
      "sv_store t = sv_store s" "length (sv_metrics t) = length (sv_metrics s)"
    and held: "\<And>j. count_list (listener_held pc) (Some j) = count_list (listener_held (sv_listeners s ! i)) (Some j)"
    and ok: "listener_ok limits i pc"
  shows "permits_inv ops limits n s'"
proof -
  have c: "conserved ops limits s" and w: "well_shaped limits n s"
    using inv by (auto simp: permits_inv_def)
  have "i < length (sv_listeners t)" using w i s'(2) by (simp add: well_shaped_def)
  moreover have "held_by_listeners j t = held_by_listeners j s" "held_by_tasks j t = held_by_tasks j s" for j
    using s' by (simp_all add: held_by_listeners_def held_by_tasks_def)
  ultimately have "held j s' = held j s" for j
    using held_set_listener [of i t j pc] held [of j] s' by (simp add: held_def)
  then have "conserved ops limits s'" using s' by (intro conserved_same [OF c]) simp_all
  then show ?thesis using s' well_shaped_listener [OF w i ok, of s'] by (simp add: permits_inv_def)
qed

lemma spawn_permits:
  assumes inv: "permits_inv ops limits n s" and i: "i < n"
    and at: "sv_listeners s ! i = Numbered m ps" and s': "s' = set_listener i Accepting (spawn_connection rate i m ps s)"
  shows "permits_inv ops limits n s'"
proof -
  let ?s = "spawn_connection rate i m ps s"
  have c: "conserved ops limits s" and w: "well_shaped limits n s"
    using inv by (auto simp: permits_inv_def)
  have len: "i < length (sv_listeners s)" and ok: "listener_ok limits i (sv_listeners s ! i)"
    using w i by (auto simp: well_shaped_def)
  obtain g r gc rc where ps: "ps = [g, r, gc, rc]"
    "[g, r, gc, rc] = map (permit_for limits) (limits_of i)"
    using four_permits ok at by metis
  have fr: "sv_listeners ?s = sv_listeners s" "sv_store ?s = sv_store s"
    by (simp_all add: spawn_connection_def Let_def)
  have "held_by_tasks j ?s = held_by_tasks j s + count_list ps (Some j)" for j
    by (simp add: held_by_tasks_def spawn_connection_def Let_def ps(1))
  moreover have "held_by_listeners j ?s = held_by_listeners j s" for j
    by (simp add: held_by_listeners_def fr)
  ultimately have "held j s' = held j s" for j
    using held_set_listener [of i ?s j Accepting] at s' len fr by (simp add: held_def)
  then have "conserved ops limits s'" using s' fr by (intro conserved_same [OF c]) simp_all
  moreover have "well_shaped limits n (s\<lparr>sv_listeners := (sv_listeners s)[i := Accepting]\<rparr>)"
    using w i by (intro well_shaped_listener [OF w i, of Accepting]) (auto simp: listener_ok_def)
  moreover have "[ps ! 0, ps ! 1, ps ! 2, ps ! 3] = map (permit_for limits) (limits_of i)"
    unfolding ps(2) [symmetric] ps(1) by simp
  ultimately show ?thesis using i
    by (simp add: permits_inv_def well_shaped_def s' spawn_connection_def Let_def task_ok_def)
qed

lemma listener_permits:
  assumes inv: "permits_inv ops limits n s" and i: "i < n"
    and step: "run_relay_listener ops rate i ev s = Some s'"
  shows "permits_inv ops limits n s'"
proof -
  have c: "conserved ops limits s" and w: "well_shaped limits n s"
    using inv by (auto simp: permits_inv_def)
  have len: "i < length (sv_listeners s)" and ok: "listener_ok limits i (sv_listeners s ! i)"
    using w i by (auto simp: well_shaped_def)
  note moves = listener_moves [OF inv i]
  from step show ?thesis
  proof (cases rule: listener_step_cases)
    case (idle pc)
    then show ?thesis using listener_ok_empty by (intro moves [OF idle(1)]) simp_all
  next
    case (refuse ps)
    then show ?thesis by (intro moves [OF refuse(4)]) simp_all
  next
    case (take_permit ps p store)
    have "held j s' = held j s + (if p = Some j then 1 else 0)" for j
      using held_set_listener [of i "s\<lparr>sv_store := store\<rparr>" j "Admitting (ps @ [p])"] take_permit len
      by (simp add: held_def held_frame)
    then have "conserved ops limits s' \<and> p = permit_for limits (limits_of i ! length ps)"
      using take_permit by (intro conserved_take [OF c]) simp_all
    then show ?thesis
      using take_permit well_shaped_listener [OF w i, of "Admitting (ps @ [p])" s']
        listener_ok_take [of limits i ps p] ok
      by (auto simp: permits_inv_def)
  next
    case (number ps)
    then show ?thesis using ok listener_ok_Numbered by (intro moves [OF number(3)]) simp_all
  next
    case (give p ps)
    have "held j s = held j s' + (if p = Some j then 1 else 0)" for j
      using held_set_listener [of i "s\<lparr>sv_store := drop_permit ops p (sv_store s)\<rparr>" j "Rejecting ps"]
        give len by (simp add: held_def held_frame)
    then have "conserved ops limits s'" using give by (intro conserved_give [OF c, of _ p]) simp_all
    then show ?thesis
      using give well_shaped_listener [OF w i, of "Rejecting ps" s'] by (simp add: permits_inv_def)
  next
    case (spawn m ps)
    then show ?thesis using spawn_permits [OF inv i] by blast
  qed
qed

lemma task_permits:
  assumes inv: "permits_inv ops limits n s" and k: "k < length (sv_tasks s)"
    and step: "run_task ops k ev s = Some s'"
  shows "permits_inv ops limits n s'"
proof -
  have c: "conserved ops limits s" and w: "well_shaped limits n s"
    using inv by (auto simp: permits_inv_def)
  have ok: "task_ok limits (sv_tasks s ! k)" using w k by (simp add: well_shaped_def)
  from step show ?thesis
  proof (cases rule: task_step_cases)
    case (stay rc gc r g)
    have "held j s' = held j s" for j
      using held_update_task [OF k, of j "Relaying [gc, rc] r g"] stay
      by (simp add: held_def held_frame)
    then have "conserved ops limits s'" using stay by (intro conserved_same [OF c]) simp_all
    moreover have "task_ok limits ((sv_tasks s ! k)\<lparr>tk_phase := Relaying [gc, rc] r g\<rparr>)"
      using ok stay by (simp add: task_ok_def limits_of_def)
    ultimately show ?thesis using stay well_shaped_task [OF w k, of "Relaying [gc, rc] r g" s']
      by (simp add: permits_inv_def)
  next
    case (goes ph m events)
    have "held_by_tasks j s' = held_by_tasks j s" for j
      using held_update_task [OF k, of j ph] goes by (simp add: held_by_tasks_def)
    then have "held j s' = held j s" for j
      using goes by (simp add: held_def held_frame)
    then have "conserved ops limits s'" using goes by (intro conserved_same [OF c]) simp_all
    moreover have "task_ok limits ((sv_tasks s ! k)\<lparr>tk_phase := ph\<rparr>)"
      using goes by (cases ph) (simp_all add: task_ok_def)
    ultimately show ?thesis using goes well_shaped_task [OF w k, of ph s']
      by (simp add: permits_inv_def)
  next
    case (drops ph p ps)
    have "held_by_tasks j s = held_by_tasks j s' + (if p = Some j then 1 else 0)" for j
      using held_update_task [OF k, of j ph] drops by (simp add: held_by_tasks_def)
    then have "held j s = held j s' + (if p = Some j then 1 else 0)" for j
      using drops by (simp add: held_def held_frame)
    then have "conserved ops limits s'" using drops by (intro conserved_give [OF c, of _ p]) simp_all
    then show ?thesis
      using drops well_shaped_task [OF w k, of ph s'] task_ok_drop [OF ok, of ph p ps]
      by (simp add: permits_inv_def)
  qed
qed

lemma step_permits:
  assumes "permits_inv ops limits n s" "server_step ops rate s s'"
  shows "permits_inv ops limits n s'"
  using assms(2)
proof (cases rule: server_step.cases)
  case (listener i event)
  then show ?thesis using assms(1) listener_permits
    by (metis permits_inv_def well_shaped_def)
next
  case (connection k event)
  then show ?thesis using assms(1) task_permits by blast
next
  case (run event)
  then have "sv_store s' = sv_store s" "sv_listeners s' = sv_listeners s" "sv_tasks s' = sv_tasks s"
    "sv_metrics s' = sv_metrics s"
    by (auto simp: run_server_def split: run_phase.splits run_event.splits if_splits)
  then show ?thesis using assms(1)
    by (simp add: permits_inv_def conserved_def well_shaped_def held_def held_by_listeners_def
        held_by_tasks_def)
qed (use assms(1) in \<open>simp_all add: permits_inv_def conserved_def well_shaped_def held_def
      held_by_listeners_def held_by_tasks_def\<close>)

end

end
