(* ===== verification/Metrics_Text.thy ===== *)
theory Metrics_Text
  imports Metrics
begin

text \<open>
  The Prometheus text the metrics endpoint serves (\<open>src/src/metrics.rs\<close>, lines 44 to 78 and
  158 to 315). Two formats go through \<open>f64\<close>: the second bounds of the buckets and the sum of
  the durations. They are modelled as the machine computes them (rounding to 53 bits, then
  to a fixed number of decimals), so that the range in which the printed sum is exact can be
  stated.
\<close>

section \<open>Floating point\<close>

text \<open>A non-negative \<open>f64\<close> is written as a fraction \<open>(numerator, denominator)\<close>.\<close>

definition round_half_even :: "nat \<Rightarrow> nat \<Rightarrow> nat" where
  "round_half_even p q =
     (let n = p div q; r = p mod q in
      if 2 * r < q \<or> (2 * r = q \<and> even n) then n else n + 1)"

fun ilog2 :: "nat \<Rightarrow> nat" where
  "ilog2 n = (if n \<le> 1 then 0 else Suc (ilog2 (n div 2)))"

declare ilog2.simps [simp del]

text \<open>How often \<open>p\<close> has to be doubled to reach \<open>q\<close>.\<close>

function doublings :: "nat \<Rightarrow> nat \<Rightarrow> nat" where
  "doublings p q = (if p = 0 \<or> q \<le> p then 0 else Suc (doublings (2 * p) q))"
  by pat_completeness auto
termination
  by (relation "measure (\<lambda>(p, q). q - p)") auto

declare doublings.simps [simp del]

text \<open>The \<open>f64\<close> nearest to \<open>p / q\<close>, ties to even: 53 significant bits.\<close>

definition f64_of :: "nat \<Rightarrow> nat \<Rightarrow> nat \<times> nat" where
  "f64_of p q =
     (if p = 0 then (0, 1)
      else if q \<le> p then
        (let e = ilog2 (p div q) in
         if e \<le> 52 then (round_half_even (p * 2 ^ (52 - e)) q, 2 ^ (52 - e))
         else (round_half_even p (q * 2 ^ (e - 52)) * 2 ^ (e - 52), 1))
      else
        (let k = doublings p q in (round_half_even (p * 2 ^ (52 + k)) q, 2 ^ (52 + k))))"

definition f64_from_u64 :: "u64 \<Rightarrow> nat \<times> nat" where
  "f64_from_u64 x = f64_of (unat x) 1"

definition f64_div :: "nat \<times> nat \<Rightarrow> nat \<Rightarrow> nat \<times> nat" where
  "f64_div x c = (case x of (p, q) \<Rightarrow> f64_of p (q * c))"

text \<open>\<open>{:.places}\<close>: the exact value rounded to that many decimals.\<close>

definition pad_zeros :: "nat \<Rightarrow> rstr \<Rightarrow> rstr" where
  "pad_zeros n s = replicate (n - length s) 48 @ s"

definition fixed_decimal :: "nat \<Rightarrow> nat \<Rightarrow> rstr" where
  "fixed_decimal places m =
     dec (m div 10 ^ places) @ [46] @ pad_zeros places (dec (m mod 10 ^ places))"

definition format_fixed :: "nat \<Rightarrow> nat \<times> nat \<Rightarrow> rstr" where
  "format_fixed places x =
     (case x of (p, q) \<Rightarrow> fixed_decimal places (round_half_even (p * 10 ^ places) q))"

section \<open>Rendering\<close>

definition seconds_string :: "u64 \<Rightarrow> rstr" where
  "seconds_string milliseconds =
     (if milliseconds mod 1000 = 0 then dec (unat (milliseconds div 1000))
      else format_fixed 3 (f64_div (f64_from_u64 milliseconds) 1000))"

text \<open>\<open>writeln!(output, ...)\<close> of a sample with the one label \<open>relay\<close>.\<close>

definition sample_line :: "rstr \<Rightarrow> rstr \<Rightarrow> rstr \<Rightarrow> rstr" where
  \<open>sample_line metric relay_label value =
     metric @ lit ''{relay="'' @ relay_label @ lit ''"} '' @ value @ [10]\<close>

definition bucket_line :: "rstr \<Rightarrow> rstr \<Rightarrow> rstr \<Rightarrow> rstr \<Rightarrow> rstr" where
  \<open>bucket_line metric_name relay_label bound value =
     metric_name @ lit ''_bucket{relay="'' @ relay_label @ lit ''",le="'' @ bound @ lit ''"} '' @
     value @ [10]\<close>

fun bucket_lines :: "rstr \<Rightarrow> rstr \<Rightarrow> u64 \<Rightarrow> u64 list \<Rightarrow> u64 list \<Rightarrow> rstr" where
  "bucket_lines metric_name relay_label cumulative (bound # bounds) (b # bs) =
     (let cumulative = cumulative + b in
      bucket_line metric_name relay_label (seconds_string bound) (dec (unat cumulative)) @
      bucket_lines metric_name relay_label cumulative bounds bs)"
| "bucket_lines metric_name relay_label cumulative bounds bs = []"

definition histogram_render :: "histogram \<Rightarrow> rstr \<Rightarrow> rstr \<Rightarrow> rstr" where
  "histogram_render h metric_name relay_label =
     bucket_lines metric_name relay_label 0 DURATION_BUCKETS_MILLIS (h_buckets h) @
     bucket_line metric_name relay_label (lit ''+Inf'') (dec (unat (h_count h))) @
     sample_line (metric_name @ lit ''_sum'') relay_label
       (format_fixed 6 (f64_div (f64_from_u64 (h_sum_micros h)) 1000000)) @
     sample_line (metric_name @ lit ''_count'') relay_label (dec (unat (h_count h)))"

definition metrics_render :: "relay_metrics \<Rightarrow> rstr" where
  "metrics_render m =
     (let label = m_label m in
      sample_line (lit ''portrelay_active_connections'') label (dec (unat (active_connections m))) @
      sample_line (lit ''portrelay_connections_accepted_total'') label
        (dec (unat (connections_accepted m))) @
      sample_line (lit ''portrelay_connections_rejected_total'') label
        (dec (unat (connections_rejected m))) @
      sample_line (lit ''portrelay_connections_closed_total'') label
        (dec (unat (connections_closed m))) @
      sample_line (lit ''portrelay_upstream_connect_failures_total'') label
        (dec (unat (upstream_connect_failures m))) @
      sample_line (lit ''portrelay_upstream_connect_timeouts_total'') label
        (dec (unat (upstream_connect_timeouts m))) @
      sample_line (lit ''portrelay_idle_timeouts_total'') label (dec (unat (idle_timeouts m))) @
      sample_line (lit ''portrelay_bytes_client_to_upstream_total'') label
        (dec (unat (bytes_client_to_upstream m))) @
      sample_line (lit ''portrelay_bytes_upstream_to_client_total'') label
        (dec (unat (bytes_upstream_to_client m))) @
      histogram_render (connection_duration m) (lit ''portrelay_connection_duration_seconds'')
        label @
      histogram_render (upstream_connect_duration m)
        (lit ''portrelay_upstream_connect_duration_seconds'') label)"

definition render_help_type :: "string \<Rightarrow> string \<Rightarrow> string \<Rightarrow> rstr" where
  "render_help_type name help metric_type =
     lit ''# HELP '' @ lit name @ [32] @ lit help @ [10] @
     lit ''# TYPE '' @ lit name @ [32] @ lit metric_type @ [10]"

definition metric_families :: "(string \<times> string \<times> string) list" where
  "metric_families =
     [(''portrelay_active_connections'', ''Active proxied TCP connections.'', ''gauge''),
      (''portrelay_connections_accepted_total'', ''Accepted proxied TCP connections.'', ''counter''),
      (''portrelay_connections_rejected_total'', ''Connections rejected by admission limits.'',
       ''counter''),
      (''portrelay_connections_closed_total'', ''Closed proxied TCP connections.'', ''counter''),
      (''portrelay_upstream_connect_failures_total'', ''Upstream connection failures.'',
       ''counter''),
      (''portrelay_upstream_connect_timeouts_total'', ''Upstream connection timeouts.'',
       ''counter''),
      (''portrelay_idle_timeouts_total'', ''Connections closed by idle timeout.'', ''counter''),
      (''portrelay_bytes_client_to_upstream_total'', ''Bytes copied from clients to upstreams.'',
       ''counter''),
      (''portrelay_bytes_upstream_to_client_total'', ''Bytes copied from upstreams to clients.'',
       ''counter''),
      (''portrelay_connection_duration_seconds'', ''Proxied TCP connection duration.'',
       ''histogram''),
      (''portrelay_upstream_connect_duration_seconds'', ''Upstream TCP connection duration.'',
       ''histogram'')]"

definition render_metric_metadata :: rstr where
  "render_metric_metadata =
     concat (map (\<lambda>(name, help, metric_type). render_help_type name help metric_type)
       metric_families)"

definition registry_render :: "relay_metrics list \<Rightarrow> rstr" where
  "registry_render relays = render_metric_metadata @ concat (map metrics_render relays)"

section \<open>Labels\<close>

text \<open>The three passes amount to one, because no pass produces a character a later one
  replaces.\<close>

definition escape_char :: "rchar \<Rightarrow> rstr" where
  "escape_char c =
     (if c = 92 then [92, 92] else if c = 34 then [92, 34] else if c = 10 then [92, 110] else [c])"

lemma replace_char_append [simp]:
  "replace_char c t (xs @ ys) = replace_char c t xs @ replace_char c t ys"
  by (simp add: replace_char_def)

lemma escape_label_Cons: "escape_label (c # cs) = escape_char c @ escape_label cs"
  by (simp add: escape_label_def replace_char_def escape_char_def)

lemma escape_label_Nil [simp]: "escape_label [] = []"
  by (simp add: escape_label_def replace_char_def)

lemma escape_label_concat: "escape_label s = concat (map escape_char s)"
  by (induction s) (simp_all add: escape_label_Cons)

text \<open>How a Prometheus parser reads a label value: up to the first unescaped quote.\<close>

fun read_label :: "rstr \<Rightarrow> (rstr \<times> rstr) option" where
  "read_label [] = None"
| "read_label (c # cs) =
     (if c = 34 then Some ([], cs)
      else if c = 10 then None
      else if c = 92 then
        (case cs of
           [] \<Rightarrow> None
         | d # ds \<Rightarrow>
             (if d = 92 \<or> d = 34 then map_option (\<lambda>(l, r). (d # l, r)) (read_label ds)
              else if d = 110 then map_option (\<lambda>(l, r). (10 # l, r)) (read_label ds)
              else None))
      else map_option (\<lambda>(l, r). (c # l, r)) (read_label cs))"

lemma read_label_escape: "read_label (escape_label s @ 34 # rest) = Some (s, rest)"
  by (induction s) (simp_all add: escape_label_Cons escape_char_def)

lemma escape_label_no_newline: "10 \<notin> set (escape_label s)"
  by (induction s) (auto simp: escape_label_Cons escape_char_def)

section \<open>Lines\<close>

abbreviation newlines :: "rstr \<Rightarrow> nat" where
  "newlines s \<equiv> count_list s 10"

lemma newline_not_in_dec: "10 \<notin> set (dec n)"
  by (auto simp: is_digit_def dest!: dec_digits)

lemma newlines_dec [simp]: "newlines (dec n) = 0"
  by (simp add: count_list_0_iff newline_not_in_dec)

lemma newlines_fixed [simp]: "newlines (format_fixed n x) = 0"
  by (auto simp: format_fixed_def fixed_decimal_def pad_zeros_def count_list_0_iff
      newline_not_in_dec split: prod.split)

lemma newlines_seconds [simp]: "newlines (seconds_string x) = 0"
  by (simp add: seconds_string_def)

text \<open>Metric names are ASCII literals of the source: none holds a newline.\<close>

definition one_line :: "rstr \<Rightarrow> bool" where
  "one_line s \<longleftrightarrow> newlines s = 0"

lemma newlines_sample [simp]:
  "newlines (sample_line metric l v) = newlines metric + newlines l + newlines v + 1"
  by (simp add: sample_line_def lit_def)

lemma newlines_bucket [simp]:
  "newlines (bucket_line metric l b v) =
   newlines metric + newlines l + newlines b + newlines v + 1"
  by (simp add: bucket_line_def lit_def)

lemma newlines_bucket_lines:
  assumes "length bounds = length bs" "newlines metric = 0" "newlines l = 0"
  shows "newlines (bucket_lines metric l c bounds bs) = length bounds"
  using assms by (induction metric l c bounds bs rule: bucket_lines.induct) (auto simp: Let_def)

lemma newlines_histogram:
  assumes "wf_histogram h" "newlines metric = 0" "newlines l = 0"
  shows "newlines (histogram_render h metric l) = 15"
  using assms
  by (simp add: histogram_render_def newlines_bucket_lines wf_histogram_def)
    (simp add: lit_def DURATION_BUCKETS_MILLIS_def)

definition wf_metrics :: "relay_metrics \<Rightarrow> bool" where
  "wf_metrics m \<longleftrightarrow>
     m_label m = escape_label (m_name m) \<and>
     wf_histogram (connection_duration m) \<and> wf_histogram (upstream_connect_duration m)"

lemma newlines_metrics:
  assumes "wf_metrics m"
  shows "newlines (metrics_render m) = 39"
proof -
  have l: "newlines (m_label m) = 0"
    using assms escape_label_no_newline by (simp add: wf_metrics_def count_list_0_iff)
  have h: "newlines (histogram_render (connection_duration m)
             (lit ''portrelay_connection_duration_seconds'') (m_label m)) = 15"
    "newlines (histogram_render (upstream_connect_duration m)
             (lit ''portrelay_upstream_connect_duration_seconds'') (m_label m)) = 15"
    using assms l by (auto intro!: newlines_histogram simp: wf_metrics_def lit_def)
  show ?thesis by (simp add: metrics_render_def Let_def h l) (simp add: lit_def)
qed

section \<open>Cumulative buckets\<close>

lemma bucket_lines_concat:
  assumes "length bounds = length bs"
  shows "bucket_lines metric l c bounds bs =
    concat (map (\<lambda>i. bucket_line metric l (seconds_string (bounds ! i))
                       (dec (unat (c + sum_list (take (Suc i) bs))))) [0..<length bounds])"
  using assms
proof (induction metric l c bounds bs rule: bucket_lines.induct)
  case (1 metric l c bound bounds b bs)
  then show ?case
    by (simp add: Let_def upt_conv_Cons map_Suc_upt [symmetric] add.assoc comp_def del: upt_Suc)
qed auto

lemma position_le_sorted:
  assumes "sorted bounds" "i < length bounds"
  shows "x \<le> bounds ! i \<longleftrightarrow> (\<exists>j\<le>i. position (\<lambda>b. x \<le> b) bounds = Some j)"
proof
  assume le: "x \<le> bounds ! i"
  then have "position (\<lambda>b. x \<le> b) bounds \<noteq> None"
    using assms(2) by (auto simp: position_None)
  then obtain j where j: "position (\<lambda>b. x \<le> b) bounds = Some j" by blast
  have "j \<le> i"
  proof (rule ccontr)
    assume "\<not> j \<le> i"
    then have "bounds ! i \<in> set (take j bounds)"
      using assms(2) position_split [OF j] by (auto simp: in_set_conv_nth intro!: exI [of _ i])
    then show False using position_split [OF j] le by blast
  qed
  with j show "\<exists>j\<le>i. position (\<lambda>b. x \<le> b) bounds = Some j" by blast
next
  assume "\<exists>j\<le>i. position (\<lambda>b. x \<le> b) bounds = Some j"
  then obtain j where "j \<le> i" "position (\<lambda>b. x \<le> b) bounds = Some j" by blast
  then show "x \<le> bounds ! i"
    using position_split assms by (meson order_trans sorted_nth_mono)
qed

lemma length_filter_Some_upto:
  "length (filter (\<lambda>d. \<exists>j<n. g d = Some j) ds) =
   sum_list (map (\<lambda>j. length (filter (\<lambda>d. g d = Some j) ds)) [0..<n])"
proof (induction n)
  case 0
  then show ?case by simp
next
  case (Suc n)
  have "length (filter (\<lambda>d. \<exists>j<Suc n. g d = Some j) ds) =
        length (filter (\<lambda>d. \<exists>j<n. g d = Some j) ds) + length (filter (\<lambda>d. g d = Some n) ds)"
    by (induction ds) (auto simp: less_Suc_eq)
  with Suc show ?case by simp
qed

lemma sum_list_map_of_nat:
  "sum_list (map (\<lambda>j. of_nat (f j)) xs) = (of_nat (sum_list (map f xs)) :: 'a::semiring_1)"
  by (induction xs) auto

lemma sorted_bounds: "sorted DURATION_BUCKETS_MILLIS"
  by (simp add: DURATION_BUCKETS_MILLIS_def)

lemma bounds_small: "b \<in> set DURATION_BUCKETS_MILLIS \<Longrightarrow> unat b \<le> 300000"
  by (auto simp: DURATION_BUCKETS_MILLIS_def)

lemma millis_le_bound:
  assumes "b \<in> set DURATION_BUCKETS_MILLIS"
  shows "saturate_u64 (as_millis d) \<le> b \<longleftrightarrow> millis_nat d \<le> unat b"
  using bounds_small [OF assms]
  by (auto simp: word_le_nat_alt unat_saturate_u64 unat_as_millis)

text \<open>
  After any observations of a fresh histogram the running total up to bucket \<open>i\<close> is the
  number of durations of at most \<open>i\<close>'s bound.
\<close>

lemma cumulative_count:
  assumes "i < length DURATION_BUCKETS_MILLIS"
  shows "sum_list (take (Suc i) (h_buckets (observe_all ds histogram_new))) =
         of_nat (length (filter (\<lambda>d. millis_nat d \<le> unat (DURATION_BUCKETS_MILLIS ! i)) ds))"
proof -
  let ?B = DURATION_BUCKETS_MILLIS
  let ?hb = "h_buckets (observe_all ds histogram_new)"
  have wf: "wf_histogram (observe_all ds histogram_new)"
    by (induction ds rule: rev_induct) (auto simp: observe_all_def)
  have "take (Suc i) ?hb = map (\<lambda>j. ?hb ! j) [0..<Suc i]"
    using assms wf by (intro nth_equalityI) (auto simp: wf_histogram_def simp del: upt_Suc)
  also have "\<dots> = map (\<lambda>j. of_nat (length (filter (\<lambda>d. bucket_of d = Some j) ds))) [0..<Suc i]"
  proof (rule map_cong [OF refl])
    fix j
    assume "j \<in> set [0..<Suc i]"
    then have "j < length ?B" using assms by auto
    then show "?hb ! j = of_nat (length (filter (\<lambda>d. bucket_of d = Some j) ds))"
      by (simp add: observe_all_buckets) (simp add: histogram_new_def)
  qed
  finally have "sum_list (take (Suc i) ?hb) =
      of_nat (sum_list (map (\<lambda>j. length (filter (\<lambda>d. bucket_of d = Some j) ds)) [0..<Suc i]))"
    by (simp only: sum_list_map_of_nat)
  also have "\<dots> = of_nat (length (filter (\<lambda>d. \<exists>j<Suc i. bucket_of d = Some j) ds))"
    by (simp only: length_filter_Some_upto)
  also have "(\<lambda>d. \<exists>j<Suc i. bucket_of d = Some j) = (\<lambda>d. millis_nat d \<le> unat (?B ! i))"
    using position_le_sorted [OF sorted_bounds assms] millis_le_bound [OF nth_mem [OF assms]]
    by (simp add: bucket_of_def less_Suc_eq_le)
  finally show ?thesis .
qed

section \<open>When the printed sum is exact\<close>

lemma round_half_even_error:
  assumes "0 < q"
  shows "2 * \<bar>int (round_half_even p q) * int q - int p\<bar> \<le> int q"
proof -
  define n r where nr: "n = p div q" "r = p mod q"
  have p: "int p = int n * int q + int r" and r: "int r < int q" "0 \<le> int r"
    using assms by (simp_all add: nr flip: of_nat_mult of_nat_add)
  show ?thesis
  proof (cases "2 * r < q \<or> (2 * r = q \<and> even n)")
    case True
    then have "round_half_even p q = n" by (simp add: round_half_even_def nr Let_def)
    then show ?thesis using True p r by auto
  next
    case False
    then have "round_half_even p q = n + 1" by (simp add: round_half_even_def nr Let_def)
    then have "int (round_half_even p q) * int q - int p = int q - int r"
      using p by (simp add: algebra_simps)
    then show ?thesis using False r by auto
  qed
qed

lemma distance_trans:
  fixes a n s b :: int
  assumes "2 * \<bar>a - s\<bar> < b" "2 * \<bar>n - a\<bar> \<le> b"
  shows "\<bar>n - s\<bar> < b"
proof -
  have "\<bar>n - s\<bar> \<le> \<bar>n - a\<bar> + \<bar>a - s\<bar>" by (rule abs_triangle_ineq [of "n - a" "a - s", simplified])
  moreover have "z < b" if "z \<le> x + y" "2 * y < b" "2 * x \<le> b" for x y z
    using that by linarith
  ultimately show ?thesis using assms by blast
qed

lemma round_half_even_near:
  assumes "2 * \<bar>int a - int s * int b\<bar> < int b"
  shows "round_half_even a b = s"
proof -
  have b: "0 < b" using assms by (cases "b = 0") auto
  let ?n = "round_half_even a b"
  have "2 * \<bar>int ?n * int b - int a\<bar> \<le> int b" by (rule round_half_even_error [OF b])
  with assms have lt: "\<bar>int ?n * int b - int s * int b\<bar> < int b" by (rule distance_trans)
  have "int ?n = int s"
  proof (rule ccontr)
    assume "int ?n \<noteq> int s"
    then have "1 * int b \<le> \<bar>int ?n - int s\<bar> * int b" by (intro mult_right_mono) auto
    also have "\<dots> = \<bar>(int ?n - int s) * int b\<bar>" by (simp add: abs_mult)
    also have "(int ?n - int s) * int b = int ?n * int b - int s * int b" by (rule left_diff_distrib)
    finally show False using lt by simp
  qed
  then show ?thesis by simp
qed

lemma ilog2_bound: "n < 2 ^ Suc k \<Longrightarrow> ilog2 n \<le> k"
proof (induction n arbitrary: k rule: ilog2.induct)
  case (1 n)
  show ?case
  proof (cases "n \<le> 1")
    case True
    then show ?thesis by (simp add: ilog2.simps [of n])
  next
    case False
    then obtain j where k: "k = Suc j" using "1.prems" by (cases k) auto
    then have "n div 2 < 2 ^ Suc j" using "1.prems" by auto
    then show ?thesis using False "1.IH" k by (simp add: ilog2.simps [of n])
  qed
qed

lemma scaled_rounding_exact:
  assumes "20 \<le> sh"
  shows "round_half_even (round_half_even (s * 2 ^ k * 2 ^ sh) (2 ^ k * 1000000) * 1000000) (2 ^ sh)
         = s"
proof (rule round_half_even_near)
  define A where "A = round_half_even (s * 2 ^ k * 2 ^ sh) (2 ^ k * 1000000)"
  have "2 * \<bar>int A * int (2 ^ k * 1000000) - int (s * 2 ^ k * 2 ^ sh)\<bar> \<le> int (2 ^ k * 1000000)"
    unfolding A_def by (rule round_half_even_error) simp
  also have "int A * int (2 ^ k * 1000000) - int (s * 2 ^ k * 2 ^ sh) =
             2 ^ k * (int (A * 1000000) - int s * int (2 ^ sh))"
    by (simp add: algebra_simps)
  also have "\<bar>2 ^ k * (int (A * 1000000) - int s * int (2 ^ sh))\<bar> =
             2 ^ k * \<bar>int (A * 1000000) - int s * int (2 ^ sh)\<bar>"
    by (simp add: abs_mult)
  also have "int (2 ^ k * 1000000) = 2 ^ k * 1000000" by simp
  finally have "2 ^ k * (2 * \<bar>int (A * 1000000) - int s * int (2 ^ sh)\<bar>) \<le> (2 ^ k :: int) * 1000000"
    by linarith
  then have "2 * \<bar>int (A * 1000000) - int s * int (2 ^ sh)\<bar> \<le> 1000000"
    by (simp only: mult_le_cancel_left_pos zero_less_power zero_less_numeral)
  moreover have "(2 :: int) ^ 20 \<le> 2 ^ sh" using assms by (rule power_increasing) simp
  ultimately show "2 * \<bar>int (round_half_even (s * 2 ^ k * 2 ^ sh) (2 ^ k * 1000000) * 1000000) -
      int s * int (2 ^ sh)\<bar> < int (2 ^ sh)"
    unfolding A_def by simp
qed

lemma f64_of_integer:
  assumes "0 < n" "n < 2 ^ 53"
  shows "f64_of n 1 = (n * 2 ^ (52 - ilog2 n), 2 ^ (52 - ilog2 n))"
proof -
  have "ilog2 n \<le> 52" using assms(2) by (intro ilog2_bound) simp
  moreover have "round_half_even m 1 = m" for m
    by (simp add: round_half_even_def)
  ultimately show ?thesis using assms(1) by (simp add: f64_of_def Let_def)
qed

lemma sum_format_exact:
  assumes "unat x < 2 ^ 33 * 1000000"
  shows "format_fixed 6 (f64_div (f64_from_u64 x) 1000000) = fixed_decimal 6 (unat x)"
proof (cases "unat x = 0")
  case True
  then show ?thesis
    by (simp add: f64_from_u64_def f64_of_def f64_div_def format_fixed_def round_half_even_def)
next
  case False
  define s k where sk: "s = unat x" "k = 52 - ilog2 (unat x)"
  have x: "f64_from_u64 x = (s * 2 ^ k, 2 ^ k)"
    unfolding f64_from_u64_def sk using False assms by (intro f64_of_integer) auto
  have "\<exists>sh\<ge>20. f64_of (s * 2 ^ k) (2 ^ k * 1000000) =
         (round_half_even (s * 2 ^ k * 2 ^ sh) (2 ^ k * 1000000), 2 ^ sh)"
  proof (cases "1000000 \<le> s")
    case True
    let ?e = "ilog2 (s div 1000000)"
    have "s * 2 ^ k div (2 ^ k * 1000000) = s div 1000000"
      by (simp add: mult.commute [of s] div_mult2_eq)
    moreover have "?e \<le> 32" using assms by (intro ilog2_bound) (simp add: sk less_mult_imp_div_less)
    ultimately have "f64_of (s * 2 ^ k) (2 ^ k * 1000000) =
         (round_half_even (s * 2 ^ k * 2 ^ (52 - ?e)) (2 ^ k * 1000000), 2 ^ (52 - ?e))"
      using True False by (simp add: f64_of_def Let_def sk mult.commute)
    then show ?thesis using \<open>?e \<le> 32\<close> by (intro exI [of _ "52 - ?e"]) simp
  next
    case False
    then have "\<not> 2 ^ k * 1000000 \<le> s * 2 ^ k" by (simp add: mult.commute)
    then show ?thesis using \<open>unat x \<noteq> 0\<close>
      by (intro exI [of _ "52 + doublings (s * 2 ^ k) (2 ^ k * 1000000)"])
        (simp add: f64_of_def Let_def sk)
  qed
  then obtain sh where "20 \<le> sh" "f64_of (s * 2 ^ k) (2 ^ k * 1000000) =
         (round_half_even (s * 2 ^ k * 2 ^ sh) (2 ^ k * 1000000), 2 ^ sh)" by blast
  then show ?thesis
    using scaled_rounding_exact by (simp add: x f64_div_def format_fixed_def sk)
qed

lemma registry_lines:
  assumes "\<And>m. m \<in> set relays \<Longrightarrow> wf_metrics m"
  shows "newlines (registry_render relays) = 22 + 39 * length relays"
proof -
  have "newlines (concat (map metrics_render relays)) = 39 * length relays"
    using assms by (induction relays) (auto simp: newlines_metrics)
  moreover have "newlines render_metric_metadata = 22"
    by (simp add: render_metric_metadata_def metric_families_def render_help_type_def)
      (simp add: lit_def)
  ultimately show ?thesis by (simp add: registry_render_def)
qed

section \<open>Properties\<close>

lemma map_upt_nth: "map (\<lambda>i. f (xs ! i)) [0..<length xs] = map f xs"
  by (rule nth_equalityI) auto

lemma wf_observe_all: "wf_histogram h \<Longrightarrow> wf_histogram (observe_all ds h)"
  by (induction ds arbitrary: h) (auto simp: observe_all_def)

lemma count_below_bound:
  assumes "i < length DURATION_BUCKETS_MILLIS" "length ds < 2 ^ 64"
  shows "unat (0 + sum_list (take (Suc i) (h_buckets (observe_all ds histogram_new)))) =
         length (filter (\<lambda>d. millis_nat d \<le> unat (DURATION_BUCKETS_MILLIS ! i)) ds)"
proof -
  have "length (filter (\<lambda>d. millis_nat d \<le> unat (DURATION_BUCKETS_MILLIS ! i)) ds) < 2 ^ 64"
    using assms(2) length_filter_le le_less_trans by blast
  then show ?thesis by (simp only: cumulative_count [OF assms(1)] add_0 unat_of_nat_count)
qed

text \<open>
  C33. What a histogram prints after the observations \<open>ds\<close>: per bucket the number of durations
  of at most its bound (cumulative, as Prometheus reads buckets), the total for \<open>+Inf\<close> and
  \<open>_count\<close>, and as \<open>_sum\<close> the exact sum of the microseconds in seconds with six decimals.
  Counts are exact below 2^64 observations, the sum, which goes through \<open>f64\<close>, below 2^33
  seconds.
\<close>

theorem histogram_exposition:
  assumes "length ds < 2 ^ 64"
    and "sum_list (map (\<lambda>d. clamp_u64 (micros_nat d)) ds) < 2 ^ 33 * 1000000"
  shows "histogram_render (observe_all ds histogram_new) name label =
     concat (map (\<lambda>bound. bucket_line name label (seconds_string bound)
               (dec (length (filter (\<lambda>d. millis_nat d \<le> unat bound) ds)))) DURATION_BUCKETS_MILLIS) @
     bucket_line name label (lit ''+Inf'') (dec (length ds)) @
     sample_line (name @ lit ''_sum'') label
       (fixed_decimal 6 (sum_list (map (\<lambda>d. clamp_u64 (micros_nat d)) ds))) @
     sample_line (name @ lit ''_count'') label (dec (length ds))"
proof -
  let ?h = "observe_all ds histogram_new" and ?B = DURATION_BUCKETS_MILLIS
  have len: "length ?B = length (h_buckets ?h)"
    using wf_observe_all [OF wf_histogram_new, of ds] by (simp add: wf_histogram_def)
  let ?line = "\<lambda>bound. bucket_line name label (seconds_string bound)
    (dec (length (filter (\<lambda>d. millis_nat d \<le> unat bound) ds)))"
  have "bucket_lines name label 0 ?B (h_buckets ?h) =
        concat (map (\<lambda>i. ?line (?B ! i)) [0..<length ?B])"
    unfolding bucket_lines_concat [OF len]
    by (intro arg_cong [of _ _ concat] map_cong refl)
      (simp add: count_below_bound [OF _ assms(1), simplified add_0] del: sum_list.Cons)
  then have "bucket_lines name label 0 ?B (h_buckets ?h) = concat (map ?line ?B)"
    by (simp only: map_upt_nth [of ?line ?B])
  moreover have "unat (h_count ?h) = length ds"
    using assms(1) by (simp add: observe_all_count histogram_new_def unat_of_nat_count)
  moreover have "unat (h_sum_micros ?h) = sum_list (map (\<lambda>d. clamp_u64 (micros_nat d)) ds)"
    using assms(2) by (simp add: observe_all_sum histogram_new_def unat_of_nat_count)
  ultimately show ?thesis
    using assms(2) by (simp add: histogram_render_def sum_format_exact)
qed

lemma histogram_exposition_witness:
  "histogram_render (observe_all [from_millis 7, from_secs 2] histogram_new) [] [] =
     concat (map (\<lambda>bound. bucket_line [] [] (seconds_string bound)
               (dec (length (filter (\<lambda>d. millis_nat d \<le> unat bound) [from_millis 7, from_secs 2]))))
       DURATION_BUCKETS_MILLIS) @
     bucket_line [] [] (lit ''+Inf'') (dec (Suc (Suc 0))) @
     sample_line (lit ''_sum'') [] (fixed_decimal 6 2007000) @
     sample_line (lit ''_count'') [] (dec (Suc (Suc 0)))"
proof -
  have "micros_nat (from_millis 7) = 7000" "micros_nat (from_secs 2) = 2000000"
    by (simp_all add: from_millis_def from_secs_def micros_nat_def)
  then have "sum_list (map (\<lambda>d. clamp_u64 (micros_nat d)) [from_millis 7, from_secs 2]) = 2007000"
    by (simp add: clamp_u64_def)
  moreover have "length [from_millis 7, from_secs 2] = 2" by simp
  ultimately show ?thesis
    using histogram_exposition [of "[from_millis 7, from_secs 2]" "[]" "[]"] by simp
qed


end
