(* ===== verification/Relay_Counters.thy ===== *)
theory Relay_Counters
  imports Relay_Invariants Metrics_Text "HOL-Library.Multiset"
begin

text \<open>
  What the counters of a relay say about its connections, which connection ids are in use and
  which connections are logged, and what the phases of a shutdown imply: invariants of the
  server machine that rest on the shapes of theory \<open>Relay_Invariants\<close>.
\<close>

section \<open>Counters\<close>

definition spawned :: "nat \<Rightarrow> 's server_state \<Rightarrow> nat" where
  "spawned i s = length (filter (\<lambda>t. tk_relay t = i) (sv_tasks s))"

definition alive :: "nat \<Rightarrow> 's server_state \<Rightarrow> nat" where
  "alive i s = length (filter (\<lambda>t. tk_relay t = i \<and> live (tk_phase t)) (sv_tasks s))"

text \<open>
  The gauges of a relay: accepted and active are what they claim, every connection that is no
  longer live was closed and observed once, the upstream connect histogram was never touched.
\<close>

definition counters_ok :: "rstr list \<Rightarrow> nat \<Rightarrow> 's server_state \<Rightarrow> bool" where
  "counters_ok names i s \<longleftrightarrow>
     (let m = sv_metrics s ! i in
      connections_accepted m = of_nat (spawned i s) \<and>
      active_connections m = of_nat (alive i s) \<and>
      connections_closed m + of_nat (alive i s) = of_nat (spawned i s) \<and>
      h_count (connection_duration m) = connections_closed m \<and>
      upstream_connect_duration m = histogram_new \<and>
      m_name m = names ! i \<and> wf_metrics m)"

definition counters_inv :: "rstr list \<Rightarrow> 's server_state \<Rightarrow> bool" where
  "counters_inv names s \<longleftrightarrow> (\<forall>i<length names. counters_ok names i s)"

lemma closes_counters:
  assumes "closes m m'"
  shows "connections_accepted m' = connections_accepted m"
    "active_connections m' = active_connections m - 1"
    "connections_closed m' = connections_closed m + 1"
    "h_count (connection_duration m') = h_count (connection_duration m) + 1"
    "upstream_connect_duration m' = upstream_connect_duration m" "m_name m' = m_name m"
    "wf_metrics m' = wf_metrics m"
  using assms by (auto simp: closes_def metrics_defs observe_def wf_metrics_def wf_histogram_def)

lemma counters_frame:
  assumes "counters_inv names s" "sv_tasks s' = sv_tasks s" "sv_metrics s' = sv_metrics s"
  shows "counters_inv names s'"
  using assms by (simp add: counters_inv_def counters_ok_def spawned_def alive_def)

lemma counters_listener:
  assumes inv: "counters_inv names s" and n: "length (sv_metrics s) = length names" "i < length names"
    and step: "run_relay_listener ops rate i ev s = Some s'"
  shows "counters_inv names s'"
  using step
proof (cases rule: listener_step_cases)
  case (refuse ps)
  have "spawned j s' = spawned j s" "alive j s' = alive j s" for j
    by (simp_all add: refuse spawned_def alive_def)
  then show ?thesis using inv n
    by (auto simp: counters_inv_def counters_ok_def refuse nth_list_update Let_def rejected_def
        wf_metrics_def)
next
  case (spawn m ps)
  have "spawned j s' = spawned j s + (if j = i then 1 else 0)"
    "alive j s' = alive j s + (if j = i then 1 else 0)" for j
    by (simp_all add: spawn spawned_def alive_def spawn_connection_def Let_def)
  moreover have "sv_metrics s' = (sv_metrics s)[i := accepted (sv_metrics s ! i)]"
    by (simp add: spawn spawn_connection_def Let_def)
  ultimately show ?thesis using inv n
    by (auto simp: counters_inv_def counters_ok_def nth_list_update Let_def accepted_def
        wf_metrics_def algebra_simps)
qed ((rule counters_frame [OF inv]; simp)+)

lemma counters_task:
  assumes inv: "counters_inv names s" and w: "well_shaped limits (length names) s"
    and k: "k < length (sv_tasks s)" and step: "run_task ops k ev s = Some s'"
  shows "counters_inv names s'"
proof -
  let ?t = "sv_tasks s ! k"
  have r: "tk_relay ?t < length names" and len: "length (sv_metrics s) = length names"
    using w k by (auto simp: well_shaped_def)
  have upd: "spawned j (s\<lparr>sv_tasks := (sv_tasks s)[k := ?t\<lparr>tk_phase := ph\<rparr>]\<rparr>) = spawned j s"
    "alive j (s\<lparr>sv_tasks := (sv_tasks s)[k := ?t\<lparr>tk_phase := ph\<rparr>]\<rparr>) +
       of_bool (tk_relay ?t = j \<and> live (tk_phase ?t)) =
     alive j s + of_bool (tk_relay ?t = j \<and> live ph)" for j ph
    using length_filter_update [OF k, of "\<lambda>t. tk_relay t = j" "?t\<lparr>tk_phase := ph\<rparr>"]
      length_filter_update [OF k, of "\<lambda>t. tk_relay t = j \<and> live (tk_phase t)" "?t\<lparr>tk_phase := ph\<rparr>"]
    by (simp_all add: spawned_def alive_def)
  from step show ?thesis
  proof (cases rule: task_step_cases)
    case (stay rc gc rr g)
    have "spawned j s' = spawned j s" "alive j s' = alive j s" for j
      using upd(1) [of j] upd(2) [of j "Relaying [gc, rc] rr g"] stay by simp_all
    then show ?thesis using inv stay by (simp add: counters_inv_def counters_ok_def)
  next
    case (goes ph m events)
    have "spawned j s' = spawned j s" "alive j s' + of_bool (tk_relay ?t = j) = alive j s" for j
      using upd(1) [of j ph] upd(2) [of j ph] goes by (simp_all add: spawned_def alive_def)
    then have s: "spawned j s' = spawned j s"
      "(of_nat (alive j s) :: u64) = of_nat (alive j s') + of_bool (tk_relay ?t = j)" for j
      by (metis, metis of_nat_add of_nat_of_bool)
    have m: "sv_metrics s' ! j = (if j = tk_relay ?t then m else sv_metrics s ! j)" for j
      using goes r len by (simp add: nth_list_update)
    show ?thesis unfolding counters_inv_def
    proof (intro allI impI)
      fix j
      assume "j < length names"
      then have "counters_ok names j s" using inv by (simp add: counters_inv_def)
      then show "counters_ok names j s'"
        using closes_counters [OF goes(4)] s [of j] m [of j]
        by (cases "j = tk_relay ?t") (simp_all add: counters_ok_def Let_def algebra_simps)
    qed
  next
    case (drops ph p ps)
    have "spawned j s' = spawned j s" "alive j s' = alive j s" for j
      using upd(1) [of j ph] upd(2) [of j ph] drops by (simp_all add: spawned_def alive_def)
    then show ?thesis using inv drops by (simp add: counters_inv_def counters_ok_def)
  qed
qed

lemma run_server_frame:
  assumes "run_server ev s = Some s'"
  shows "sv_store s' = sv_store s" "sv_listeners s' = sv_listeners s" "sv_tasks s' = sv_tasks s"
    "sv_metrics s' = sv_metrics s" "sv_next_id s' = sv_next_id s" "sv_log s' = sv_log s"
  using assms by (auto simp: run_server_def split: run_phase.splits run_event.splits if_splits)

lemma counters_step:
  assumes "counters_inv names s" "well_shaped limits (length names) s" "server_step ops rate s s'"
  shows "counters_inv names s'"
  using assms(3)
proof (cases rule: server_step.cases)
  case (listener i event)
  have "length (sv_metrics s) = length names" "i < length names"
    using assms(2) listener(1) by (simp_all add: well_shaped_def)
  then show ?thesis by (rule counters_listener [OF assms(1) _ _ listener(2)])
next
  case (connection k event)
  then show ?thesis by (rule counters_task [OF assms(1,2)])
next
  case (run event)
  then show ?thesis using run_server_frame [OF run] by (intro counters_frame [OF assms(1)])
qed ((rule counters_frame [OF assms(1)]; simp)+)

section \<open>Connection ids and logging\<close>

fun number_of :: "listener_pc \<Rightarrow> u64 multiset" where
  "number_of (Numbered n ps) = {#n#}"
| "number_of _ = {#}"

text \<open>The ids of the connections that exist or are about to be spawned.\<close>

definition issued :: "'s server_state \<Rightarrow> u64 multiset" where
  "issued s = mset (map tk_id (sv_tasks s)) + sum_list (map number_of (sv_listeners s))"

text \<open>Ids count from 1, each is used once (until the 64-bit counter wraps around).\<close>

definition ids_inv :: "'s server_state \<Rightarrow> bool" where
  "ids_inv s \<longleftrightarrow>
     (\<exists>n. issued s = mset (map of_nat [1..<Suc n]) \<and> sv_next_id s = of_nat (Suc n))"

definition log_inv :: "usize \<Rightarrow> 's server_state \<Rightarrow> bool" where
  "log_inv rate s \<longleftrightarrow>
     (\<forall>t\<in>set (sv_tasks s). tk_log t = sampled rate (tk_id t)) \<and>
     (\<forall>e\<in>set (sv_log s). sampled rate (fst e))"

lemma ids_same: "ids_inv s \<Longrightarrow> issued s' = issued s \<Longrightarrow> sv_next_id s' = sv_next_id s \<Longrightarrow> ids_inv s'"
  by (simp add: ids_inv_def)

lemma issued_set_listener:
  assumes "i < length (sv_listeners s)"
  shows "issued (set_listener i pc s) + number_of (sv_listeners s ! i) = issued s + number_of pc"
  using sum_list_map_update [OF assms, of number_of pc]
  by (simp add: issued_def set_listener_def)

lemma number_of_empty: "\<nexists>n ps. pc = Numbered n ps \<Longrightarrow> number_of pc = {#}"
  by (cases pc) auto

lemma ids_listener:
  assumes inv: "ids_inv s" and i: "i < length (sv_listeners s)"
    and step: "run_relay_listener ops rate i ev s = Some s'"
  shows "ids_inv s'"
  using step
proof (cases rule: listener_step_cases)
  case (idle pc)
  then show ?thesis using issued_set_listener [OF i, of pc]
    by (intro ids_same [OF inv]) (simp_all add: number_of_empty)
next
  case (refuse ps)
  then show ?thesis using issued_set_listener [of i "count_metric i rejected s"] i
    by (intro ids_same [OF inv]) (simp_all add: issued_def)
next
  case (take_permit ps p store)
  then show ?thesis using issued_set_listener [of i "s\<lparr>sv_store := store\<rparr>"] i
    by (intro ids_same [OF inv]) (simp_all add: issued_def)
next
  case (number ps)
  obtain n where n: "issued s = mset (map of_nat [1..<Suc n])" "sv_next_id s = of_nat (Suc n)"
    using inv by (auto simp: ids_inv_def)
  have "issued s' = add_mset (sv_next_id s) (issued s)"
    using issued_set_listener [of i "s\<lparr>sv_next_id := sv_next_id s + 1\<rparr>"] i number
    by (simp add: issued_def)
  then have "issued s' = mset (map of_nat [1..<Suc (Suc n)])" using n by simp
  moreover have "sv_next_id s' = of_nat (Suc (Suc n))" using n number by simp
  ultimately show ?thesis unfolding ids_inv_def by blast
next
  case (give p ps)
  then show ?thesis
    using issued_set_listener [of i "s\<lparr>sv_store := drop_permit ops p (sv_store s)\<rparr>"] i
    by (intro ids_same [OF inv]) (simp_all add: issued_def)
next
  case (spawn n ps)
  let ?s = "spawn_connection rate i n ps s"
  have "issued ?s = add_mset n (issued s)" "sv_listeners ?s = sv_listeners s"
    "sv_next_id ?s = sv_next_id s"
    by (simp_all add: issued_def spawn_connection_def Let_def)
  then show ?thesis using issued_set_listener [of i ?s Accepting] i spawn
    by (intro ids_same [OF inv]) simp_all
qed

lemma map_id_update:
  "k < length ts \<Longrightarrow> map tk_id (ts[k := (ts ! k)\<lparr>tk_phase := ph\<rparr>]) = map tk_id ts"
  by (rule nth_equalityI) (auto simp: nth_list_update)

lemma ids_step:
  assumes "ids_inv s" "server_step ops rate s s'"
  shows "ids_inv s'"
  using assms(2)
proof (cases rule: server_step.cases)
  case (listener i event)
  then show ?thesis by (intro ids_listener [OF assms(1)])
next
  case (connection k event)
  from connection(2) have "issued s' = issued s \<and> sv_next_id s' = sv_next_id s"
    by (cases rule: task_step_cases) (simp_all add: issued_def map_id_update [OF connection(1)])
  then show ?thesis using ids_same [OF assms(1)] by blast
next
  case (run event)
  then show ?thesis using run_server_frame [OF run]
    by (intro ids_same [OF assms(1)]) (simp_all add: issued_def)
qed ((rule ids_same [OF assms(1)]; simp add: issued_def)+)

lemma log_same:
  "log_inv rate s \<Longrightarrow> sv_tasks s' = sv_tasks s \<Longrightarrow> sv_log s' = sv_log s \<Longrightarrow> log_inv rate s'"
  by (simp add: log_inv_def)

lemma log_listener:
  assumes inv: "log_inv rate s" and step: "run_relay_listener ops rate i ev s = Some s'"
  shows "log_inv rate s'"
  using step
proof (cases rule: listener_step_cases)
  case (spawn n ps)
  then show ?thesis using inv
    by (auto simp: log_inv_def spawn_connection_def Let_def log_if_def)
qed ((rule log_same [OF inv]; simp add: count_metric_def)+)

lemma log_step:
  assumes inv: "log_inv rate s" and step: "server_step ops rate s s'"
  shows "log_inv rate s'"
  using step
proof (cases rule: server_step.cases)
  case (listener i event)
  then show ?thesis by (intro log_listener [OF inv])
next
  case (connection k event)
  let ?t = "sv_tasks s ! k"
  have t: "tk_log ?t = sampled rate (tk_id ?t)" using inv connection(1) by (simp add: log_inv_def)
  have tasks: "tk_log t = sampled rate (tk_id t)"
    if "t \<in> set ((sv_tasks s)[k := ?t\<lparr>tk_phase := ph\<rparr>])" for t ph
    using that inv t by (auto simp: log_inv_def dest!: set_update_subset_insert [THEN subsetD])
  from connection(2) show ?thesis
  proof (cases rule: task_step_cases)
    case (goes ph m events)
    have "sampled rate (fst e)" if "e \<in> set (map (Pair (tk_id ?t)) events)" for e
      using that goes(5) t by (cases "tk_log ?t") auto
    then show ?thesis using inv tasks goes by (auto simp: log_inv_def)
  qed (use inv tasks in \<open>auto simp: log_inv_def\<close>)
next
  case (run event)
  then show ?thesis using run_server_frame [OF run] by (intro log_same [OF inv])
qed ((rule log_same [OF inv]; simp)+)

section \<open>Shutdown\<close>

definition shutdown_inv :: "'s server_state \<Rightarrow> bool" where
  "shutdown_inv s \<longleftrightarrow>
     (sv_run s \<noteq> Serving \<longrightarrow> sv_shutdown s) \<and>
     (sv_force s \<longleftrightarrow> sv_run s = Forcing \<or> sv_run s = Complete False) \<and>
     (\<forall>b. sv_run s = Complete b \<longrightarrow> listeners_joined s) \<and>
     (sv_run s = Complete True \<longrightarrow> tasks_drained s) \<and>
     (\<forall>pc\<in>set (sv_listeners s). pc = Stopped \<longrightarrow> sv_shutdown s)"

lemma joined_listener:
  assumes "run_relay_listener ops rate i ev s = Some s'" "i < length (sv_listeners s)"
  shows "\<not> listeners_joined s"
proof -
  have "sv_listeners s ! i \<noteq> Stopped" using assms(1) by (auto simp: run_relay_listener_def)
  then show ?thesis using assms(2) nth_mem [OF assms(2)]
    by (auto simp: listeners_joined_def list_all_iff)
qed

lemma finished_no_step: "finished ph \<Longrightarrow> handle_connection ops force lc ev ph m st = None"
  by (cases ev) (simp_all add: finished_def)

lemma drained_task:
  assumes "run_task ops k ev s = Some s'" "k < length (sv_tasks s)"
  shows "\<not> tasks_drained s"
proof -
  have "\<not> finished (tk_phase (sv_tasks s ! k))"
  proof
    assume "finished (tk_phase (sv_tasks s ! k))"
    then show False using assms(1) by (simp add: run_task_def Let_def finished_no_step)
  qed
  then show ?thesis using nth_mem [OF assms(2)] by (auto simp: tasks_drained_def list_all_iff)
qed

lemma listener_flags:
  assumes "run_relay_listener ops rate i ev s = Some s'"
  shows "sv_run s' = sv_run s \<and> sv_shutdown s' = sv_shutdown s \<and> sv_force s' = sv_force s \<and>
     (\<exists>pc. sv_listeners s' = (sv_listeners s)[i := pc] \<and> (pc = Stopped \<longrightarrow> sv_shutdown s))"
  using assms
  by (cases rule: listener_step_cases)
    (auto simp: spawn_connection_def Let_def count_metric_def)

lemma shutdown_step:
  assumes inv: "shutdown_inv s" and step: "server_step ops rate s s'"
  shows "shutdown_inv s'"
  using step
proof (cases rule: server_step.cases)
  case (listener i event)
  have "\<not> listeners_joined s" using joined_listener listener by blast
  then have "sv_run s \<noteq> Complete b" for b using inv by (auto simp: shutdown_inv_def)
  then show ?thesis using listener_flags [OF listener(2)] inv
    by (auto simp: shutdown_inv_def dest!: set_update_subset_insert [THEN subsetD])
next
  case (connection k event)
  have "\<not> tasks_drained s" using drained_task connection by blast
  moreover from connection(2) have "sv_run s' = sv_run s \<and> sv_shutdown s' = sv_shutdown s \<and>
      sv_force s' = sv_force s \<and> sv_listeners s' = sv_listeners s \<and> sv_helpers s' = sv_helpers s"
    by (cases rule: task_step_cases) simp_all
  ultimately show ?thesis using inv by (auto simp: shutdown_inv_def listeners_joined_def)
next
  case (run event)
  then show ?thesis using inv
    by (auto simp: run_server_def shutdown_inv_def listeners_joined_def tasks_drained_def
        split: run_phase.splits run_event.splits if_splits)
next
  case page_open
  then show ?thesis using inv
    by (auto simp: shutdown_inv_def listeners_joined_def tasks_drained_def)
next
  case page_close
  then show ?thesis using inv
    by (auto simp: shutdown_inv_def listeners_joined_def tasks_drained_def)
next
  case helper
  then show ?thesis using inv
    by (auto simp: shutdown_inv_def listeners_joined_def tasks_drained_def)
next
  case shutdown
  then show ?thesis using inv
    by (auto simp: shutdown_inv_def listeners_joined_def tasks_drained_def)
qed

end
