(* ===== verification/Relay_Admission.thy ===== *)
theory Relay_Admission
  imports Relay_Counters
begin

text \<open>
  Admission and shutdown of the server machine as runs: a listener that runs undisturbed does
  exactly what the sequential all-or-nothing acquisition \<open>acquire_all\<close> does, a forced task
  can always move on, and every step of a listener brings a shutdown closer.
\<close>

section \<open>Admission as a sequential computation\<close>

definition alone :: "nat \<Rightarrow> nat \<Rightarrow> action list" where
  "alone i k = replicate k (Listener i Proceed)"

lemma alone_Suc: "alone i (Suc k) = Listener i Proceed # alone i k"
  by (simp add: alone_def)

lemma set_listener_twice [simp]:
  "set_listener i b (set_listener i a s) = set_listener i b s"
  by (simp add: set_listener_def)

lemma set_listener_store [simp]:
  "(set_listener i a s)\<lparr>sv_store := st\<rparr> = set_listener i a (s\<lparr>sv_store := st\<rparr>)"
  by (simp add: set_listener_def)

lemma rejecting_alone:
  assumes "i < length (sv_listeners s)" "sv_listeners s ! i = Rejecting ps"
  shows "perform_all ops rate (alone i (Suc (length ps))) s =
         Some (set_listener i Accepting (s\<lparr>sv_store := give_back_all (drop_permit ops) ps (sv_store s)\<rparr>))"
  using assms
proof (induction ps arbitrary: s)
  case Nil
  then show ?case by (simp add: alone_def run_relay_listener_def)
next
  case (Cons p ps)
  let ?s = "set_listener i (Rejecting ps) (s\<lparr>sv_store := drop_permit ops p (sv_store s)\<rparr>)"
  have "run_relay_listener ops rate i Proceed s = Some ?s"
    using Cons.prems by (simp add: run_relay_listener_def)
  moreover have "perform_all ops rate (alone i (Suc (length ps))) ?s =
      Some (set_listener i Accepting (?s\<lparr>sv_store := give_back_all (drop_permit ops) ps (sv_store ?s)\<rparr>))"
    using Cons.prems by (intro Cons.IH) simp_all
  ultimately show ?case using Cons.prems by (simp add: alone_Suc)
qed

lemma next_limit:
  assumes "l # ls = drop k (limits_of i)"
  shows "k < 4 \<and> l = limits_of i ! k \<and> ls = drop (Suc k) (limits_of i)"
proof -
  have len: "length (limits_of i) = 4" by (simp add: limits_of_def)
  then have "k < 4" using assms by (metis drop_all list.distinct(1) not_le)
  moreover from this len have "drop k (limits_of i) = limits_of i ! k # drop (Suc k) (limits_of i)"
    by (intro Cons_nth_drop_Suc [symmetric]) simp
  ultimately show ?thesis using assms by simp
qed

text \<open>A listener that finds a limit exhausted counts the rejection and gives back what it has.\<close>

lemma refusing_alone:
  assumes "i < length (sv_listeners s)" "sv_listeners s ! i = Admitting ps" "length ps < 4"
    "acquire_permit ops (limits_of i ! length ps) (sv_store s) = Inl u"
  shows "perform_all ops rate (alone i (Suc (Suc (length ps)))) s =
    Some (set_listener i Accepting ((count_metric i rejected s)
      \<lparr>sv_store := give_back_all (drop_permit ops) (rev ps) (sv_store s)\<rparr>))"
proof -
  let ?s = "set_listener i (Rejecting (rev ps)) (count_metric i rejected s)"
  have "run_relay_listener ops rate i Proceed s = Some ?s"
    using assms by (simp add: run_relay_listener_def limits_of_def)
  moreover have "perform_all ops rate (alone i (Suc (length (rev ps)))) ?s =
      Some (set_listener i Accepting (?s\<lparr>sv_store := give_back_all (drop_permit ops) (rev ps) (sv_store ?s)\<rparr>))"
    using assms(1) by (intro rejecting_alone) simp_all
  ultimately show ?thesis using assms(1) by (simp add: alone_Suc)
qed

lemma admitting_alone:
  assumes "i < length (sv_listeners s)" "sv_listeners s ! i = Admitting ps"
    "ls = drop (length ps) (limits_of i)" "length ps \<le> 4"
    "acquire_all (acquire_permit ops) (drop_permit ops) ls ps (sv_store s) = (res, st)"
  shows "case res of
      None \<Rightarrow> (\<exists>k. perform_all ops rate (alone i k) s =
                Some (set_listener i Accepting ((count_metric i rejected s)\<lparr>sv_store := st\<rparr>)))
    | Some qs \<Rightarrow> length qs = 4 \<and>
        perform_all ops rate (alone i (length ls)) s =
          Some (set_listener i (Admitting qs) (s\<lparr>sv_store := st\<rparr>))"
  using assms
proof (induction ls arbitrary: s ps)
  case Nil
  then have "length ps = 4" by (simp add: limits_of_def)
  moreover have "set_listener i (Admitting ps) s = s"
    using Nil.prems by (simp add: set_listener_def list_update_same_conv)
  ultimately show ?case using Nil.prems by (auto simp: alone_def)
next
  case (Cons l ls)
  have l: "length ps < 4" "l = limits_of i ! length ps" "ls = drop (Suc (length ps)) (limits_of i)"
    using next_limit [OF Cons.prems(3)] by simp_all
  show ?case
  proof (cases "acquire_permit ops l (sv_store s)")
    case (Inl u)
    then show ?thesis
      using refusing_alone [OF Cons.prems(1,2) l(1), of ops u rate] l(2) Cons.prems(5) by auto
  next
    case (Inr r)
    obtain p st1 where r: "r = (p, st1)" by (cases r)
    let ?s = "set_listener i (Admitting (ps @ [p])) (s\<lparr>sv_store := st1\<rparr>)"
    have run: "run_relay_listener ops rate i Proceed s = Some ?s"
      using Cons.prems(2) l(1,2) Inr r by (simp add: run_relay_listener_def limits_of_def)
    have ih: "case res of
        None \<Rightarrow> (\<exists>k. perform_all ops rate (alone i k) ?s =
                  Some (set_listener i Accepting ((count_metric i rejected ?s)\<lparr>sv_store := st\<rparr>)))
      | Some qs \<Rightarrow> length qs = 4 \<and> perform_all ops rate (alone i (length ls)) ?s =
            Some (set_listener i (Admitting qs) (?s\<lparr>sv_store := st\<rparr>))"
      using Cons.prems(1,5) l Inr r by (intro Cons.IH) simp_all
    have same: "set_listener i Accepting ((count_metric i rejected ?s)\<lparr>sv_store := st\<rparr>) =
        set_listener i Accepting ((count_metric i rejected s)\<lparr>sv_store := st\<rparr>)"
      by (simp add: set_listener_def count_metric_def)
    have first: "perform_all ops rate (alone i (Suc k)) s = perform_all ops rate (alone i k) ?s" for k
      using run Cons.prems(1) by (simp add: alone_Suc)
    show ?thesis using ih unfolding same length_Cons first [symmetric]
      by (cases res) (auto simp: set_listener_def)
  qed
qed

text \<open>A listener with all four permits takes a number and spawns the task.\<close>

lemma admitted_alone:
  assumes "i < length (sv_listeners s)" "sv_listeners s ! i = Admitting qs" "length qs = 4"
  shows "perform_all ops rate (alone i 2) s =
    Some (set_listener i Accepting (spawn_connection rate i (sv_next_id s) qs
      (set_listener i (Numbered (sv_next_id s) qs) (s\<lparr>sv_next_id := sv_next_id s + 1\<rparr>))))"
proof -
  let ?s = "set_listener i (Numbered (sv_next_id s) qs) (s\<lparr>sv_next_id := sv_next_id s + 1\<rparr>)"
  have "run_relay_listener ops rate i Proceed s = Some ?s"
    using assms by (simp add: run_relay_listener_def limits_of_def)
  moreover have "run_relay_listener ops rate i Proceed ?s =
      Some (set_listener i Accepting (spawn_connection rate i (sv_next_id s) qs ?s))"
    using assms(1) by (simp add: run_relay_listener_def)
  ultimately show ?thesis using assms(1) by (simp add: alone_def numeral_2_eq_2)
qed

section \<open>Forced tasks\<close>

lemma forced_task_step:
  assumes "sv_force s" "k < length (sv_tasks s)" "\<not> finished (tk_phase (sv_tasks s ! k))"
  shows "\<exists>ev s'. run_task ops k ev s = Some s' \<and> sv_force s' \<and> length (sv_tasks s') = length (sv_tasks s) \<and>
     remaining_steps (tk_phase (sv_tasks s ! k)) = Suc (remaining_steps (tk_phase (sv_tasks s' ! k)))"
proof -
  let ?t = "sv_tasks s ! k"
  obtain ph m st events where h: "handle_connection ops True (tk_log ?t)
      (forced_event (tk_phase ?t) undefined) (tk_phase ?t) (sv_metrics s ! tk_relay ?t) (sv_store s) =
      Some (ph, m, st, events)" "remaining_steps (tk_phase ?t) = Suc (remaining_steps ph)"
    using forced_step [OF assms(3)] by blast
  then show ?thesis using assms
    by (intro exI [of _ "forced_event (tk_phase ?t) undefined"]) (auto simp: run_task_def Let_def)
qed

section \<open>A listener that has to stop\<close>

fun stop_steps :: "listener_pc \<Rightarrow> nat" where
  "stop_steps Stopped = 0"
| "stop_steps (Rejecting ps) = length ps + 2"
| "stop_steps (Numbered n ps) = 2"
| "stop_steps (Admitting ps) = (10 - length ps) + 3"
| "stop_steps BackingOff = 2"
| "stop_steps _ = 1"

lemma listener_progress:
  assumes "sv_shutdown s" "i < length (sv_listeners s)" "sv_listeners s ! i \<noteq> Stopped"
  shows "\<exists>s' pc. run_relay_listener ops rate i SeeShutdown s = Some s' \<and> sv_shutdown s' \<and>
           sv_helpers s' = sv_helpers s \<and> sv_listeners s' = (sv_listeners s)[i := pc] \<and>
           stop_steps pc < stop_steps (sv_listeners s ! i)"
proof (cases "sv_listeners s ! i")
  case (Admitting ps)
  show ?thesis
  proof (cases "length ps < 4")
    case True
    show ?thesis
    proof (cases "acquire_permit ops (limits_of i ! length ps) (sv_store s)")
      case (Inl u)
      then show ?thesis using assms Admitting True
        by (auto simp: run_relay_listener_def limits_of_def count_metric_def)
    next
      case (Inr r)
      then show ?thesis using assms Admitting True
        by (cases r) (auto simp: run_relay_listener_def limits_of_def
            intro!: exI [of _ "Admitting (ps @ [fst r])"])
    qed
  next
    case False
    then show ?thesis using assms Admitting
      by (auto simp: run_relay_listener_def limits_of_def)
  qed
next
  case (Rejecting ps)
  then show ?thesis using assms by (cases ps) (auto simp: run_relay_listener_def)
next
  case (Numbered n ps)
  then show ?thesis using assms
    by (auto simp: run_relay_listener_def spawn_connection_def Let_def)
qed (use assms in \<open>auto simp: run_relay_listener_def\<close>)

end
