(* ===== verification/Relay_Correctness.thy ===== *)
theory Relay_Correctness
  imports Relay_Admission
begin

text \<open>
  What the server promises, for every reachable state of the machine: the limits hold, no
  permit is lost, the counters mean what they say, admission is all or nothing, and shutdown
  leaves nothing behind. The hypotheses are the laws of the semaphores and that tokio can
  represent the configured limits.
\<close>

section \<open>A server with representable limits\<close>

definition server_inv ::
  "'s semaphore_ops \<Rightarrow> usize \<Rightarrow> (sem_id \<Rightarrow> nat option) \<Rightarrow> rstr list \<Rightarrow> 's server_state \<Rightarrow> bool" where
  "server_inv ops rate limits names s \<longleftrightarrow>
     permits_inv ops limits (length names) s \<and> counters_inv names s \<and> ids_inv s \<and>
     log_inv rate s \<and> shutdown_inv s"

text \<open>Limits for which \<open>Semaphore::new\<close> does not panic.\<close>

definition representable :: "(sem_id \<Rightarrow> nat option) \<Rightarrow> bool" where
  "representable limits \<longleftrightarrow> (\<forall>i n. limits i = Some n \<longrightarrow> n \<le> MAX_PERMITS)"

locale running_server = semaphore ops for ops :: "'s semaphore_ops" +
  fixes rate :: usize and limits :: "sem_id \<Rightarrow> nat option" and names :: "rstr list"
    and helpers :: nat
  assumes representable: "representable limits"
begin

lemma initial_free: "free_permits ops (initial_store ops limits) = limits"
proof
  fix i
  show "free_permits ops (initial_store ops limits) i = limits i"
  proof (cases "limits i")
    case None
    then show ?thesis by (simp add: free_permits_def initial_store_def)
  next
    case (Some n)
    then obtain s where "sem_new ops n = Some s"
      using new_None [of n] representable Some
      by (cases "sem_new ops n") (force simp: representable_def not_less)+
    then show ?thesis using Some new_Some by (simp add: free_permits_def initial_store_def)
  qed
qed

lemma initial_inv: "server_inv ops rate limits names (initial_state ops limits names helpers)"
proof -
  let ?s = "initial_state ops limits names helpers"
  have "held i ?s = 0" for i
    by (simp add: held_def held_by_listeners_def held_by_tasks_def initial_state_def comp_def)
  then have "conserved ops limits ?s"
    using initial_free by (simp add: conserved_def initial_state_def option.map_id0 id_def
        option.map_ident)
  moreover have "well_shaped limits (length names) ?s"
    by (simp add: well_shaped_def initial_state_def listener_ok_def)
  moreover have "counters_inv names ?s"
    by (simp add: counters_inv_def counters_ok_def spawned_def alive_def initial_state_def
        metrics_new_def histogram_new_def Let_def wf_metrics_def wf_histogram_def)
  moreover have "sum_list (map (number_of \<circ> (\<lambda>_. Accepting)) names) = {#}"
    by (induction names) auto
  then have "ids_inv ?s"
    unfolding ids_inv_def by (intro exI [of _ 0]) (simp add: issued_def initial_state_def)
  ultimately show ?thesis
    by (simp add: server_inv_def permits_inv_def log_inv_def shutdown_inv_def initial_state_def
        listeners_joined_def)
qed

lemma inv_step:
  assumes "server_inv ops rate limits names s" "server_step ops rate s s'"
  shows "server_inv ops rate limits names s'"
proof -
  have w: "well_shaped limits (length names) s" and p: "permits_inv ops limits (length names) s"
    using assms(1) by (simp_all add: server_inv_def permits_inv_def)
  show ?thesis using assms(1) step_permits [OF p assms(2)] counters_step [OF _ w assms(2)]
      ids_step [OF _ assms(2)] log_step [OF _ assms(2)] shutdown_step [OF _ assms(2)]
    unfolding server_inv_def by blast
qed

end

sublocale running_server \<subseteq>
  server: invariant_of "server_step ops rate" "initial_state ops limits names helpers"
    "server_inv ops rate limits names"
  by unfold_locales (rule initial_inv, rule inv_step)

text \<open>A relay with all four limits, on counting semaphores.\<close>

definition example_limits :: "sem_id \<Rightarrow> nat option" where
  "example_limits i = Some 2"

interpretation example_server: running_server counting_ops 1 example_limits "[lit ''db'']" 0
  by unfold_locales (simp add: representable_def example_limits_def MAX_PERMITS_def)

section \<open>Limits\<close>

definition live_tasks :: "'s server_state \<Rightarrow> nat" where
  "live_tasks s = length (filter (\<lambda>t. live (tk_phase t)) (sv_tasks s))"

definition connecting_tasks :: "'s server_state \<Rightarrow> nat" where
  "connecting_tasks s = length (filter (\<lambda>t. connecting (tk_phase t)) (sv_tasks s))"

definition connecting_of :: "nat \<Rightarrow> 's server_state \<Rightarrow> nat" where
  "connecting_of i s =
     length (filter (\<lambda>t. tk_relay t = i \<and> connecting (tk_phase t)) (sv_tasks s))"

lemma task_ok_holds:
  assumes "task_ok limits t"
  shows "live (tk_phase t) \<Longrightarrow> limits GlobalLimit = Some n \<Longrightarrow>
           1 \<le> count_list (task_held (tk_phase t)) (Some GlobalLimit)"
    "live (tk_phase t) \<Longrightarrow> limits (RelayLimit (tk_relay t)) = Some n \<Longrightarrow>
           1 \<le> count_list (task_held (tk_phase t)) (Some (RelayLimit (tk_relay t)))"
    "connecting (tk_phase t) \<Longrightarrow> limits GlobalConnecting = Some n \<Longrightarrow>
           1 \<le> count_list (task_held (tk_phase t)) (Some GlobalConnecting)"
    "connecting (tk_phase t) \<Longrightarrow> limits (RelayConnecting (tk_relay t)) = Some n \<Longrightarrow>
           1 \<le> count_list (task_held (tk_phase t)) (Some (RelayConnecting (tk_relay t)))"
  using assms by (cases "tk_phase t"; simp add: task_ok_def limits_of_def permit_for_def)+

lemma held_bounded:
  assumes "conserved ops limits s" "limits i = Some n"
  shows "held_by_tasks i s \<le> n"
proof -
  have "map_option (\<lambda>n. n + held i s) (free_permits ops (sv_store s) i) = Some n"
    using assms by (simp add: conserved_def)
  then show ?thesis by (auto simp: held_def)
qed

lemma counted_by_held:
  assumes "\<And>t. t \<in> set (sv_tasks s) \<Longrightarrow> P t \<Longrightarrow> 1 \<le> count_list (task_held (tk_phase t)) (Some i)"
    "conserved ops limits s" "limits i = Some n"
  shows "length (filter P (sv_tasks s)) \<le> n"
proof -
  have "length (filter P (sv_tasks s)) \<le> held_by_tasks i s"
    unfolding held_by_tasks_def by (rule length_filter_le_sum) (rule assms(1))
  then show ?thesis using held_bounded [OF assms(2,3)] by simp
qed

context running_server
begin

lemma reachable_inv: "reachable ops rate limits names helpers s \<Longrightarrow> server_inv ops rate limits names s"
  unfolding reachable_def by (rule server.holds)

lemma limits_hold:
  assumes "reachable ops rate limits names helpers s"
  shows "limits GlobalLimit = Some n \<Longrightarrow> live_tasks s \<le> n"
    "limits (RelayLimit i) = Some n \<Longrightarrow> alive i s \<le> n"
    "limits GlobalConnecting = Some n \<Longrightarrow> connecting_tasks s \<le> n"
    "limits (RelayConnecting i) = Some n \<Longrightarrow> connecting_of i s \<le> n"
proof -
  have c: "conserved ops limits s" and ok: "t \<in> set (sv_tasks s) \<Longrightarrow> task_ok limits t" for t
    using reachable_inv [OF assms] by (auto simp: server_inv_def permits_inv_def well_shaped_def)
  show "limits GlobalLimit = Some n \<Longrightarrow> live_tasks s \<le> n"
    unfolding live_tasks_def by (rule counted_by_held [OF _ c, where i = "GlobalLimit"]) (use task_ok_holds(1) [OF ok] in blast)+
  show "limits (RelayLimit i) = Some n \<Longrightarrow> alive i s \<le> n"
    unfolding alive_def by (rule counted_by_held [OF _ c, where i = "RelayLimit i"]) (use task_ok_holds(2) [OF ok] in blast)+
  show "limits GlobalConnecting = Some n \<Longrightarrow> connecting_tasks s \<le> n"
    unfolding connecting_tasks_def by (rule counted_by_held [OF _ c, where i = "GlobalConnecting"]) (use task_ok_holds(3) [OF ok] in blast)+
  show "limits (RelayConnecting i) = Some n \<Longrightarrow> connecting_of i s \<le> n"
    unfolding connecting_of_def by (rule counted_by_held [OF _ c, where i = "RelayConnecting i"]) (use task_ok_holds(4) [OF ok] in blast)+
qed

end

section \<open>Runs to look at\<close>

text \<open>One client is accepted, passes the four limits and gets its task.\<close>

definition admit_actions :: "action list" where
  "admit_actions =
     [Listener 0 AcceptOk, Listener 0 Proceed, Listener 0 Proceed, Listener 0 Proceed,
      Listener 0 Proceed, Listener 0 Proceed, Listener 0 Proceed, Listener 0 Proceed]"

lemmas run_defs = run_relay_listener_def set_listener_def count_metric_def spawn_connection_def
  limits_of_def acquire_permit_def drop_permit_def counting_ops_def initial_state_def
  initial_store_def example_limits_def MAX_PERMITS_def log_if_def sampled_def run_task_def
  connect_phase_def transfer_phase_def run_server_def listeners_joined_def tasks_drained_def
  finished_def

definition example_start :: "nat server_state" where
  "example_start = initial_state counting_ops example_limits [lit ''db''] 0"

lemma admitted_run:
  "\<exists>s. perform_all counting_ops 1 admit_actions example_start = Some s \<and>
       live_tasks s = 1 \<and> alive 0 s = 1 \<and> sv_run s = Serving"
  by (simp add: admit_actions_def example_start_def run_defs live_tasks_def alive_def
      Let_def)

text \<open>An idle relay is told to stop and stops; then a connected client during a shutdown whose
  deadline passes.\<close>

definition stop_actions :: "action list" where
  "stop_actions = [Signal, Listener 0 Proceed, Run JoinAll, Run JoinAll]"

lemma stopped_run:
  "\<exists>s. perform_all counting_ops 1 stop_actions example_start = Some s \<and> sv_run s = Complete True"
  by (simp add: stop_actions_def example_start_def run_defs Let_def)

lemma example_reachable:
  assumes "perform_all counting_ops 1 as example_start = Some s"
  shows "reachable counting_ops 1 example_limits [lit ''db''] 0 s"
  using perform_all_steps [OF assms] by (simp add: reachable_def example_start_def)

lemma example_representable: "representable example_limits"
  by (rule example_server.representable)

section \<open>Properties: permits and limits\<close>

lemma running_serverI:
  assumes "semaphore ops" "representable limits"
  shows "running_server ops limits"
  using assms by (simp add: running_server_def running_server_axioms_def)

text \<open>
  C6. No permit is ever lost or duplicated: in every reachable state the free permits of each
  configured limit and those the listeners and connection tasks own add up to the limit, and
  a limit that is not configured has no semaphore.
\<close>

theorem permits_conserved:
  assumes "semaphore ops" "representable limits"
    "reachable ops rate limits names helpers s"
  shows "case limits i of
           None \<Rightarrow> free_permits ops (sv_store s) i = None
         | Some n \<Rightarrow> \<exists>unused. free_permits ops (sv_store s) i = Some unused \<and> unused + held i s = n"
proof -
  have "conserved ops limits s"
    using running_server.reachable_inv [OF running_serverI [OF assms(1,2)] assms(3)]
    by (simp add: server_inv_def permits_inv_def)
  then have "limits i = map_option (\<lambda>n. n + held i s) (free_permits ops (sv_store s) i)"
    by (simp add: conserved_def)
  then show ?thesis by (cases "free_permits ops (sv_store s) i") auto
qed

lemma permits_conserved_witness:
  "\<exists>s unused. perform_all counting_ops 1 admit_actions example_start = Some s \<and>
     free_permits counting_ops (sv_store s) GlobalLimit = Some unused \<and> unused + held GlobalLimit s = 2"
proof -
  obtain s where s: "perform_all counting_ops 1 admit_actions example_start = Some s"
    using admitted_run by blast
  from permits_conserved [OF counting.semaphore_axioms example_representable example_reachable [OF s],
      of GlobalLimit]
  show ?thesis using s by (auto simp: example_limits_def)
qed

section \<open>Properties: counters, ids and logs\<close>

lemma unat_small: "n < 2 ^ 64 \<Longrightarrow> unat (of_nat n :: u64) = n"
  by (rule unat_of_nat_count)



lemma distinct_submset:
  assumes "mset xs \<subseteq># mset ys" "distinct ys"
  shows "distinct xs"
proof -
  have "count (mset xs) x \<le> of_bool (x \<in> set xs)" for x
  proof -
    have "count (mset xs) x \<le> count (mset ys) x" using assms(1) by (rule mset_subset_eq_count)
    also have "\<dots> \<le> 1" using assms(2) by (simp add: distinct_count_atmost_1)
    finally show ?thesis by (cases "x \<in> set xs") (simp_all add: count_eq_zero_iff)
  qed
  moreover have "1 \<le> count (mset xs) x" if "x \<in> set xs" for x
    using that by (simp add: Suc_le_eq count_greater_zero_iff)
  ultimately show ?thesis
    unfolding distinct_count_atmost_1 by (metis antisym not_in_iff of_bool_eq(1,2) set_mset_mset)
qed

lemma distinct_ids: "n < 2 ^ 64 \<Longrightarrow> distinct (map of_nat [1..<Suc n] :: u64 list)"
  by (auto simp: distinct_map inj_on_def word_unat_eq_iff unat_of_nat take_bit_nat_eq_self)



section \<open>Properties: admission\<close>

context semaphore
begin

lemma acquire_in_order:
  assumes "distinct ls"
  shows "\<exists>st'. acquire_all (acquire_permit ops) (drop_permit ops) ls [] st =
      (if \<exists>l\<in>set ls. free_permits ops st l = Some 0 then None
       else Some (map (permit_for (free_permits ops st)) ls), st') \<and>
    free_permits ops st' =
      (if \<exists>l\<in>set ls. free_permits ops st l = Some 0 then free_permits ops st
       else after_taking (set ls) (free_permits ops st))"
  by (rule acquire_all_spec [of "[]" ls st "free_permits ops st", unfolded append_Nil list.map list.set])
    (simp_all add: assms after_taking_def)

end

text \<open>
  C5. Admission is all or nothing. A listener that runs undisturbed after its shutdown check
  rejects its client exactly when one of the four limits is exhausted, and then nothing has
  changed but the rejected counter; otherwise it takes one permit of every configured limit
  and spawns one task, which owns them, under the next connection id.
\<close>

theorem admission_all_or_nothing:
  assumes "semaphore ops" "i < length (sv_listeners s)" "sv_listeners s ! i = Admitting []"
  shows "if \<exists>l\<in>set (limits_of i). free_permits ops (sv_store s) l = Some 0
    then \<exists>k s'. perform_all ops rate (alone i k) s = Some s' \<and>
      sv_listeners s' = (sv_listeners s)[i := Accepting] \<and> sv_tasks s' = sv_tasks s \<and>
      free_permits ops (sv_store s') = free_permits ops (sv_store s) \<and>
      sv_metrics s' = (sv_metrics s)[i := rejected (sv_metrics s ! i)] \<and>
      sv_next_id s' = sv_next_id s
    else \<exists>s' t. perform_all ops rate (alone i 6) s = Some s' \<and>
      sv_listeners s' = (sv_listeners s)[i := Accepting] \<and> sv_tasks s' = sv_tasks s @ [t] \<and>
      tk_relay t = i \<and> tk_id t = sv_next_id s \<and> connecting (tk_phase t) \<and>
      task_held (tk_phase t) =
        rev (map (permit_for (free_permits ops (sv_store s))) (limits_of i)) \<and>
      free_permits ops (sv_store s') =
        after_taking (set (limits_of i)) (free_permits ops (sv_store s)) \<and>
      sv_metrics s' = (sv_metrics s)[i := accepted (sv_metrics s ! i)] \<and>
      sv_next_id s' = sv_next_id s + 1"
proof -
  let ?f = "free_permits ops (sv_store s)" and ?acquire = "acquire_all (acquire_permit ops) (drop_permit ops)"
  have "distinct (limits_of i)" by (simp add: limits_of_def)
  with semaphore.acquire_in_order [OF assms(1), of "limits_of i" "sv_store s"]
  obtain st where st: "?acquire (limits_of i) [] (sv_store s) =
      (if \<exists>l\<in>set (limits_of i). ?f l = Some 0 then None else Some (map (permit_for ?f) (limits_of i)), st)"
    "free_permits ops st =
      (if \<exists>l\<in>set (limits_of i). ?f l = Some 0 then ?f else after_taking (set (limits_of i)) ?f)"
    by blast
  note run = admitting_alone [OF assms(2,3) _ _ st(1), of rate, simplified]
  show ?thesis
  proof (cases "\<exists>l\<in>set (limits_of i). ?f l = Some 0")
    case True
    then obtain k where "perform_all ops rate (alone i k) s =
        Some (set_listener i Accepting ((count_metric i rejected s)\<lparr>sv_store := st\<rparr>))"
      using run by auto
    then show ?thesis unfolding if_P [OF True]
      by (intro exI [of _ k] exI [of _ "set_listener i Accepting ((count_metric i rejected s)\<lparr>sv_store := st\<rparr>)"])
        (use True st(2) in \<open>simp add: count_metric_def\<close>)
  next
    case False
    let ?qs = "map (permit_for ?f) (limits_of i)"
    let ?s1 = "set_listener i (Admitting ?qs) (s\<lparr>sv_store := st\<rparr>)"
    let ?s3 = "set_listener i Accepting (spawn_connection rate i (sv_next_id s) ?qs
        (set_listener i (Numbered (sv_next_id s) ?qs) (?s1\<lparr>sv_next_id := sv_next_id s + 1\<rparr>)))"
    have "length (limits_of i) = 4" by (simp add: limits_of_def)
    then have "perform_all ops rate (alone i 4) s = Some ?s1" "perform_all ops rate (alone i 2) ?s1 = Some ?s3"
      using run False admitted_alone [of i ?s1 ?qs ops rate] assms(2) by simp_all
    moreover have "alone i 6 = alone i 4 @ alone i 2" by (simp add: alone_def flip: replicate_add)
    ultimately have "perform_all ops rate (alone i 6) s = Some ?s3" by (simp add: perform_all_append)
    moreover have "[?qs ! 3, ?qs ! 2, ?qs ! 1, ?qs ! 0] = rev ?qs" by (simp add: limits_of_def)
    moreover have "free_permits ops st = after_taking (set (limits_of i)) ?f"
      using st(2) unfolding if_not_P [OF False] .
    ultimately show ?thesis unfolding if_not_P [OF False]
      by (intro exI [of _ ?s3] exI [of _ "\<lparr>tk_relay = i, tk_id = sv_next_id s,
            tk_log = sampled rate (sv_next_id s),
            tk_phase = Connecting (?qs ! 3) (?qs ! 2) (?qs ! 1) (?qs ! 0)\<rparr>"])
        (simp add: spawn_connection_def Let_def)
  qed
qed

lemma admission_all_or_nothing_witness:
  "\<exists>k s'. perform_all counting_ops 1 (alone 0 k)
      (example_start\<lparr>sv_listeners := [Admitting []], sv_store := (\<lambda>_. Some 0)\<rparr>) = Some s' \<and>
     connections_rejected (sv_metrics s' ! 0) = 1"
proof -
  let ?s = "example_start\<lparr>sv_listeners := [Admitting []], sv_store := (\<lambda>_. Some 0)\<rparr>"
  have "\<exists>l\<in>set (limits_of 0). free_permits counting_ops (sv_store ?s) l = Some 0"
    by (rule bexI [of _ GlobalLimit]) (simp_all add: limits_of_def free_permits_def counting_ops_def)
  moreover have "0 < length (sv_listeners ?s)" "sv_listeners ?s ! 0 = Admitting []" by simp_all
  ultimately obtain k s' where "perform_all counting_ops 1 (alone 0 k) ?s = Some s'"
    "sv_metrics s' = (sv_metrics ?s)[0 := rejected (sv_metrics ?s ! 0)]"
    using admission_all_or_nothing [OF counting.semaphore_axioms, of 0 ?s 1] by (metis (no_types, lifting))
  then show ?thesis
    by (intro exI [of _ k] exI [of _ s'])
      (simp add: example_start_def initial_state_def rejected_def metrics_new_def)
qed

section \<open>Properties: shutdown\<close>

text \<open>
  C10. A graceful shutdown leaves nothing behind: when \<open>run\<close> returns without having hit its
  deadline, nothing was forced, every listener has stopped, every connection task is finished,
  every permit is back, and for each relay the active gauge is 0 and as many connections were
  closed as accepted.
\<close>

theorem graceful_shutdown_clean:
  assumes "semaphore ops" "representable limits" "reachable ops rate limits names helpers s"
    "sv_run s = Complete True"
  shows "\<not> sv_force s \<and> sv_pages s = 0 \<and>
     (\<forall>pc\<in>set (sv_listeners s). pc = Stopped) \<and> (\<forall>t\<in>set (sv_tasks s). finished (tk_phase t)) \<and>
     free_permits ops (sv_store s) = limits \<and>
     (\<forall>i<length names. active_connections (sv_metrics s ! i) = 0 \<and>
        connections_closed (sv_metrics s ! i) = connections_accepted (sv_metrics s ! i))"
proof -
  have inv: "server_inv ops rate limits names s"
    by (rule running_server.reachable_inv [OF running_serverI [OF assms(1,2)] assms(3)])
  then have stopped: "\<forall>pc\<in>set (sv_listeners s). pc = Stopped" and pages: "sv_pages s = 0"
    and fin: "\<forall>t\<in>set (sv_tasks s). tk_phase t = Returning []" and "\<not> sv_force s"
    using assms(4)
    by (auto simp: server_inv_def shutdown_inv_def listeners_joined_def tasks_drained_def
        list_all_iff finished_def)
  moreover have "held i s = 0" for i
  proof -
    have "listener_held pc = []" if "pc \<in> set (sv_listeners s)" for pc using stopped that by auto
    then show ?thesis unfolding held_def held_by_listeners_def held_by_tasks_def using fin by simp
  qed
  then have "free_permits ops (sv_store s) = limits"
    using inv by (auto simp: server_inv_def permits_inv_def conserved_def option.map_ident fun_eq_iff)
  moreover have "alive i s = 0" for i
    unfolding alive_def using fin by (simp add: filter_empty_conv)
  then have "\<forall>i<length names. active_connections (sv_metrics s ! i) = 0 \<and>
        connections_closed (sv_metrics s ! i) = connections_accepted (sv_metrics s ! i)"
    using inv by (simp add: server_inv_def counters_inv_def counters_ok_def Let_def)
  ultimately show ?thesis by (simp add: finished_def)
qed

lemma graceful_shutdown_clean_witness:
  "\<exists>s. perform_all counting_ops 1 stop_actions example_start = Some s \<and>
       free_permits counting_ops (sv_store s) = example_limits"
proof -
  obtain s where s: "perform_all counting_ops 1 stop_actions example_start = Some s"
    "sv_run s = Complete True" using stopped_run by blast
  from graceful_shutdown_clean [OF counting.semaphore_axioms example_representable
      example_reachable [OF s(1)] s(2)] s
  show ?thesis by blast
qed

end
