(* ===== verification/Metrics_Tls.thy ===== *)
theory Metrics_Tls
  imports Endpoint
begin

text \<open>
  Building the TLS acceptor of the metrics listener (\<open>src/src/server.rs\<close>, lines 61 to 97). The
  file system and the rustls crate enter as a record of functions: reading a file, the
  certificates and the private key found in a PEM text, and the check of the pair.
\<close>

record tls_library =
  tl_open :: "path \<Rightarrow> io_error + bytes"
  tl_certificates :: "bytes \<Rightarrow> rstr + bytes list"
  tl_private_key :: "bytes \<Rightarrow> rstr + bytes"
  tl_single_cert :: "bytes list \<Rightarrow> bytes \<Rightarrow> rstr + unit"

datatype tls_error =
    CannotOpenCertificate path io_error | CannotParseCertificate rstr | NoCertificates
  | CannotOpenKey path io_error | CannotParseKey rstr | InvalidCertificateOrKey rstr

text \<open>An acceptor is the pair of certificates and key it presents.\<close>

type_synonym tls_acceptor = "bytes list \<times> bytes"

definition build_metrics_tls_acceptor ::
  "tls_library \<Rightarrow> path option \<Rightarrow> path option \<Rightarrow> tls_error + tls_acceptor option" where
  "build_metrics_tls_acceptor tls cert_path key_path =
     (case (cert_path, key_path) of
        (Some cert, Some key) \<Rightarrow>
          and_then (map_err (CannotOpenCertificate cert) (tl_open tls cert)) (\<lambda>cert_pem.
          and_then (map_err CannotParseCertificate (tl_certificates tls cert_pem)) (\<lambda>certificates.
          if certificates = [] then Inl NoCertificates
          else
            and_then (map_err (CannotOpenKey key) (tl_open tls key)) (\<lambda>key_pem.
            and_then (map_err CannotParseKey (tl_private_key tls key_pem)) (\<lambda>private_key.
            and_then (map_err InvalidCertificateOrKey (tl_single_cert tls certificates private_key)) (\<lambda>_.
              Inr (Some (certificates, private_key)))))))
      | _ \<Rightarrow> Inr None)"

lemma tls_acceptor_iff:
  assumes "build_metrics_tls_acceptor tls cert_path key_path = Inr acceptor"
  shows "acceptor = None \<longleftrightarrow> cert_path = None \<or> key_path = None"
    "acceptor = Some (certificates, private_key) \<Longrightarrow> certificates \<noteq> [] \<and>
       tl_single_cert tls certificates private_key = Inr ()"
  using assms
  by (auto simp: build_metrics_tls_acceptor_def result_simps split: option.splits if_splits)

lemma no_tls [simp]: "build_metrics_tls_acceptor tls None key_path = Inr None"
  by (simp add: build_metrics_tls_acceptor_def)

end
