(* ===== verification/Buffer_Pool.thy ===== *)
theory Buffer_Pool
  imports Limits Rust_Std
begin

text \<open>
  The pool of forwarding buffers of a relay (\<open>src/src/relay.rs\<close>, lines 76 to 141): a stack of
  buffers behind a mutex and a semaphore that counts buffers in use. A connection takes its two
  buffers in one step; each direction gives its own back, the buffer first, then the permit.
\<close>

section \<open>State and operations\<close>

record 's buffer_pool =
  bp_size :: nat
  bp_buffers :: "bytes list"
  bp_permits :: 's

definition pool_new :: "'s semaphore_ops \<Rightarrow> nat \<Rightarrow> nat \<Rightarrow> 's buffer_pool option" where
  "pool_new ops buffer_size buffer_count =
     map_option (\<lambda>permits. \<lparr>bp_size = buffer_size, bp_buffers = [], bp_permits = permits\<rparr>)
       (sem_new ops buffer_count)"

text \<open>\<open>buffers.pop().unwrap_or_else(|| vec![0; self.buffer_size])\<close>: the last one pushed.\<close>

definition pop_or_new :: "nat \<Rightarrow> bytes list \<Rightarrow> bytes \<times> bytes list" where
  "pop_or_new buffer_size buffers =
     (if buffers = [] then (replicate buffer_size 0, []) else (last buffers, butlast buffers))"

text \<open>\<open>None\<close>: the two permits are not available and the caller waits.\<close>

definition acquire_pair ::
  "'s semaphore_ops \<Rightarrow> 's buffer_pool \<Rightarrow> ((bytes \<times> bytes) \<times> 's buffer_pool) option" where
  "acquire_pair ops pool =
     map_option
       (\<lambda>permits.
          let (first, rest) = pop_or_new (bp_size pool) (bp_buffers pool);
              (second, rest') = pop_or_new (bp_size pool) rest
          in ((first, second), pool\<lparr>bp_permits := permits, bp_buffers := rest'\<rparr>))
       (acquire_many ops 2 (bp_permits pool))"

text \<open>The two actions of \<open>Drop for PooledBuffer\<close>.\<close>

definition push_buffer :: "bytes \<Rightarrow> 's buffer_pool \<Rightarrow> 's buffer_pool" where
  "push_buffer buffer pool = pool\<lparr>bp_buffers := bp_buffers pool @ [buffer]\<rparr>"

definition return_permit :: "'s semaphore_ops \<Rightarrow> 's buffer_pool \<Rightarrow> 's buffer_pool" where
  "return_permit ops pool = pool\<lparr>bp_permits := release ops (bp_permits pool)\<rparr>"

section \<open>The pool and its users\<close>

text \<open>
  One slot for each \<open>PooledBuffer\<close> ever handed out; slots \<open>2 k\<close> and \<open>2 k + 1\<close> are the pair of one
  connection.
\<close>

datatype slot = InUse bytes | Pushed | Freed

record 's pool_state =
  ps_pool :: "'s buffer_pool"
  ps_slots :: "slot list"

inductive pool_step :: "'s semaphore_ops \<Rightarrow> 's pool_state \<Rightarrow> 's pool_state \<Rightarrow> bool"
  for ops :: "'s semaphore_ops" where
  acquire: "acquire_pair ops (ps_pool s) = Some ((b1, b2), pool) \<Longrightarrow>
    pool_step ops s (s\<lparr>ps_pool := pool, ps_slots := ps_slots s @ [InUse b1, InUse b2]\<rparr>)"
| fill: "i < length (ps_slots s) \<Longrightarrow> ps_slots s ! i = InUse b \<Longrightarrow> length b' = length b \<Longrightarrow>
    pool_step ops s (s\<lparr>ps_slots := (ps_slots s)[i := InUse b']\<rparr>)"
| push: "i < length (ps_slots s) \<Longrightarrow> ps_slots s ! i = InUse b \<Longrightarrow>
    pool_step ops s (s\<lparr>ps_pool := push_buffer b (ps_pool s), ps_slots := (ps_slots s)[i := Pushed]\<rparr>)"
| free: "i < length (ps_slots s) \<Longrightarrow> ps_slots s ! i = Pushed \<Longrightarrow>
    pool_step ops s (s\<lparr>ps_pool := return_permit ops (ps_pool s), ps_slots := (ps_slots s)[i := Freed]\<rparr>)"

inductive_cases pool_stepE: "pool_step ops s s'"

definition in_use :: "'s pool_state \<Rightarrow> nat" where
  "in_use s = length (filter (\<lambda>x. \<exists>b. x = InUse b) (ps_slots s))"

definition unreturned :: "'s pool_state \<Rightarrow> nat" where
  "unreturned s = length (filter (\<lambda>x. x \<noteq> Freed) (ps_slots s))"

definition pool_inv :: "'s semaphore_ops \<Rightarrow> nat \<Rightarrow> nat \<Rightarrow> 's pool_state \<Rightarrow> bool" where
  "pool_inv ops sz n s \<longleftrightarrow>
     bp_size (ps_pool s) = sz \<and>
     available ops (bp_permits (ps_pool s)) + unreturned s = n \<and>
     length (bp_buffers (ps_pool s)) + in_use s \<le> n \<and>
     (\<forall>b\<in>set (bp_buffers (ps_pool s)). length b = sz) \<and>
     (\<forall>b. InUse b \<in> set (ps_slots s) \<longrightarrow> length b = sz)"

section \<open>Lemmas\<close>

lemma in_use_le: "in_use s \<le> unreturned s"
  unfolding in_use_def unreturned_def by (rule length_filter_mono) auto

lemma pop_or_new_spec:
  assumes "\<forall>b\<in>set bs. length b = sz" "pop_or_new sz bs = (b, bs')"
  shows "length b = sz \<and> set bs' \<subseteq> set bs \<and> length bs' = length bs - 1"
  using assms by (auto simp: pop_or_new_def dest: in_set_butlastD split: if_splits)

lemma acquire_pair_spec:
  assumes "acquire_pair ops pool = Some ((b1, b2), pool')"
    "\<forall>b\<in>set (bp_buffers pool). length b = bp_size pool"
  shows "length b1 = bp_size pool \<and> length b2 = bp_size pool \<and> bp_size pool' = bp_size pool \<and>
     set (bp_buffers pool') \<subseteq> set (bp_buffers pool) \<and>
     length (bp_buffers pool') = length (bp_buffers pool) - 2 \<and>
     acquire_many ops 2 (bp_permits pool) = Some (bp_permits pool')"
proof -
  obtain c1 r1 where p1: "pop_or_new (bp_size pool) (bp_buffers pool) = (c1, r1)" by fastforce
  obtain c2 r2 where p2: "pop_or_new (bp_size pool) r1 = (c2, r2)" by fastforce
  have s1: "length c1 = bp_size pool" "set r1 \<subseteq> set (bp_buffers pool)"
    "length r1 = length (bp_buffers pool) - 1"
    using pop_or_new_spec [OF assms(2) p1] by auto
  then have s2: "length c2 = bp_size pool" "set r2 \<subseteq> set r1" "length r2 = length r1 - 1"
    using pop_or_new_spec [OF _ p2] assms(2) by blast+
  from assms(1) p1 p2 have "b1 = c1" "b2 = c2" "bp_buffers pool' = r2" "bp_size pool' = bp_size pool"
    "acquire_many ops 2 (bp_permits pool) = Some (bp_permits pool')"
    by (auto simp: acquire_pair_def)
  with s1 s2 show ?thesis by auto
qed

lemma slot_counts:
  assumes "i < length (ps_slots s)"
  shows "in_use (s\<lparr>ps_pool := p, ps_slots := (ps_slots s)[i := x]\<rparr>) +
           of_bool (\<exists>b. ps_slots s ! i = InUse b) = in_use s + of_bool (\<exists>b. x = InUse b)"
    "unreturned (s\<lparr>ps_pool := p, ps_slots := (ps_slots s)[i := x]\<rparr>) +
           of_bool (ps_slots s ! i \<noteq> Freed) = unreturned s + of_bool (x \<noteq> Freed)"
  using length_filter_update [OF assms, of "\<lambda>x. \<exists>b. x = InUse b" x]
    length_filter_update [OF assms, of "\<lambda>x. x \<noteq> Freed" x]
  by (simp_all add: in_use_def unreturned_def)

lemma in_set_update: "y \<in> set (xs[i := x]) \<Longrightarrow> y = x \<or> y \<in> set xs"
  using set_update_subset_insert by fastforce

section \<open>A pool at work\<close>

locale running_pool = semaphore ops for ops :: "'s semaphore_ops" +
  fixes sz n :: nat and pool :: "'s buffer_pool"
  assumes created: "pool_new ops sz n = Some pool"
begin

lemma initial_pool: "pool_inv ops sz n \<lparr>ps_pool = pool, ps_slots = []\<rparr>"
  using created new_Some by (auto simp: pool_new_def pool_inv_def unreturned_def in_use_def)

lemma step_pool:
  assumes inv: "pool_inv ops sz n s" and step: "pool_step ops s s'"
  shows "pool_inv ops sz n s'"
  using step
proof (cases rule: pool_step.cases)
  case (acquire b1 b2 p)
  let ?p = "ps_pool s"
  have bs: "\<forall>b\<in>set (bp_buffers ?p). length b = bp_size ?p" using inv by (simp add: pool_inv_def)
  note a = acquire_pair_spec [OF acquire(2) bs]
  have "available ops (bp_permits p) + 2 = available ops (bp_permits ?p)"
    using a acquire_Some [of 2] by blast
  moreover have "unreturned s' = unreturned s + 2" "in_use s' = in_use s + 2"
    by (simp_all add: acquire(1) unreturned_def in_use_def)
  moreover have "in_use s' \<le> unreturned s'" by (rule in_use_le)
  ultimately show ?thesis using inv a by (auto simp: acquire(1) pool_inv_def)
next
  case (fill i b b')
  then show ?thesis using inv slot_counts [OF fill(2), where p = "ps_pool s" and x = "InUse b'"] nth_mem [OF fill(2)]
    by (auto simp: pool_inv_def dest!: in_set_update)
next
  case (push i b)
  then show ?thesis
    using inv slot_counts [OF push(2), where p = "push_buffer b (ps_pool s)" and x = Pushed] nth_mem [OF push(2)]
    by (auto simp: pool_inv_def push_buffer_def dest!: in_set_update)
next
  case (free i)
  then show ?thesis
    using inv slot_counts [OF free(2), where p = "return_permit ops (ps_pool s)" and x = Freed]
    by (auto simp: pool_inv_def return_permit_def available_release dest!: in_set_update)
qed

end

sublocale running_pool \<subseteq>
  pool: invariant_of "pool_step ops" "\<lparr>ps_pool = pool, ps_slots = []\<rparr>" "pool_inv ops sz n"
  by unfold_locales (rule initial_pool, rule step_pool)

context running_pool
begin

lemma always: "(pool_step ops)\<^sup>*\<^sup>* \<lparr>ps_pool = pool, ps_slots = []\<rparr> s \<Longrightarrow> pool_inv ops sz n s"
  by (rule pool.holds)

end

definition example_pool :: "nat buffer_pool" where
  "example_pool = \<lparr>bp_size = 2, bp_buffers = [], bp_permits = 4\<rparr>"

interpretation example: running_pool counting_ops 2 4 example_pool
  by unfold_locales
    (simp add: pool_new_def counting_ops_def MAX_PERMITS_def example_pool_def)

section \<open>Properties\<close>

lemma running_poolI: "semaphore ops \<Longrightarrow> pool_new ops sz n = Some pool \<Longrightarrow> running_pool ops sz n pool"
  by (simp add: running_pool_def running_pool_axioms_def)

text \<open>
  C29. The pool is bounded and leaks nothing: in every reachable state the free permits and the
  buffers not yet given back add up to \<open>buffer_pool_size\<close>, the buffers that exist (pooled or in
  use) are at most as many, each of \<open>buffer_size\<close> bytes, and when all are given back every
  permit is free again.
\<close>

theorem pool_bounded:
  assumes "semaphore ops" "pool_new ops sz n = Some pool"
    "(pool_step ops)\<^sup>*\<^sup>* \<lparr>ps_pool = pool, ps_slots = []\<rparr> s"
  shows "available ops (bp_permits (ps_pool s)) + unreturned s = n \<and>
     length (bp_buffers (ps_pool s)) + in_use s \<le> n \<and>
     (\<forall>b\<in>set (bp_buffers (ps_pool s)). length b = sz) \<and>
     (\<forall>x\<in>set (ps_slots s). \<forall>b. x = InUse b \<longrightarrow> length b = sz)"
proof -
  have "pool_inv ops sz n s"
    by (rule running_pool.always [OF running_poolI [OF assms(1,2)] assms(3)])
  then show ?thesis by (auto simp: pool_inv_def)
qed

lemma example_pool_new: "pool_new counting_ops 2 4 = Some example_pool"
  by (rule example.created)

lemma pool_bounded_witness:
  "\<exists>s. (pool_step counting_ops)\<^sup>*\<^sup>* \<lparr>ps_pool = example_pool, ps_slots = []\<rparr> s \<and> in_use s = 2 \<and>
       available counting_ops (bp_permits (ps_pool s)) + 2 = 4"
proof -
  let ?s = "\<lparr>ps_pool = example_pool\<lparr>bp_permits := 2\<rparr>, ps_slots = [InUse [0, 0], InUse [0, 0]]\<rparr>"
  have "acquire_pair counting_ops example_pool =
      Some (([0, 0], [0, 0]), example_pool\<lparr>bp_permits := 2\<rparr>)"
    by (simp add: acquire_pair_def pop_or_new_def example_pool_def counting_ops_def
        numeral_2_eq_2)
  then have "pool_step counting_ops \<lparr>ps_pool = example_pool, ps_slots = []\<rparr> ?s"
    using pool_step.acquire [of counting_ops "\<lparr>ps_pool = example_pool, ps_slots = []\<rparr>"] by fastforce
  then have r: "(pool_step counting_ops)\<^sup>*\<^sup>* \<lparr>ps_pool = example_pool, ps_slots = []\<rparr> ?s" by blast
  moreover have "in_use ?s = 2" "unreturned ?s = 2" by (simp_all add: in_use_def unreturned_def)
  ultimately show ?thesis
    using pool_bounded [OF counting.semaphore_axioms example_pool_new r] by metis
qed

text \<open>The connections that hold both of their buffers.\<close>

fun full_pairs :: "slot list \<Rightarrow> nat" where
  "full_pairs (InUse a # InUse b # xs) = Suc (full_pairs xs)"
| "full_pairs (x # y # xs) = full_pairs xs"
| "full_pairs xs = 0"

lemma full_pairs_in_use: "2 * full_pairs xs \<le> length (filter (\<lambda>x. \<exists>b. x = InUse b) xs)"
  by (induction xs rule: full_pairs.induct) auto

text \<open>
  C30. When a connection has to wait for its buffers: exactly when fewer than two permits are
  left, so at most \<open>buffer_pool_size div 2\<close> connections of a relay move data in both directions
  at a time, the next one waits (with its upstream already connected), and with no buffer
  outstanding no connection waits.
\<close>

theorem pool_waiting:
  assumes "semaphore ops" "pool_new ops sz n = Some pool"
    "(pool_step ops)\<^sup>*\<^sup>* \<lparr>ps_pool = pool, ps_slots = []\<rparr> s"
  shows "(acquire_pair ops (ps_pool s) = None \<longleftrightarrow> n < unreturned s + 2) \<and>
     full_pairs (ps_slots s) \<le> n div 2 \<and>
     (full_pairs (ps_slots s) = n div 2 \<longrightarrow> acquire_pair ops (ps_pool s) = None)"
proof -
  have inv: "pool_inv ops sz n s"
    by (rule running_pool.always [OF running_poolI [OF assms(1,2)] assms(3)])
  have none: "acquire_pair ops (ps_pool s) = None \<longleftrightarrow> n < unreturned s + 2"
    using inv semaphore.acquire_None [OF assms(1), of 2 "bp_permits (ps_pool s)"]
    by (auto simp: acquire_pair_def pool_inv_def)
  have "2 * full_pairs (ps_slots s) \<le> in_use s"
    unfolding in_use_def by (rule full_pairs_in_use)
  moreover have "in_use s \<le> unreturned s" by (rule in_use_le)
  moreover have "unreturned s \<le> n" using inv by (simp add: pool_inv_def)
  ultimately show ?thesis unfolding none by auto
qed

lemma pool_waiting_witness:
  "acquire_pair counting_ops example_pool \<noteq> None \<and> full_pairs [] \<le> 4 div 2"
proof -
  have "(pool_step counting_ops)\<^sup>*\<^sup>* \<lparr>ps_pool = example_pool, ps_slots = []\<rparr>
      \<lparr>ps_pool = example_pool, ps_slots = []\<rparr>" by blast
  from pool_waiting [OF counting.semaphore_axioms example_pool_new this] show ?thesis
    by (simp add: unreturned_def)
qed

end
