(* ===== verification/Resolver.thy ===== *)
theory Resolver
  imports Rust_Std
begin

text \<open>
  Target resolution (\<open>src/src/relay.rs\<close>, lines 33 to 74, and \<open>src/src/server.rs\<close>, lines 352 to
  403): the cached addresses of a relay's target, their refresh, and connecting through them.
  Name look-up and connecting are tokio's and enter as the outcomes of their calls.
\<close>

record 'a target_resolver =
  rv_address :: rstr
  rv_resolved :: "'a list option"

definition resolver_new :: "rstr \<Rightarrow> bool \<Rightarrow> 'a target_resolver" where
  "resolver_new address refresh_enabled =
     \<lparr>rv_address = address, rv_resolved = (if refresh_enabled then Some [] else None)\<rparr>"

text \<open>\<open>lookup\<close> is \<open>tokio::net::lookup_host\<close>; the result of \<open>refresh\<close> is the number of addresses.\<close>

definition refresh ::
  "(rstr \<Rightarrow> io_error + 'a list) \<Rightarrow> 'a target_resolver \<Rightarrow> (io_error + nat) \<times> 'a target_resolver" where
  "refresh lookup r =
     (case lookup (rv_address r) of
        Inl e \<Rightarrow> (Inl e, r)
      | Inr addresses \<Rightarrow>
          (Inr (length addresses),
           case rv_resolved r of
             None \<Rightarrow> r
           | Some _ \<Rightarrow> r\<lparr>rv_resolved := Some addresses\<rparr>))"

text \<open>\<open>TcpStream::connect\<close> on the host name and on a list of addresses.\<close>

definition connect ::
  "(rstr \<Rightarrow> io_error + 'c) \<Rightarrow> ('a list \<Rightarrow> io_error + 'c) \<Rightarrow> 'a target_resolver \<Rightarrow> io_error + 'c" where
  "connect by_name by_addresses r =
     (case rv_resolved r of
        None \<Rightarrow> by_name (rv_address r)
      | Some addresses \<Rightarrow>
          if addresses \<noteq> [] then
            (case by_addresses addresses of
               Inr stream \<Rightarrow> Inr stream
             | Inl cached_error \<Rightarrow> map_err (\<lambda>_. cached_error) (by_name (rv_address r)))
          else by_name (rv_address r))"

text \<open>
  The refresh task: each tick looks the name up, whatever that says; \<open>shutdown.cancelled()\<close> ends
  the loop. The outcomes are those of the look-ups until then.
\<close>

fun refresh_target_loop ::
  "(io_error + 'a list) list \<Rightarrow> 'a target_resolver \<Rightarrow> 'a target_resolver" where
  "refresh_target_loop [] r = r"
| "refresh_target_loop (l # ls) r = refresh_target_loop ls (snd (refresh (\<lambda>_. l) r))"

text \<open>What \<open>initialize_target\<close> logs for the first look-up.\<close>

datatype resolution_event = TargetResolutionEmpty | TargetResolved nat | TargetResolutionFailed io_error

definition initialize_target ::
  "(rstr \<Rightarrow> io_error + 'a list) \<Rightarrow> 'a target_resolver \<Rightarrow> resolution_event \<times> 'a target_resolver" where
  "initialize_target lookup r =
     (case refresh lookup r of
        (Inr 0, r') \<Rightarrow> (TargetResolutionEmpty, r')
      | (Inr addresses, r') \<Rightarrow> (TargetResolved addresses, r')
      | (Inl e, r') \<Rightarrow> (TargetResolutionFailed e, r'))"

section \<open>Lemmas\<close>

text \<open>The addresses in force after a run of look-ups: those of the last successful one.\<close>

fun last_success :: "'a list \<Rightarrow> (io_error + 'a list) list \<Rightarrow> 'a list" where
  "last_success d [] = d"
| "last_success d (Inl e # ls) = last_success d ls"
| "last_success d (Inr a # ls) = last_success a ls"

lemma refresh_loop_result:
  "refresh_target_loop ls r =
     (case rv_resolved r of
        None \<Rightarrow> r
      | Some d \<Rightarrow> r\<lparr>rv_resolved := Some (last_success d ls)\<rparr>)"
proof (induction ls r rule: refresh_target_loop.induct)
  case (1 r)
  then show ?case by (cases r) (auto split: option.split)
next
  case (2 l ls r)
  then show ?case by (cases l) (auto simp: refresh_def split: option.splits)
qed

section \<open>Properties\<close>

text \<open>
  C39. A target that cannot be resolved never becomes worse than before: with refresh enabled the
  addresses in force are those of the last look-up that succeeded (failed ones change nothing),
  without it none are ever cached, and the configured address never changes. Connecting prefers
  the cached addresses, falls back to the name whenever they fail, reports their error when both
  fail, and without cached addresses is exactly a connection by name.
\<close>

theorem target_resolution:
  "let r = refresh_target_loop ls (resolver_new address enabled) in
     rv_address r = address \<and>
     rv_resolved r = (if enabled then Some (last_success [] ls) else None) \<and>
     connect by_name by_addresses r =
       (if enabled \<and> last_success [] ls \<noteq> [] then
          (case (by_addresses (last_success [] ls), by_name address) of
             (Inr stream, _) \<Rightarrow> Inr stream
           | (Inl e, Inr stream) \<Rightarrow> Inr stream
           | (Inl e, Inl e') \<Rightarrow> Inl e)
        else by_name address)"
  by (cases "by_name address")
    (auto simp: refresh_loop_result resolver_new_def connect_def Let_def split: sum.splits)

end
