(* ===== verification/Server_Bind.thy ===== *)
theory Server_Bind
  imports Relay_Correctness Settings Metrics_Tls Buffer_Pool Resolver
begin

text \<open>
  Starting the server (\<open>src/src/server.rs\<close>, lines 33 to 204 and 310 to 334): binding a socket,
  the loop of \<open>Server::bind\<close> over the relays, and how its result is the initial state of the
  machine in theory \<open>Relay_System\<close>. The operating system's answers are
  arguments; \<open>BindPanic\<close> is the panic of \<open>Semaphore::new\<close>, which aborts the process.
\<close>

section \<open>Binding one socket\<close>

definition LISTEN_BACKLOG :: nat where
  "LISTEN_BACKLOG = 65535"

datatype 'a sock_call =
    NewSocket 'a | ReuseAddress | ReusePort | BindTo 'a | Listen nat | Nonblocking | Register

definition socket_calls :: "platform \<Rightarrow> bool \<Rightarrow> 'a \<Rightarrow> 'a sock_call list" where
  "socket_calls pf reuse_port a =
     [NewSocket a, ReuseAddress] @ (if pf \<noteq> NonUnix \<and> reuse_port then [ReusePort] else []) @
     [BindTo a, Listen LISTEN_BACKLOG, Nonblocking, Register]"

fun first_failure :: "('c \<Rightarrow> io_error option) \<Rightarrow> 'c list \<Rightarrow> io_error option" where
  "first_failure fails [] = None"
| "first_failure fails (c # cs) =
     (case fails c of None \<Rightarrow> first_failure fails cs | Some e \<Rightarrow> Some e)"

definition bind_listener ::
  "platform \<Rightarrow> (rstr \<Rightarrow> io_error + 'a list) \<Rightarrow> ('a sock_call \<Rightarrow> io_error option) \<Rightarrow> rstr \<Rightarrow> bool \<Rightarrow>
   io_error + 'a" where
  "bind_listener pf lookup fails address reuse_port =
     (case lookup address of
        Inl e \<Rightarrow> Inl e
      | Inr [] \<Rightarrow> Inl (CustomError AddrNotAvailable (lit ''no socket address resolved for '' @ address))
      | Inr (a # _) \<Rightarrow>
          (case first_failure fails (socket_calls pf reuse_port a) of
             None \<Rightarrow> Inr a
           | Some e \<Rightarrow> Inl e))"

section \<open>Server::bind\<close>

text \<open>
  The two global limits are behind \<open>Arc\<close>s that every relay and the server share, as the metrics
  registry shares the counters of the relays; they stand once, in the server.
\<close>

record ('s, 'a) bound_relay =
  br_spec :: relay_spec
  br_target :: "'a target_resolver"
  br_metrics :: relay_metrics
  br_pool :: "'s buffer_pool"
  br_limit :: "'s option"
  br_connecting :: "'s option"
  br_log_sample_rate :: usize

record ('s, 'a) server =
  sb_shutdown_timeout :: duration
  sb_relays :: "('s, 'a) bound_relay list"
  sb_global_limit :: "'s option"
  sb_global_connecting :: "'s option"
  sb_metrics_listener :: bool
  sb_tls_acceptor :: "tls_acceptor option"
  sb_bearer_token :: "rstr option"
  sb_metrics_registry :: "relay_metrics list"
  sb_next_connection_id :: u64

datatype bind_error = BindConfig config_error | BindTls tls_error | BindLocalAddr io_error | NoListeners

datatype 'x bind_result = BindPanic | BindFailed bind_error | BindOk 'x

text \<open>\<open>limit.map(|limit| Arc::new(Semaphore::new(limit)))\<close>; \<open>None\<close> is the panic.\<close>

definition optional_semaphore :: "'s semaphore_ops \<Rightarrow> usize option \<Rightarrow> 's option option" where
  "optional_semaphore ops limit =
     (case limit of None \<Rightarrow> Some None | Some n \<Rightarrow> map_option Some (sem_new ops (unat n)))"

text \<open>
  What \<open>bind_listener\<close> and \<open>local_addr\<close> answer for the relay at position \<open>i\<close> of the settings:
  a failure to bind, a bound socket whose address cannot be read, or a listener.
\<close>

datatype listen_result = ListenFailed io_error | NoLocalAddr io_error | Listening

definition bound_relay_of ::
  "'s semaphore_ops \<Rightarrow> usize \<Rightarrow> usize \<Rightarrow> relay_spec \<Rightarrow> 'a target_resolver \<Rightarrow> relay_metrics \<Rightarrow>
   ('s, 'a) bound_relay option" where
  "bound_relay_of ops buffer_pool_size sample_rate spec target metrics =
     Option.bind (pool_new ops (unat (rs_buffer_size spec)) (unat buffer_pool_size)) (\<lambda>pool.
     Option.bind (optional_semaphore ops (rs_max_connections spec)) (\<lambda>limit.
     Option.bind (optional_semaphore ops (rs_max_connecting spec)) (\<lambda>connecting.
       Some \<lparr>br_spec = spec, br_target = target, br_metrics = metrics, br_pool = pool,
             br_limit = limit, br_connecting = connecting, br_log_sample_rate = sample_rate\<rparr>)))"

text \<open>\<open>lookup i\<close> is the name service when the target of the relay at position \<open>i\<close> is initialised.\<close>

fun bind_relays ::
  "'s semaphore_ops \<Rightarrow> (nat \<Rightarrow> rstr \<Rightarrow> io_error + 'a list) \<Rightarrow> usize \<Rightarrow> usize \<Rightarrow> (nat \<Rightarrow> listen_result) \<Rightarrow>
   nat \<Rightarrow> relay_spec list \<Rightarrow> ('s, 'a) bound_relay list bind_result" where
  "bind_relays ops lookup buffer_pool_size sample_rate listen i [] = BindOk []"
| "bind_relays ops lookup buffer_pool_size sample_rate listen i (spec # specs) =
     (let new_target = resolver_new (ep_address (rs_target spec)) (rs_dns_refresh spec \<noteq> None);
          (event, target) = initialize_target (lookup i) new_target;
          metrics = metrics_new (rs_name spec)
      in case listen i of
        ListenFailed e \<Rightarrow>
          bind_relays ops lookup buffer_pool_size sample_rate listen (i + 1) specs
      | NoLocalAddr e \<Rightarrow> BindFailed (BindLocalAddr e)
      | Listening \<Rightarrow>
          (case bound_relay_of ops buffer_pool_size sample_rate spec target metrics of
             None \<Rightarrow> BindPanic
           | Some relay \<Rightarrow>
               (case bind_relays ops lookup buffer_pool_size sample_rate listen (i + 1) specs of
                  BindOk relays \<Rightarrow> BindOk (relay # relays)
                | r \<Rightarrow> r)))"

definition bind ::
  "'s semaphore_ops \<Rightarrow> platform \<Rightarrow> tls_library \<Rightarrow>
   (nat \<Rightarrow> rstr \<Rightarrow> io_error + 'a list) \<Rightarrow> (nat \<Rightarrow> listen_result) \<Rightarrow> listen_result \<Rightarrow> settings \<Rightarrow>
   ('s, 'a) server bind_result" where
  "bind ops pf tls lookup listen metrics_listen s =
     (case validate pf s of
        Inl e \<Rightarrow> BindFailed (BindConfig e)
      | Inr _ \<Rightarrow>
          (case build_metrics_tls_acceptor tls (st_metrics_tls_cert s) (st_metrics_tls_key s) of
             Inl e \<Rightarrow> BindFailed (BindTls e)
           | Inr acceptor \<Rightarrow>
               (case (optional_semaphore ops (st_global_max_connections s),
                      optional_semaphore ops (st_global_max_connecting s)) of
                  (Some global_limit, Some global_connecting) \<Rightarrow>
                    (case bind_relays ops lookup (st_buffer_pool_size s)
                            (st_connection_log_sample_rate s) listen 0 (st_relays s) of
                       BindPanic \<Rightarrow> BindPanic
                     | BindFailed e \<Rightarrow> BindFailed e
                     | BindOk relays \<Rightarrow>
                         if relays = [] then BindFailed NoListeners
                         else
                           (let sv = \<lambda>m. \<lparr>sb_shutdown_timeout = st_shutdown_timeout s,
                              sb_relays = relays, sb_global_limit = global_limit,
                              sb_global_connecting = global_connecting, sb_metrics_listener = m,
                              sb_tls_acceptor = acceptor,
                              sb_bearer_token = st_metrics_bearer_token s,
                              sb_metrics_registry = map br_metrics relays,
                              sb_next_connection_id = 1\<rparr>
                            in case st_metrics_listen s of
                              None \<Rightarrow> BindOk (sv False)
                            | Some endpoint \<Rightarrow>
                                (case metrics_listen of
                                   ListenFailed e \<Rightarrow> BindOk (sv False)
                                 | NoLocalAddr e \<Rightarrow> BindFailed (BindLocalAddr e)
                                 | Listening \<Rightarrow> BindOk (sv True))))
                | _ \<Rightarrow> BindPanic)))"

text \<open>\<open>listener_addrs\<close>: the relays' names with their local addresses; \<open>addr\<close> is \<open>local_addr\<close>.\<close>

definition listener_addrs ::
  "(nat \<Rightarrow> io_error + 'b) \<Rightarrow> ('s, 'a) server \<Rightarrow> (rstr \<times> 'b) list" where
  "listener_addrs addr sv =
     List.map_filter
       (\<lambda>(i, r). case addr i of Inl e \<Rightarrow> None | Inr a \<Rightarrow> Some (rs_name (br_spec r), a))
       (enumerate 0 (sb_relays sv))"

section \<open>The machine a bound server starts\<close>

text \<open>The semaphores of a server as the store of the machine, and the limits they stand for.\<close>

definition server_store :: "('s, 'a) server \<Rightarrow> 's store" where
  "server_store sv i =
     (case i of
        GlobalLimit \<Rightarrow> sb_global_limit sv
      | GlobalConnecting \<Rightarrow> sb_global_connecting sv
      | RelayLimit k \<Rightarrow> if k < length (sb_relays sv) then br_limit (sb_relays sv ! k) else None
      | RelayConnecting k \<Rightarrow> if k < length (sb_relays sv) then br_connecting (sb_relays sv ! k) else None)"

definition configured_limits :: "settings \<Rightarrow> relay_spec list \<Rightarrow> sem_id \<Rightarrow> nat option" where
  "configured_limits s specs i =
     map_option unat
       (case i of
          GlobalLimit \<Rightarrow> st_global_max_connections s
        | GlobalConnecting \<Rightarrow> st_global_max_connecting s
        | RelayLimit k \<Rightarrow> if k < length specs then rs_max_connections (specs ! k) else None
        | RelayConnecting k \<Rightarrow> if k < length specs then rs_max_connecting (specs ! k) else None)"

text \<open>The relays whose listener could be bound, in the order of the settings.\<close>

fun listening :: "(nat \<Rightarrow> listen_result) \<Rightarrow> nat \<Rightarrow> relay_spec list \<Rightarrow> relay_spec list" where
  "listening listen i [] = []"
| "listening listen i (spec # specs) =
     (if listen i = Listening then spec # listening listen (i + 1) specs
      else listening listen (i + 1) specs)"

section \<open>Lemmas\<close>

lemma optional_semaphore_Some:
  "optional_semaphore ops limit = Some s \<longleftrightarrow>
     (limit = None \<and> s = None) \<or> (\<exists>n t. limit = Some n \<and> sem_new ops (unat n) = Some t \<and> s = Some t)"
  by (auto simp: optional_semaphore_def split: option.splits)

lemma optional_semaphore_bind:
  "optional_semaphore ops limit = Some s \<Longrightarrow> s = Option.bind (map_option unat limit) (sem_new ops)"
  by (auto simp: optional_semaphore_Some)

definition fresh_relay :: "'s semaphore_ops \<Rightarrow> usize \<Rightarrow> usize \<Rightarrow> ('s, 'a) bound_relay \<Rightarrow> bool" where
  "fresh_relay ops n rate r \<longleftrightarrow>
     optional_semaphore ops (rs_max_connections (br_spec r)) = Some (br_limit r) \<and>
     optional_semaphore ops (rs_max_connecting (br_spec r)) = Some (br_connecting r) \<and>
     pool_new ops (unat (rs_buffer_size (br_spec r))) (unat n) = Some (br_pool r) \<and>
     br_metrics r = metrics_new (rs_name (br_spec r)) \<and> br_log_sample_rate r = rate \<and>
     rv_address (br_target r) = ep_address (rs_target (br_spec r)) \<and>
     (rv_resolved (br_target r) = None \<longleftrightarrow> rs_dns_refresh (br_spec r) = None)"

lemma initialized_target:
  "rv_address (snd (initialize_target lookup (resolver_new address enabled))) = address"
  "rv_resolved (snd (initialize_target lookup (resolver_new address enabled))) = None \<longleftrightarrow> \<not> enabled"
  by (auto simp: initialize_target_def refresh_def resolver_new_def split: sum.splits nat.splits)

lemma bound_relay_fresh:
  assumes "bound_relay_of ops n rate spec target (metrics_new (rs_name spec)) = Some r"
    "rv_address target = ep_address (rs_target spec)"
    "rv_resolved target = None \<longleftrightarrow> rs_dns_refresh spec = None"
  shows "br_spec r = spec" "fresh_relay ops n rate r"
  using assms by (auto simp: bound_relay_of_def fresh_relay_def split: bind_splits)

lemma bind_relays_Ok:
  assumes "bind_relays ops lookup n rate listen i specs = BindOk relays"
  shows "map br_spec relays = listening listen i specs \<and>
     (\<forall>r\<in>set relays. fresh_relay ops n rate r)"
  using assms
proof (induction specs arbitrary: i relays)
  case Nil
  then show ?case by simp
next
  case (Cons spec specs)
  let ?target = "snd (initialize_target (lookup i)
      (resolver_new (ep_address (rs_target spec)) (rs_dns_refresh spec \<noteq> None)))"
  show ?case
  proof (cases "listen i")
    case Listening
    then obtain r rs where r: "bound_relay_of ops n rate spec ?target (metrics_new (rs_name spec)) = Some r"
      "bind_relays ops lookup n rate listen (i + 1) specs = BindOk rs" "relays = r # rs"
      using Cons.prems by (auto simp: split_beta split: option.splits bind_result.splits)
    have "br_spec r = spec" "fresh_relay ops n rate r"
      by (rule bound_relay_fresh [OF r(1)]; simp add: initialized_target)+
    then show ?thesis using Cons.IH [OF r(2)] Listening r by simp
  qed (use Cons in \<open>auto simp: split_beta\<close>)
qed

lemma optional_semaphore_representable:
  assumes "semaphore ops" "optional_semaphore ops limit = Some s" "limit = Some n"
  shows "unat n \<le> MAX_PERMITS"
  using assms semaphore.new_None [OF assms(1), of "unat n"]
  by (auto simp: optional_semaphore_Some)

lemma bind_OkE:
  assumes "bind ops pf tls lookup listen metrics_listen s = BindOk sv"
  obtains "validate pf s = Inr ()"
    "build_metrics_tls_acceptor tls (st_metrics_tls_cert s) (st_metrics_tls_key s) = Inr (sb_tls_acceptor sv)"
    "optional_semaphore ops (st_global_max_connections s) = Some (sb_global_limit sv)"
    "optional_semaphore ops (st_global_max_connecting s) = Some (sb_global_connecting sv)"
    "bind_relays ops lookup (st_buffer_pool_size s) (st_connection_log_sample_rate s) listen 0
       (st_relays s) = BindOk (sb_relays sv)"
    "sb_relays sv \<noteq> []" "sb_bearer_token sv = st_metrics_bearer_token s"
    "sb_metrics_registry sv = map br_metrics (sb_relays sv)" "sb_next_connection_id sv = 1"
    "sb_metrics_listener sv \<longleftrightarrow> st_metrics_listen s \<noteq> None \<and> metrics_listen = Listening"
  using assms
  by (auto simp: bind_def Let_def split: sum.splits option.splits bind_result.splits
      listen_result.splits if_splits)

lemma set_listening: "set (listening listen i rs) \<subseteq> set rs"
  by (induction rs arbitrary: i) auto

lemma listening_distinct:
  "distinct (map f rs) \<Longrightarrow> distinct (map f (listening listen i rs))"
proof (induction rs arbitrary: i)
  case Nil
  then show ?case by simp
next
  case (Cons r rs)
  then show ?case using set_listening [of listen "i + 1" rs] by auto
qed

lemma bound_server_machine:
  assumes "semaphore ops" "bind ops pf tls lookup listen metrics_listen s = BindOk sv"
  shows "map br_spec (sb_relays sv) = listening listen 0 (st_relays s) \<and> sb_relays sv \<noteq> [] \<and>
     distinct (map (rs_name \<circ> br_spec) (sb_relays sv)) \<and>
     representable (configured_limits s (map br_spec (sb_relays sv))) \<and>
     server_store sv = initial_store ops (configured_limits s (map br_spec (sb_relays sv))) \<and>
     sb_metrics_registry sv = map (\<lambda>r. metrics_new (rs_name (br_spec r))) (sb_relays sv) \<and>
     sb_next_connection_id sv = 1 \<and>
     (\<forall>r\<in>set (sb_relays sv).
        pool_new ops (unat (rs_buffer_size (br_spec r))) (unat (st_buffer_pool_size s)) = Some (br_pool r) \<and>
        br_metrics r = metrics_new (rs_name (br_spec r)) \<and>
        rv_address (br_target r) = ep_address (rs_target (br_spec r)) \<and>
        br_log_sample_rate r = st_connection_log_sample_rate s)"
  using assms(2)
proof (rule bind_OkE)
  assume v: "validate pf s = Inr ()"
    and gl: "optional_semaphore ops (st_global_max_connections s) = Some (sb_global_limit sv)"
    and gc: "optional_semaphore ops (st_global_max_connecting s) = Some (sb_global_connecting sv)"
    and relays: "bind_relays ops lookup (st_buffer_pool_size s) (st_connection_log_sample_rate s) listen 0
       (st_relays s) = BindOk (sb_relays sv)"
    and ne: "sb_relays sv \<noteq> []"
    and reg: "sb_metrics_registry sv = map br_metrics (sb_relays sv)" "sb_next_connection_id sv = 1"
  let ?rs = "sb_relays sv"
  let ?limits = "configured_limits s (map br_spec ?rs)"
  have specs: "map br_spec ?rs = listening listen 0 (st_relays s)"
    and ok: "r \<in> set ?rs \<Longrightarrow> fresh_relay ops (st_buffer_pool_size s) (st_connection_log_sample_rate s) r" for r
    using bind_relays_Ok [OF relays] by auto
  have fields: "optional_semaphore ops (rs_max_connections (br_spec r)) = Some (br_limit r)"
    "optional_semaphore ops (rs_max_connecting (br_spec r)) = Some (br_connecting r)"
    if "r \<in> set ?rs" for r
    using ok [OF that] by (simp_all add: fresh_relay_def)
  have rep: "unat n \<le> MAX_PERMITS" if "optional_semaphore ops l = Some t" "l = Some n" for l t n
    using optional_semaphore_representable [OF assms(1) that] .
  have "representable ?limits"
    unfolding representable_def
  proof (intro allI impI)
    fix i n
    assume "?limits i = Some n"
    then show "n \<le> MAX_PERMITS"
      using rep [OF gl] rep [OF gc] rep [OF fields(1) [OF nth_mem]] rep [OF fields(2) [OF nth_mem]]
      by (cases i) (auto simp: configured_limits_def split: if_splits)
  qed
  moreover have "server_store sv i = initial_store ops ?limits i" for i
    using optional_semaphore_bind [OF gl] optional_semaphore_bind [OF gc]
      optional_semaphore_bind [OF fields(1) [OF nth_mem]] optional_semaphore_bind [OF fields(2) [OF nth_mem]]
    by (cases i) (simp_all add: server_store_def initial_store_def configured_limits_def)
  then have "server_store sv = initial_store ops ?limits" by blast
  moreover have "distinct (map rs_name (listening listen 0 (st_relays s)))"
  proof -
    have "valid_settings pf s" using v validate_iff_valid by blast
    then have "distinct (map rs_name (st_relays s))" by (simp add: valid_settings_def)
    then show ?thesis by (rule listening_distinct)
  qed
  then have "distinct (map (rs_name \<circ> br_spec) ?rs)" using specs by (metis map_map)
  moreover have "sb_metrics_registry sv = map (\<lambda>r. metrics_new (rs_name (br_spec r))) ?rs"
    using ok reg(1) by (simp add: fresh_relay_def)
  ultimately show ?thesis using specs ne reg(2) ok by (simp add: fresh_relay_def)
qed

section \<open>Properties\<close>

text \<open>
  C20. A server that starts is in the initial state of the machine: its relays are exactly those
  of the settings whose listener could be bound, in order and under distinct names, at least
  one; the limits are those of the settings, tokio can represent them, and every semaphore is
  fresh; each relay has a fresh buffer pool of the configured size, its target's address as
  configured, the sample rate and counters at zero, which are those the metrics page shows.
\<close>

theorem bind_starts_machine:
  assumes "semaphore ops" "bind ops pf tls lookup listen metrics_listen s = BindOk sv"
  shows "map br_spec (sb_relays sv) = listening listen 0 (st_relays s) \<and> sb_relays sv \<noteq> [] \<and>
     distinct (map (rs_name \<circ> br_spec) (sb_relays sv)) \<and>
     representable (configured_limits s (map br_spec (sb_relays sv))) \<and>
     server_store sv = initial_store ops (configured_limits s (map br_spec (sb_relays sv))) \<and>
     sb_metrics_registry sv = map (\<lambda>r. metrics_new (rs_name (br_spec r))) (sb_relays sv) \<and>
     sb_next_connection_id sv = 1 \<and>
     (\<forall>r\<in>set (sb_relays sv).
        pool_new ops (unat (rs_buffer_size (br_spec r))) (unat (st_buffer_pool_size s)) = Some (br_pool r) \<and>
        br_metrics r = metrics_new (rs_name (br_spec r)) \<and>
        rv_address (br_target r) = ep_address (rs_target (br_spec r)) \<and>
        br_log_sample_rate r = st_connection_log_sample_rate s)"
  using assms by (rule bound_server_machine)

text \<open>A relay on counting semaphores, without files for TLS, for the witnesses.\<close>

definition example_tls :: tls_library where
  "example_tls = \<lparr>tl_open = (\<lambda>_. Inl (OsError 2)), tl_certificates = (\<lambda>_. Inl []),
     tl_private_key = (\<lambda>_. Inl []), tl_single_cert = (\<lambda>_ _. Inl [])\<rparr>"


definition example_spec :: relay_spec where
  "example_spec =
     \<lparr>rs_name = lit ''db'',
      rs_listen = \<lparr>ep_address = lit ''0.0.0.0:8080'', ep_host = lit ''0.0.0.0'', ep_port = 8080\<rparr>,
      rs_target = \<lparr>ep_address = lit ''db:5432'', ep_host = lit ''db'', ep_port = 5432\<rparr>,
      rs_connect_timeout = from_secs 10, rs_idle_timeout = None,
      rs_max_connections = Some 5, rs_max_connecting = None, rs_tcp_keepalive = None,
      rs_dns_refresh = None, rs_socket_buffer_size = None, rs_buffer_size = 2,
      rs_forward_mode = Auto\<rparr>"

definition example_settings :: "usize option \<Rightarrow> settings" where
  "example_settings max_connections =
     \<lparr>st_log_level = lit ''info'', st_metrics_listen = None, st_metrics_bearer_token = None,
      st_metrics_tls_cert = None, st_metrics_tls_key = None, st_shutdown_timeout = from_secs 30,
      st_global_max_connections = max_connections, st_global_max_connecting = None,
      st_buffer_pool_size = 4, st_connection_log_sample_rate = 1, st_reuse_port = False,
      st_relays = [example_spec]\<rparr>"

lemma example_valid: "m \<noteq> Some 0 \<Longrightarrow> validate Linux (example_settings m) = Inr ()"
  by (simp add: validate_iff_valid valid_settings_def valid_relay_def example_settings_def
      example_spec_def listener_keys_def from_secs_def is_zero_def)
    (simp add: lit_def trim_def is_whitespace_def)

lemma example_bind:
  "\<exists>sv. bind counting_ops Linux example_tls (\<lambda>_ _. Inr [1 :: nat]) (\<lambda>_. Listening) Listening (example_settings (Some 3)) = BindOk sv"
  unfolding bind_def
  by (simp add: example_valid)
    (simp add: example_settings_def example_spec_def optional_semaphore_def counting_ops_def
      MAX_PERMITS_def bound_relay_of_def pool_new_def split_beta)

lemma bind_starts_machine_witness:
  "\<exists>sv. bind counting_ops Linux example_tls (\<lambda>_ _. Inr [1 :: nat]) (\<lambda>_. Listening) Listening (example_settings (Some 3)) = BindOk sv \<and>
        map br_spec (sb_relays sv) = [example_spec]"
proof -
  obtain sv where sv: "bind counting_ops Linux example_tls (\<lambda>_ _. Inr [1 :: nat]) (\<lambda>_. Listening) Listening
      (example_settings (Some 3)) = BindOk sv" using example_bind by blast
  from bind_starts_machine [OF counting.semaphore_axioms sv] sv show ?thesis
    by (simp add: example_settings_def)
qed

lemma bind_relays_no_panic:
  assumes "semaphore ops" "unat n \<le> MAX_PERMITS"
    "\<And>r l. r \<in> set specs \<Longrightarrow> rs_max_connections r = Some l \<or> rs_max_connecting r = Some l \<Longrightarrow> unat l \<le> MAX_PERMITS"
    "\<And>j e. listen j \<noteq> NoLocalAddr e"
  shows "\<exists>relays. bind_relays ops lookup n rate listen i specs = BindOk relays"
  using assms(3)
proof (induction specs arbitrary: i)
  case Nil
  then show ?case by simp
next
  case (Cons r rs)
  have sem: "m \<le> MAX_PERMITS \<Longrightarrow> sem_new ops m \<noteq> None" for m
    using semaphore.new_None [OF assms(1), of m] by simp
  have opt: "optional_semaphore ops l \<noteq> None" if "\<And>k. l = Some k \<Longrightarrow> unat k \<le> MAX_PERMITS" for l
    using that sem by (cases l) (auto simp: optional_semaphore_def)
  have "pool_new ops (unat (rs_buffer_size r)) (unat n) \<noteq> None"
    using sem [OF assms(2)] by (simp add: pool_new_def)
  moreover have "optional_semaphore ops (rs_max_connections r) \<noteq> None"
    "optional_semaphore ops (rs_max_connecting r) \<noteq> None"
    by (rule opt; use Cons.prems [of r] in simp)+
  ultimately have "bound_relay_of ops n rate r target metrics \<noteq> None"
    for target :: "'b target_resolver" and metrics
    by (auto simp: bound_relay_of_def)
  moreover obtain relays where "bind_relays ops lookup n rate listen (i + 1) rs = BindOk relays"
    using Cons.IH [of "i + 1"] Cons.prems by auto
  ultimately show ?case using assms(4) [of i]
    by (cases "listen i") (auto simp: split_beta split: option.splits)
qed



text \<open>
  C40. Validation does not protect the start from panicking: any settings with a global connection
  limit above tokio's \<open>MAX_PERMITS\<close> (2^61 - 1) that pass validation, and the TLS set-up, make
  \<open>bind\<close> panic, whatever the network answers; and there are such settings for every such limit.
\<close>

theorem huge_limit_panics:
  assumes "semaphore ops" "MAX_PERMITS < unat n"
  shows "(validate pf s = Inr () \<longrightarrow> st_global_max_connections s = Some n \<longrightarrow>
       build_metrics_tls_acceptor tls (st_metrics_tls_cert s) (st_metrics_tls_key s) = Inr acceptor \<longrightarrow>
       bind ops pf tls lookup listen metrics_listen s = BindPanic) \<and>
     validate Linux (example_settings (Some n)) = Inr ()"
proof -
  have "n \<noteq> 0" using assms(2) by auto
  then have "validate Linux (example_settings (Some n)) = Inr ()" by (intro example_valid) simp
  moreover have "optional_semaphore ops (Some n) = None"
    using semaphore.new_None [OF assms(1)] assms(2) by (simp add: optional_semaphore_def)
  ultimately show ?thesis by (simp add: bind_def)
qed

lemma huge_limit_panics_witness:
  "bind counting_ops Linux example_tls (\<lambda>_ _. Inr [1 :: nat]) (\<lambda>_. Listening) Listening
     (example_settings (Some 2305843009213693952)) = BindPanic"
proof -
  have "st_global_max_connections (example_settings (Some k)) = Some k"
    "st_metrics_tls_cert (example_settings (Some k)) = None" for k
    by (simp_all add: example_settings_def)
  then show ?thesis
    using huge_limit_panics [OF counting.semaphore_axioms, of "2305843009213693952" Linux
        "example_settings (Some 2305843009213693952)" example_tls None "\<lambda>_ _. Inr [1 :: nat]" "\<lambda>_. Listening"
        Listening]
    by (simp add: MAX_PERMITS_def)
qed

text \<open>
  Binding a listener either returns the first address its name resolves to, after every
  socket call succeeded, or the error of the first call that failed; \<open>SO_REUSEPORT\<close> is requested
  exactly when it is configured on a Unix system, always before the bind.
\<close>

lemma bind_listener_result:
  "(bind_listener pf lookup fails address reuse_port = Inr a \<longleftrightarrow>
     (\<exists>as. lookup address = Inr (a # as) \<and> (\<forall>c\<in>set (socket_calls pf reuse_port a). fails c = None))) \<and>
   (ReusePort \<in> set (socket_calls pf reuse_port a) \<longleftrightarrow> reuse_port \<and> pf \<noteq> NonUnix) \<and>
   (\<exists>before after. socket_calls pf reuse_port a = before @ BindTo a # after \<and> ReusePort \<notin> set after)"
proof -
  have none: "first_failure fails cs = None \<longleftrightarrow> (\<forall>c\<in>set cs. fails c = None)" for cs
    by (induction cs) (auto split: option.splits)
  have "\<exists>before after. socket_calls pf reuse_port a = before @ BindTo a # after \<and> ReusePort \<notin> set after"
    by (rule exI [of _ "[NewSocket a, ReuseAddress] @ (if pf \<noteq> NonUnix \<and> reuse_port then [ReusePort] else [])"])
      (simp add: socket_calls_def)
  then show ?thesis
    by (auto simp: bind_listener_def none socket_calls_def split: sum.splits list.splits option.splits)
qed

end
