(* ===== verification/Fair_Runs.thy ===== *)
theory Fair_Runs
  imports Main
begin

text \<open>
  Infinite runs of several processes under weak fairness: a process of the fair set that could
  take a step from some moment on takes one sooner or later. The rule \<open>eventually\<close> turns a
  measure that no process raises, and that some process able to step lowers, into progress.
  No code of the program.
\<close>

locale fair_run =
  fixes step :: "'p \<Rightarrow> 's \<Rightarrow> 's \<Rightarrow> bool" and fair_set :: "'p set"
    and run :: "nat \<Rightarrow> 's" and who :: "nat \<Rightarrow> 'p"
  assumes steps: "step (who n) (run n) (run (Suc n))"
    and fair: "p \<in> fair_set \<Longrightarrow> \<exists>m\<ge>n. who m = p \<or> (\<nexists>s'. step p (run m) s')"
begin

lemma lowered:
  assumes "I (run n)" "\<not> Q (run n)" "p \<in> fair_set" "helpful p (run n)"
    and keeps: "\<And>q s s'. I s \<Longrightarrow> \<not> Q s \<Longrightarrow> step q s s' \<Longrightarrow> Q s' \<or> I s' \<and> f s' \<le> f s"
    and able: "\<And>s. I s \<Longrightarrow> \<not> Q s \<Longrightarrow> helpful p s \<Longrightarrow> \<exists>s'. step p s s'"
    and lowers: "\<And>s s'. I s \<Longrightarrow> \<not> Q s \<Longrightarrow> helpful p s \<Longrightarrow> step p s s' \<Longrightarrow> Q s' \<or> f s' < f s"
    and stays: "\<And>q s s'. I s \<Longrightarrow> \<not> Q s \<Longrightarrow> helpful p s \<Longrightarrow> step q s s' \<Longrightarrow>
                  Q s' \<or> f s' < f s \<or> helpful p s'"
  shows "\<exists>m\<ge>n. Q (run m) \<or> (I (run m) \<and> f (run m) < (f (run n) :: nat))"
proof (rule ccontr)
  assume none: "\<not> ?thesis"
  have calm: "I (run (n + k)) \<and> f (run (n + k)) \<le> f (run n) \<and> helpful p (run (n + k))" for k
  proof (induction k)
    case 0
    then show ?case using assms(1,4) by simp
  next
    case (Suc k)
    have "\<not> Q (run (n + k))" "\<not> Q (run (n + Suc k))" using none by auto
    moreover have "\<not> (I (run (n + Suc k)) \<and> f (run (n + Suc k)) < f (run n))" using none by auto
    moreover have "step (who (n + k)) (run (n + k)) (run (n + Suc k))" using steps by simp
    ultimately show ?case using Suc keeps stays by (meson le_less_trans le_trans not_le)
  qed
  obtain m where m: "n \<le> m" "who m = p \<or> (\<nexists>s'. step p (run m) s')" using fair [OF assms(3)] by blast
  then have c: "I (run m)" "f (run m) \<le> f (run n)" "helpful p (run m)" "\<not> Q (run m)"
    using calm [of "m - n"] none by auto
  then have "who m = p" using m(2) able by blast
  then have "step p (run m) (run (Suc m))" using steps [of m] by simp
  then have "Q (run (Suc m)) \<or> f (run (Suc m)) < f (run m)" using lowers c by blast
  moreover have "I (run (Suc m)) \<or> Q (run (Suc m))" using keeps c steps [of m] by blast
  ultimately show False using none c(2) m(1) by (meson le_Suc_eq less_le_trans)
qed

lemma eventually:
  assumes "I (run n)"
    and keeps: "\<And>q s s'. I s \<Longrightarrow> \<not> Q s \<Longrightarrow> step q s s' \<Longrightarrow> Q s' \<or> I s' \<and> f s' \<le> (f s :: nat)"
    and helps: "\<And>s. I s \<Longrightarrow> \<not> Q s \<Longrightarrow> \<exists>p\<in>fair_set. helpful p s"
    and able: "\<And>p s. I s \<Longrightarrow> \<not> Q s \<Longrightarrow> helpful p s \<Longrightarrow> \<exists>s'. step p s s'"
    and lowers: "\<And>p s s'. I s \<Longrightarrow> \<not> Q s \<Longrightarrow> helpful p s \<Longrightarrow> step p s s' \<Longrightarrow> Q s' \<or> f s' < f s"
    and stays: "\<And>p q s s'. I s \<Longrightarrow> \<not> Q s \<Longrightarrow> helpful p s \<Longrightarrow> step q s s' \<Longrightarrow>
                  Q s' \<or> f s' < f s \<or> helpful p s'"
  shows "\<exists>m\<ge>n. Q (run m)"
  using assms(1)
proof (induction "f (run n)" arbitrary: n rule: less_induct)
  case less
  show ?case
  proof (cases "Q (run n)")
    case False
    then obtain p where p: "p \<in> fair_set" "helpful p (run n)" using helps less.prems by blast
    have "\<exists>m\<ge>n. Q (run m) \<or> (I (run m) \<and> f (run m) < f (run n))"
      by (rule lowered [of I n Q p helpful f, OF less.prems False p]; (rule keeps able lowers stays; assumption))
    then obtain m where m: "n \<le> m" "Q (run m) \<or> (I (run m) \<and> f (run m) < f (run n))" by blast
    then show ?thesis using less.hyps [of m] le_trans by blast
  qed auto
qed

end

end
