(* ===== verification/Relay_Liveness.thy ===== *)
theory Relay_Liveness
  imports Relay_Correctness Fair_Runs
begin

text \<open>
  Liveness of the server of \<open>src/src/server.rs\<close>: in every run in which the scheduler is fair to
  the listeners, the helper tasks, the connection tasks and \<open>Server::run\<close> itself (its deadline
  included), a shutdown that was signalled completes, and a forced shutdown ends every
  connection.
\<close>

section \<open>Who takes a step\<close>

datatype process = ListenerOf nat | TaskOf nat | RunTask | HelperTasks | Environment

fun process_step ::
  "'s semaphore_ops \<Rightarrow> usize \<Rightarrow> process \<Rightarrow> 's server_state \<Rightarrow> 's server_state \<Rightarrow> bool" where
  "process_step ops rate (ListenerOf i) s s' \<longleftrightarrow>
     i < length (sv_listeners s) \<and> (\<exists>ev. run_relay_listener ops rate i ev s = Some s')"
| "process_step ops rate (TaskOf k) s s' \<longleftrightarrow>
     k < length (sv_tasks s) \<and> (\<exists>ev. run_task ops k ev s = Some s')"
| "process_step ops rate RunTask s s' \<longleftrightarrow> (\<exists>ev. run_server ev s = Some s')"
| "process_step ops rate HelperTasks s s' \<longleftrightarrow>
     sv_shutdown s \<and> 0 < sv_helpers s \<and> s' = s\<lparr>sv_helpers := sv_helpers s - 1\<rparr>"
| "process_step ops rate Environment s s' \<longleftrightarrow>
     s' = s\<lparr>sv_shutdown := True\<rparr> \<or>
     (0 < sv_helpers s \<and> s' = s\<lparr>sv_pages := sv_pages s + 1\<rparr>) \<or>
     (0 < sv_pages s \<and> s' = s\<lparr>sv_pages := sv_pages s - 1\<rparr>)"

lemma server_step_process: "server_step ops rate s s' \<longleftrightarrow> (\<exists>p. process_step ops rate p s s')"
proof
  assume "server_step ops rate s s'"
  then show "\<exists>p. process_step ops rate p s s'"
  proof (cases rule: server_step.cases)
    case (listener i event)
    then show ?thesis by (intro exI [of _ "ListenerOf i"]) auto
  next
    case (connection k event)
    then show ?thesis by (intro exI [of _ "TaskOf k"]) auto
  next
    case (run event)
    then show ?thesis by (intro exI [of _ RunTask]) auto
  next
    case helper
    then show ?thesis by (intro exI [of _ HelperTasks]) auto
  qed (intro exI [of _ Environment]; simp)+
next
  assume "\<exists>p. process_step ops rate p s s'"
  then obtain p where "process_step ops rate p s s'" by blast
  then show "server_step ops rate s s'"
    by (cases p) (auto intro: server_step.intros server_step.intros [simplified])
qed

text \<open>The runtime and its timers are fair to every task; the outside world owes nothing.\<close>

definition scheduled :: "process set" where
  "scheduled = - {Environment}"

locale fair_server =
  fixes ops :: "'s semaphore_ops" and rate :: usize
    and run :: "nat \<Rightarrow> 's server_state" and who :: "nat \<Rightarrow> process"
  assumes run_steps: "process_step ops rate (who n) (run n) (run (Suc n))"
    and run_fair: "p \<in> scheduled \<Longrightarrow> \<exists>m\<ge>n. who m = p \<or> (\<nexists>s'. process_step ops rate p (run m) s')"

sublocale fair_server \<subseteq> fair: fair_run "process_step ops rate" scheduled run who
  by unfold_locales (rule run_steps, rule run_fair)

section \<open>Shutdown makes progress\<close>

fun run_rank :: "run_phase \<Rightarrow> nat" where
  "run_rank Serving = 2"
| "run_rank Draining = 1"
| "run_rank _ = 0"

definition shutdown_rank :: "'s server_state \<Rightarrow> nat" where
  "shutdown_rank s = sum_list (map stop_steps (sv_listeners s)) + sv_helpers s + run_rank (sv_run s)"

definition complete :: "'s server_state \<Rightarrow> bool" where
  "complete s \<longleftrightarrow> (\<exists>graceful. sv_run s = Complete graceful)"

text \<open>The process that has to move next: a listener, a helper, and at last \<open>run\<close> itself.\<close>

fun must_move :: "process \<Rightarrow> 's server_state \<Rightarrow> bool" where
  "must_move (ListenerOf i) s \<longleftrightarrow> i < length (sv_listeners s) \<and> sv_listeners s ! i \<noteq> Stopped"
| "must_move HelperTasks s \<longleftrightarrow> 0 < sv_helpers s"
| "must_move RunTask s \<longleftrightarrow> listeners_joined s"
| "must_move _ s \<longleftrightarrow> False"

text \<open>Once the signal is given, every step of a listener brings it closer to its end.\<close>

lemma stopping_listener:
  assumes "sv_shutdown s" "i < length (sv_listeners s)" "run_relay_listener ops rate i ev s = Some s'"
  shows "\<exists>pc. s' = s\<lparr>sv_listeners := sv_listeners s', sv_metrics := sv_metrics s', sv_store := sv_store s',
             sv_next_id := sv_next_id s', sv_tasks := sv_tasks s', sv_log := sv_log s'\<rparr> \<and>
           sv_listeners s' = (sv_listeners s)[i := pc] \<and>
           stop_steps pc < stop_steps (sv_listeners s ! i)"
proof (cases "sv_listeners s ! i")
  case (Admitting ps)
  then show ?thesis using assms
    by (cases "acquire_permit ops (limits_of i ! length ps) (sv_store s)")
      (auto simp: run_relay_listener_def limits_of_def count_metric_def set_listener_def split: if_splits)
next
  case (Rejecting ps)
  then show ?thesis using assms by (cases ps) (auto simp: run_relay_listener_def set_listener_def)
next
  case (Numbered n ps)
  then show ?thesis using assms
    by (auto simp: run_relay_listener_def spawn_connection_def Let_def set_listener_def)
qed (use assms in \<open>auto simp: run_relay_listener_def set_listener_def split: if_splits\<close>)

lemma listener_rank:
  assumes "sv_shutdown s" "i < length (sv_listeners s)" "run_relay_listener ops rate i ev s = Some s'"
  shows "shutdown_rank s' < shutdown_rank s" "sv_shutdown s'"
proof -
  obtain pc where s': "s' = s\<lparr>sv_listeners := sv_listeners s', sv_metrics := sv_metrics s', sv_store := sv_store s',
             sv_next_id := sv_next_id s', sv_tasks := sv_tasks s', sv_log := sv_log s'\<rparr>"
    and pc: "sv_listeners s' = (sv_listeners s)[i := pc]" "stop_steps pc < stop_steps (sv_listeners s ! i)"
    using stopping_listener [OF assms] by blast
  have "sv_helpers s' = sv_helpers s" "sv_run s' = sv_run s" "sv_shutdown s' = sv_shutdown s"
    by (subst s', simp)+
  then show "shutdown_rank s' < shutdown_rank s" "sv_shutdown s'"
    using sum_list_map_update [OF assms(2), of stop_steps pc] pc assms(1)
    by (simp_all add: shutdown_rank_def)
qed

lemma task_frame:
  assumes "run_task ops k ev s = Some s'"
  shows "sv_listeners s' = sv_listeners s" "sv_helpers s' = sv_helpers s" "sv_run s' = sv_run s"
    "sv_shutdown s' = sv_shutdown s" "sv_force s' = sv_force s"
  using assms by (cases rule: task_step_cases; simp)+

lemma run_rank_step:
  assumes "run_server ev s = Some s'"
  shows "complete s' \<or> shutdown_rank s' < shutdown_rank s" "sv_shutdown s' = sv_shutdown s"
    "shutdown_rank s' \<le> shutdown_rank s"
  using assms
  by (auto simp: run_server_def shutdown_rank_def complete_def
      split: run_phase.splits run_event.splits if_splits)

lemma rank_step:
  assumes "sv_shutdown s" "process_step ops rate p s s'"
  shows "sv_shutdown s' \<and> shutdown_rank s' \<le> shutdown_rank s"
proof (cases p)
  case (ListenerOf i)
  then show ?thesis using assms listener_rank [OF assms(1)] by (auto intro: less_imp_le)
next
  case (TaskOf k)
  then show ?thesis using assms task_frame by (fastforce simp: shutdown_rank_def)
next
  case RunTask
  then show ?thesis using assms run_rank_step by fastforce
qed (use assms in \<open>auto simp: shutdown_rank_def\<close>)

lemma must_move_able:
  assumes "sv_shutdown s" "\<not> complete s" "must_move p s"
  shows "\<exists>s'. process_step ops rate p s s'"
proof (cases p)
  case (ListenerOf i)
  then show ?thesis using listener_progress [OF assms(1), of i ops rate] assms(3) by auto
next
  case RunTask
  show ?thesis
  proof (cases "sv_run s")
    case Draining
    then show ?thesis using RunTask
      by (auto simp: run_server_def intro!: exI [of _ DeadlineElapsed])
  qed (use assms RunTask in \<open>auto simp: run_server_def complete_def\<close>)
qed (use assms in auto)

lemma must_move_lowers:
  assumes "sv_shutdown s" "must_move p s" "process_step ops rate p s s'"
  shows "complete s' \<or> shutdown_rank s' < shutdown_rank s"
proof (cases p)
  case (ListenerOf i)
  then show ?thesis using assms listener_rank [OF assms(1)] by auto
next
  case RunTask
  then show ?thesis using assms run_rank_step(1) by auto
qed (use assms in \<open>auto simp: shutdown_rank_def\<close>)

lemma must_move_stays:
  assumes "sv_shutdown s" "must_move p s" "process_step ops rate q s s'"
  shows "complete s' \<or> shutdown_rank s' < shutdown_rank s \<or> must_move p s'"
proof (cases q)
  case (ListenerOf i)
  then show ?thesis using assms listener_rank [OF assms(1)] by auto
next
  case (TaskOf k)
  then obtain ev where "run_task ops k ev s = Some s'" using assms(3) by auto
  from task_frame [OF this] show ?thesis using assms(2) by (cases p) (simp_all add: listeners_joined_def)
next
  case RunTask
  then show ?thesis using assms run_rank_step(1) by auto
next
  case HelperTasks
  then show ?thesis using assms by (simp add: shutdown_rank_def)
next
  case Environment
  then show ?thesis using assms by (cases p) (auto simp: listeners_joined_def)
qed

lemma someone_must_move: "\<exists>p\<in>scheduled. must_move p s"
proof (cases "listeners_joined s")
  case True
  then show ?thesis by (intro bexI [of _ RunTask]) (simp_all add: scheduled_def)
next
  case False
  then consider i where "i < length (sv_listeners s)" "sv_listeners s ! i \<noteq> Stopped" | "0 < sv_helpers s"
    by (auto simp: listeners_joined_def list_all_length)
  then show ?thesis
  proof cases
    case (1 i)
    then show ?thesis by (intro bexI [of _ "ListenerOf i"]) (simp_all add: scheduled_def)
  next
    case 2
    then show ?thesis by (intro bexI [of _ HelperTasks]) (simp_all add: scheduled_def)
  qed
qed

section \<open>A forced task ends\<close>

fun task_rank :: "task_phase \<Rightarrow> nat" where
  "task_rank (Connecting rc gc r g) = 6"
| "task_rank (Relaying ps r g) = length ps + 3"
| "task_rank (Returning ps) = length ps"

lemma handle_connection_rank:
  assumes "handle_connection ops force lc ev ph m st = Some (ph', m', st', events)"
  shows "task_rank ph' < task_rank ph"
  using assms
  by (cases "(ops, force, lc, ev, ph, m, st)" rule: handle_connection.cases)
    (auto split: if_splits prod.splits bool.splits)

definition phase_of :: "nat \<Rightarrow> 's server_state \<Rightarrow> task_phase" where
  "phase_of k s = tk_phase (sv_tasks s ! k)"

lemma run_task_rank:
  assumes "run_task ops k ev s = Some s'" "k < length (sv_tasks s)"
  shows "task_rank (phase_of k s') < task_rank (phase_of k s)"
    "length (sv_tasks s') = length (sv_tasks s)" "j \<noteq> k \<Longrightarrow> phase_of j s' = phase_of j s"
  using assms by (auto simp: run_task_def phase_of_def Let_def dest: handle_connection_rank)

lemma listener_task_frame:
  assumes "run_relay_listener ops rate i ev s = Some s'" "k < length (sv_tasks s)"
  shows "phase_of k s' = phase_of k s \<and> k < length (sv_tasks s') \<and> sv_force s' = sv_force s"
  using assms
  by (cases rule: listener_step_cases)
    (auto simp: phase_of_def spawn_connection_def Let_def nth_append count_metric_def)

lemma other_task_frame:
  assumes "process_step ops rate p s s'" "k < length (sv_tasks s)" "sv_force s"
  shows "k < length (sv_tasks s') \<and> sv_force s' \<and>
    (if p = TaskOf k then task_rank (phase_of k s') < task_rank (phase_of k s)
     else phase_of k s' = phase_of k s)"
proof (cases p)
  case (ListenerOf i)
  then show ?thesis using assms listener_task_frame by fastforce
next
  case (TaskOf j)
  then obtain ev where ev: "run_task ops j ev s = Some s'" "j < length (sv_tasks s)" using assms by auto
  then show ?thesis using assms TaskOf run_task_rank [OF ev] task_frame [OF ev(1)] by auto
next
  case RunTask
  then obtain ev where ev: "run_server ev s = Some s'" using assms(1) by auto
  then have "sv_force s'" using assms(3)
    by (auto simp: run_server_def split: run_phase.splits run_event.splits if_splits)
  then show ?thesis using run_server_frame(3) [OF ev] assms(2) RunTask by (simp add: phase_of_def)
qed (use assms in \<open>auto simp: phase_of_def\<close>)

context fair_server
begin

lemma shutdown_ends: "sv_shutdown (run n) \<Longrightarrow> \<exists>m\<ge>n. complete (run m)"
proof (rule fair.eventually [where I = sv_shutdown and f = shutdown_rank and helpful = must_move])
  fix p q and s s' :: "'s server_state"
  assume h: "sv_shutdown s" "\<not> complete s"
  show "\<exists>p\<in>scheduled. must_move p s" by (rule someone_must_move)
  show "\<exists>s'. process_step ops rate p s s'" if "must_move p s" using must_move_able [OF h that] .
  show "complete s' \<or> sv_shutdown s' \<and> shutdown_rank s' \<le> shutdown_rank s"
    if "process_step ops rate q s s'" using rank_step [OF h(1) that] by blast
  show "complete s' \<or> shutdown_rank s' < shutdown_rank s"
    if "must_move p s" "process_step ops rate p s s'" using must_move_lowers [OF h(1) that] .
  show "complete s' \<or> shutdown_rank s' < shutdown_rank s \<or> must_move p s'"
    if "must_move p s" "process_step ops rate q s s'" using must_move_stays [OF h(1) that] .
qed

lemma task_ends:
  assumes "sv_force (run n)" "k < length (sv_tasks (run n))"
  shows "\<exists>m\<ge>n. finished (phase_of k (run m))"
proof (rule fair.eventually [where I = "\<lambda>s. sv_force s \<and> k < length (sv_tasks s)"
      and f = "\<lambda>s. task_rank (phase_of k s)" and helpful = "\<lambda>p s. p = TaskOf k"])
  show "sv_force (run n) \<and> k < length (sv_tasks (run n))" using assms by simp
next
  fix s :: "'s server_state"
  show "\<exists>p\<in>scheduled. p = TaskOf k" by (simp add: scheduled_def)
  fix p
  assume "sv_force s \<and> k < length (sv_tasks s)" "\<not> finished (phase_of k s)" "p = TaskOf k"
  then show "\<exists>s'. process_step ops rate p s s'"
    using forced_task_step [of s k ops] by (auto simp: phase_of_def)
qed (use other_task_frame in \<open>force split: if_splits\<close>)+

end

section \<open>Fair runs exist\<close>

text \<open>A list of actions that leaves the server with nothing to do, followed by idling.\<close>

fun process_of :: "action \<Rightarrow> process" where
  "process_of (Listener i ev) = ListenerOf i"
| "process_of (Task k ev) = TaskOf k"
| "process_of (Run ev) = RunTask"
| "process_of Signal = Environment"
| "process_of StopHelper = HelperTasks"

definition scripted_run ::
  "'s semaphore_ops \<Rightarrow> usize \<Rightarrow> action list \<Rightarrow> 's server_state \<Rightarrow> nat \<Rightarrow> 's server_state" where
  "scripted_run ops rate as s n = the (perform_all ops rate (take n as) s)"

definition scripted_who :: "action list \<Rightarrow> nat \<Rightarrow> process" where
  "scripted_who as n = (if n < length as then process_of (as ! n) else Environment)"

definition idle_state :: "'s server_state \<Rightarrow> bool" where
  "idle_state s \<longleftrightarrow> sv_shutdown s \<and> complete s \<and> listeners_joined s \<and>
     list_all (\<lambda>t. finished (tk_phase t)) (sv_tasks s)"

lemma perform_process: "perform ops rate a s = Some s' \<Longrightarrow> process_step ops rate (process_of a) s s'"
  by (cases a) (auto split: if_splits)

lemma idle_quiet:
  assumes "idle_state s" "p \<in> scheduled"
  shows "\<nexists>s'. process_step ops rate p s s'"
proof (cases p)
  case (ListenerOf i)
  then show ?thesis using assms(1)
    by (auto simp: idle_state_def listeners_joined_def list_all_length run_relay_listener_def)
next
  case (TaskOf k)
  then show ?thesis using assms(1)
    by (auto simp: idle_state_def list_all_length run_task_def Let_def finished_no_step)
next
  case RunTask
  then show ?thesis using assms(1) by (auto simp: idle_state_def complete_def run_server_def)
next
  case HelperTasks
  then show ?thesis using assms(1) by (simp add: idle_state_def listeners_joined_def)
next
  case Environment
  then show ?thesis using assms(2) by (simp add: scheduled_def)
qed

lemma scripted_fair:
  assumes "perform_all ops rate as s = Some t" "idle_state t"
  shows "fair_server ops rate (scripted_run ops rate as s) (scripted_who as)"
proof
  have late: "scripted_run ops rate as s n = t" if "length as \<le> n" for n
    using that assms(1) by (simp add: scripted_run_def)
  show "process_step ops rate (scripted_who as n) (scripted_run ops rate as s n)
      (scripted_run ops rate as s (Suc n))" for n
  proof (cases "n < length as")
    case True
    have "perform_all ops rate (take n as @ as ! n # drop (Suc n) as) s = Some t"
      using assms(1) id_take_nth_drop [OF True] by simp
    then obtain u v where uv: "perform_all ops rate (take n as) s = Some u" "perform ops rate (as ! n) u = Some v"
      by (auto simp: perform_all_append bind_eq_Some_conv)
    then have "perform_all ops rate (take (Suc n) as) s = Some v"
      using True by (simp add: take_Suc_conv_app_nth perform_all_append)
    then show ?thesis using uv True perform_process by (simp add: scripted_run_def scripted_who_def)
  next
    case False
    have "t\<lparr>sv_shutdown := True\<rparr> = t" using assms(2) by (cases t) (simp add: idle_state_def)
    then show ?thesis using False late by (simp add: scripted_who_def)
  qed
  show "\<exists>m\<ge>n. scripted_who as m = p \<or> (\<nexists>s'. process_step ops rate p (scripted_run ops rate as s m) s')"
    if "p \<in> scheduled" for p n
    using idle_quiet [OF assms(2) that] late [of "max n (length as)"]
    by (intro exI [of _ "max n (length as)"]) simp
qed

text \<open>A client is admitted, the shutdown is signalled, its deadline passes, and all ends.\<close>

definition forced_actions :: "action list" where
  "forced_actions = admit_actions @ [Signal, Run JoinAll, Run DeadlineElapsed,
     Task 0 (ConnectEnds ConnectForced (from_secs 1)), Task 0 DropNext, Task 0 DropNext, Task 0 DropNext,
     Task 0 DropNext, Listener 0 SeeShutdown, Run JoinAll]"

lemma forced_actions_run:
  "\<exists>t. perform_all counting_ops 1 forced_actions example_start = Some t \<and> idle_state t"
  by (simp add: forced_actions_def admit_actions_def example_start_def run_defs Let_def
      idle_state_def complete_def ex_bool_eq)

interpretation forced: fair_server counting_ops 1 "scripted_run counting_ops 1 forced_actions example_start"
  "scripted_who forced_actions"
  using forced_actions_run scripted_fair by blast

section \<open>Properties\<close>

text \<open>
  C4. Shutdown always completes: in every infinite run whose scheduler is fair to the server's own
  tasks and timers, from whatever state, once the signal has been given \<open>Server::run\<close> reaches its
  end, however many clients keep arriving or sending.
\<close>

theorem shutdown_completes:
  assumes "fair_server ops rate run who" "sv_shutdown (run n)"
  shows "\<exists>m\<ge>n. \<exists>graceful. sv_run (run m) = Complete graceful"
  using fair_server.shutdown_ends [OF assms] by (simp add: complete_def)

lemma shutdown_completes_witness:
  "\<exists>m\<ge>9. \<exists>graceful.
     sv_run (scripted_run counting_ops 1 forced_actions example_start m) = Complete graceful"
  by (rule shutdown_completes [OF forced.fair_server_axioms])
    (simp add: scripted_run_def forced_actions_def admit_actions_def example_start_def run_defs Let_def)

text \<open>
  C11. A forced shutdown ends every connection: in every fair run, each connection task that exists
  when the deadline has passed comes to its end and has dropped all its permits, whatever its
  client and its upstream do.
\<close>

theorem forced_connections_end:
  assumes "fair_server ops rate run who" "sv_force (run n)" "k < length (sv_tasks (run n))"
  shows "\<exists>m\<ge>n. finished (tk_phase (sv_tasks (run m) ! k)) \<and> task_held (tk_phase (sv_tasks (run m) ! k)) = []"
  using fair_server.task_ends [OF assms] by (auto simp: phase_of_def finished_def)

lemma forced_connections_end_witness:
  "\<exists>m\<ge>11. task_held (tk_phase (sv_tasks (scripted_run counting_ops 1 forced_actions example_start m) ! 0)) = []"
proof -
  let ?s = "scripted_run counting_ops 1 forced_actions example_start 11"
  have "sv_force ?s" "0 < length (sv_tasks ?s)"
    by (simp_all add: scripted_run_def forced_actions_def admit_actions_def example_start_def run_defs Let_def)
  from forced_connections_end [OF forced.fair_server_axioms this] show ?thesis by blast
qed

end
