(* ===== verification/Server_Process.thy ===== *)
theory Server_Process
  imports Load_Settings Server_Bind Relay_Liveness
begin

text \<open>
  The program as a process (\<open>src/src/main.rs\<close> and \<open>src/src/server.rs\<close>, lines 225 to 240, 336 to
  350 and 697 to 711): loading the settings, binding, the state \<open>Server::run\<close> starts from, and
  \<open>run_until_signal\<close>, which races the server with the signals of the operating system.
\<close>

section \<open>From settings to a running server\<close>

text \<open>The state in which \<open>Server::run\<close> starts its listeners; helpers are the refresh tasks and
  the metrics listener.\<close>

definition run_start :: "('s, 'a) server \<Rightarrow> 's server_state" where
  "run_start sv =
     \<lparr>sv_store = server_store sv, sv_listeners = map (\<lambda>_. Accepting) (sb_relays sv), sv_tasks = [],
      sv_metrics = sb_metrics_registry sv, sv_next_id = sb_next_connection_id sv,
      sv_shutdown = False, sv_force = False,
      sv_helpers = length (filter (\<lambda>r. rs_dns_refresh (br_spec r) \<noteq> None) (sb_relays sv)) +
        (if sb_metrics_listener sv then 1 else 0),
      sv_pages = 0, sv_run = Serving, sv_log = []\<rparr>"

lemma run_start_initial:
  assumes "server_store sv = initial_store ops limits" "sb_next_connection_id sv = 1"
    "sb_metrics_registry sv = map (\<lambda>r. metrics_new (rs_name (br_spec r))) (sb_relays sv)"
  shows "run_start sv = initial_state ops limits (map (rs_name \<circ> br_spec) (sb_relays sv))
           (sv_helpers (run_start sv))"
  by (simp add: run_start_def initial_state_def assms comp_def)

text \<open>What \<open>Relay_Correctness\<close> gives for a server that was bound; the facts the properties below
  share.\<close>

lemma bound_server_facts:
  assumes "semaphore ops" "bind ops pf tls lookup listen metrics_listen s = BindOk sv"
    "(server_step ops rate)\<^sup>*\<^sup>* (run_start sv) st"
  shows "running_server ops (configured_limits s (map br_spec (sb_relays sv)))"
    "reachable ops rate (configured_limits s (map br_spec (sb_relays sv)))
       (map (rs_name \<circ> br_spec) (sb_relays sv)) (sv_helpers (run_start sv)) st"
proof -
  obtain rep: "representable (configured_limits s (map br_spec (sb_relays sv)))"
    and store: "server_store sv = initial_store ops (configured_limits s (map br_spec (sb_relays sv)))"
    and counters: "sb_next_connection_id sv = 1"
      "sb_metrics_registry sv = map (\<lambda>r. metrics_new (rs_name (br_spec r))) (sb_relays sv)"
    using bound_server_machine [OF assms(1,2)] by blast
  show "running_server ops (configured_limits s (map br_spec (sb_relays sv)))"
    by (rule running_serverI [OF assms(1) rep])
  show "reachable ops rate (configured_limits s (map br_spec (sb_relays sv)))
       (map (rs_name \<circ> br_spec) (sb_relays sv)) (sv_helpers (run_start sv)) st"
    using assms(3) run_start_initial [OF store counters] by (simp add: reachable_def)
qed

section \<open>Signals\<close>

text \<open>
  \<open>registered\<close> is the failure to install the SIGTERM handler, if any; \<open>CtrlC\<close> is the result of
  \<open>tokio::signal::ctrl_c\<close>. \<open>None\<close>: the event is not awaited on this platform.
\<close>

datatype signal_event = CtrlC "io_error option" | SigTerm

fun ctrl_c :: "io_error option \<Rightarrow> io_error + unit" where
  "ctrl_c None = Inr ()"
| "ctrl_c (Some e) = Inl e"

definition wait_for_shutdown_signal ::
  "platform \<Rightarrow> io_error option \<Rightarrow> signal_event \<Rightarrow> (io_error + unit) option" where
  "wait_for_shutdown_signal pf registered event =
     (if pf = NonUnix then (case event of CtrlC result \<Rightarrow> Some (ctrl_c result) | SigTerm \<Rightarrow> None)
      else case registered of
        Some e \<Rightarrow> Some (Inl e)
      | None \<Rightarrow> Some (case event of CtrlC result \<Rightarrow> ctrl_c result | SigTerm \<Rightarrow> Inr ()))"

section \<open>The process\<close>

datatype program_error = LoadFailed config_error | StartFailed bind_error | SignalFailed io_error

datatype 's program =
    Up "'s server_state"          \<comment> \<open>in the \<open>select!\<close> of \<open>run_until_signal\<close>\<close>
  | Stopping "'s server_state"    \<comment> \<open>after the signal, in \<open>server_task.await\<close>\<close>
  | Exited "program_error + unit"
  | Aborted

definition run_until_signal :: "('s, 'a) server bind_result \<Rightarrow> 's program" where
  "run_until_signal bound =
     (case bound of
        BindPanic \<Rightarrow> Aborted
      | BindFailed e \<Rightarrow> Exited (Inl (StartFailed e))
      | BindOk server \<Rightarrow> Up (run_start server))"

inductive program_step ::
  "'s semaphore_ops \<Rightarrow> usize \<Rightarrow> platform \<Rightarrow> 's program \<Rightarrow> 's program \<Rightarrow> bool"
  for ops :: "'s semaphore_ops" and rate :: usize and pf :: platform where
  serve: "server_step ops rate s s' \<Longrightarrow> sv_shutdown s' = sv_shutdown s \<Longrightarrow>
    program_step ops rate pf (Up s) (Up s')"
| returned: "sv_run s = Complete graceful \<Longrightarrow> program_step ops rate pf (Up s) (Exited (Inr ()))"
| signalled: "wait_for_shutdown_signal pf registered event = Some (Inr ()) \<Longrightarrow>
    program_step ops rate pf (Up s) (Stopping (s\<lparr>sv_shutdown := True\<rparr>))"
| signal_failed: "wait_for_shutdown_signal pf registered event = Some (Inl e) \<Longrightarrow>
    program_step ops rate pf (Up s) (Exited (Inl (SignalFailed e)))"
| stop: "server_step ops rate s s' \<Longrightarrow> program_step ops rate pf (Stopping s) (Stopping s')"
| stopped: "sv_run s = Complete graceful \<Longrightarrow> program_step ops rate pf (Stopping s) (Exited (Inr ()))"

inductive_cases program_step_UpE: "program_step ops rate pf (Up s) p"
inductive_cases program_step_StoppingE: "program_step ops rate pf (Stopping s) p"
inductive_simps program_step_Exited [simp]: "program_step ops rate pf (Exited r) p"
inductive_simps program_step_Aborted [simp]: "program_step ops rate pf Aborted p"

text \<open>\<open>main\<close>: the serve command, the only one there is; \<open>init_logging\<close> cannot fail.\<close>

definition main ::
  "platform \<Rightarrow> (path \<Rightarrow> io_error + rstr) \<Rightarrow> (rstr \<Rightarrow> rstr + file_config) \<Rightarrow>
   (settings \<Rightarrow> ('s, 'a) server bind_result) \<Rightarrow> serve_args \<Rightarrow> 's program" where
  "main pf read_to_string from_toml bind_server args =
     (case load_settings pf read_to_string from_toml args of
        Inl e \<Rightarrow> Exited (Inl (LoadFailed e))
      | Inr settings \<Rightarrow> run_until_signal (bind_server settings))"

section \<open>Lemmas\<close>

text \<open>Before the signal nothing of the server has stopped.\<close>

definition serving :: "nat \<Rightarrow> 's server_state \<Rightarrow> bool" where
  "serving helpers s \<longleftrightarrow> \<not> sv_shutdown s \<and> sv_run s = Serving \<and> \<not> sv_force s \<and>
     (\<forall>pc\<in>set (sv_listeners s). pc \<noteq> Stopped) \<and> sv_helpers s = helpers"

lemma serving_step:
  assumes "serving h s" "server_step ops rate s s'" "sv_shutdown s' = sv_shutdown s"
  shows "serving h s'"
  using assms(2)
proof (cases rule: server_step.cases)
  case (listener i event)
  moreover have "sv_helpers s' = sv_helpers s"
    using listener(2) by (cases rule: listener_step_cases)
      (auto simp: spawn_connection_def Let_def count_metric_def set_listener_def)
  ultimately show ?thesis using assms(1) listener_flags [OF listener(2)]
    by (auto simp: serving_def dest!: set_update_subset_insert [THEN subsetD])
next
  case (connection k event)
  from connection(2) show ?thesis using assms(1)
    by (cases rule: task_step_cases) (auto simp: serving_def)
next
  case (run event)
  then show ?thesis using assms(1) by (auto simp: serving_def run_server_def)
qed (use assms in \<open>auto simp: serving_def\<close>)

definition program_ok :: "nat \<Rightarrow> ('s server_state \<Rightarrow> bool) \<Rightarrow> 's program \<Rightarrow> bool" where
  "program_ok helpers reached p \<longleftrightarrow>
     (case p of
        Up s \<Rightarrow> reached s \<and> serving helpers s
      | Stopping s \<Rightarrow> reached s \<and> sv_shutdown s
      | _ \<Rightarrow> True)"

lemma server_step_shutdown:
  assumes "server_step ops rate s s'" "sv_shutdown s"
  shows "sv_shutdown s'"
proof -
  obtain p where "process_step ops rate p s s'" using assms(1) server_step_process by blast
  then show ?thesis using rank_step assms(2) by blast
qed

lemma program_ok_step:
  assumes "program_ok h reached p" "program_step ops rate pf p p'"
    and reached: "\<And>s s'. reached s \<Longrightarrow> server_step ops rate s s' \<Longrightarrow> reached s'"
  shows "program_ok h reached p'"
proof (cases p)
  case (Up s)
  have s: "reached s" "serving h s" using assms(1) Up by (simp_all add: program_ok_def)
  from assms(2) show ?thesis unfolding Up
    by (cases rule: program_step_UpE)
      (auto simp: program_ok_def intro: reached [OF s(1)] serving_step [OF s(2)]
        reached [OF s(1) server_step.shutdown])
next
  case (Stopping s)
  have s: "reached s" "sv_shutdown s" using assms(1) Stopping by (simp_all add: program_ok_def)
  from assms(2) show ?thesis unfolding Stopping
    by (cases rule: program_step_StoppingE)
      (auto simp: program_ok_def intro: reached [OF s(1)] server_step_shutdown [OF _ s(2)])
qed (use assms(2) in simp_all)

section \<open>Properties\<close>

text \<open>
  C12. The program serves until it is told to stop: from the start to the signal every relay's
  listener, the refresh tasks and the metrics listener are running, nothing is forced, and the
  only way to exit is a failure of the signal handling; it exits successfully only from a
  shutdown that was signalled. Every state on the way is a reachable one of the server machine
  for the limits of the settings.
\<close>

theorem serves_until_signal:
  assumes "semaphore ops" "bind ops pf tls lookup listen metrics_listen s = BindOk sv"
    "(program_step ops rate pf)\<^sup>*\<^sup>* (run_until_signal (bind ops pf tls lookup listen metrics_listen s)) p"
  shows "case p of
     Up st \<Rightarrow> (server_step ops rate)\<^sup>*\<^sup>* (run_start sv) st \<and> serving (sv_helpers (run_start sv)) st \<and>
       \<not> program_step ops rate pf p (Exited (Inr ()))
   | Stopping st \<Rightarrow> (server_step ops rate)\<^sup>*\<^sup>* (run_start sv) st \<and> sv_shutdown st
   | Exited r \<Rightarrow> (\<forall>e. r = Inl e \<longrightarrow> (\<exists>io. e = SignalFailed io))
   | Aborted \<Rightarrow> False"
proof -
  let ?reached = "(server_step ops rate)\<^sup>*\<^sup>* (run_start sv)" and ?h = "sv_helpers (run_start sv)"
  define ok where "ok q \<longleftrightarrow> program_ok ?h ?reached q \<and> q \<noteq> Aborted \<and>
    (\<forall>e. q = Exited (Inl e) \<longrightarrow> (\<exists>io. e = SignalFailed io))" for q
  have start: "run_until_signal (bind ops pf tls lookup listen metrics_listen s) = Up (run_start sv)"
    by (simp add: run_until_signal_def assms(2))
  have "serving ?h (run_start sv)" by (auto simp: serving_def run_start_def)
  then have "ok (Up (run_start sv))" by (simp add: ok_def program_ok_def)
  moreover have "ok q'" if "ok q" "program_step ops rate pf q q'" for q q'
  proof -
    have "program_ok ?h ?reached q" using that(1) by (simp add: ok_def)
    then have "program_ok ?h ?reached q'"
      by (rule program_ok_step [OF _ that(2)]) (rule rtranclp.rtrancl_into_rtrancl)
    moreover have "q' \<noteq> Aborted \<and> (\<forall>e. q' = Exited (Inl e) \<longrightarrow> (\<exists>io. e = SignalFailed io))"
      using that(2) by (cases rule: program_step.cases) simp_all
    ultimately show ?thesis unfolding ok_def by blast
  qed
  ultimately have ok: "ok p"
    by (intro rtranclp_induct [OF assms(3) [unfolded start], of ok])
  show ?thesis
  proof (cases p)
    case (Up st)
    then have "?reached st" "serving ?h st" using ok by (simp_all add: ok_def program_ok_def)
    moreover from this have "\<not> program_step ops rate pf (Up st) (Exited (Inr ()))"
      by (auto simp: serving_def elim: program_step_UpE)
    ultimately show ?thesis using Up by simp
  qed (use ok in \<open>simp_all add: ok_def program_ok_def\<close>)
qed

lemma serves_until_signal_witness:
  "\<exists>sv. bind counting_ops Linux example_tls (\<lambda>_ _. Inr [1 :: nat]) (\<lambda>_. Listening) Listening
       (example_settings (Some 3)) = BindOk sv \<and>
     \<not> program_step counting_ops 1 Linux (Up (run_start sv)) (Exited (Inr ()))"
proof -
  obtain sv where sv: "bind counting_ops Linux example_tls (\<lambda>_ _. Inr [1 :: nat]) (\<lambda>_. Listening) Listening
      (example_settings (Some 3)) = BindOk sv" using example_bind by blast
  have "(program_step counting_ops 1 Linux)\<^sup>*\<^sup>*
      (run_until_signal (bind counting_ops Linux example_tls (\<lambda>_ _. Inr [1 :: nat]) (\<lambda>_. Listening) Listening
         (example_settings (Some 3)))) (Up (run_start sv))"
    by (simp only: sv run_until_signal_def bind_result.case rtranclp.rtrancl_refl)
  from serves_until_signal [OF counting.semaphore_axioms sv this] sv show ?thesis by auto
qed

end
