(* ===== verification/Relay_Refinement.thy ===== *)
theory Relay_Refinement
  imports Relay_Correctness
begin

text \<open>
  What the server promises its administrator, as an abstract machine: a broker that admits a
  connection in one step when all four limits have room, refuses one only on a relay that has
  a limit, and moves connections from connecting to relaying to closed. The server machine of
  \<open>src/src/server.rs\<close> and \<open>src/src/relay.rs\<close>, with its four separate semaphore acquisitions and
  its roll-backs interleaved with everything else, refines it; the admission takes effect when
  the task is spawned.
\<close>

section \<open>The broker\<close>

record broker =
  bk_connecting :: "nat \<Rightarrow> nat"
  bk_relaying :: "nat \<Rightarrow> nat"
  bk_accepted :: "nat \<Rightarrow> nat"
  bk_refused :: "nat \<Rightarrow> u64"

definition has_room :: "nat option \<Rightarrow> nat \<Rightarrow> bool" where
  "has_room limit used = (case limit of None \<Rightarrow> True | Some n \<Rightarrow> used < n)"

inductive broker_step :: "nat \<Rightarrow> (sem_id \<Rightarrow> nat option) \<Rightarrow> broker \<Rightarrow> broker \<Rightarrow> bool"
  for n :: nat and limits :: "sem_id \<Rightarrow> nat option" where
  admit: "i < n \<Longrightarrow>
    has_room (limits GlobalLimit) (\<Sum>j<n. bk_connecting b j + bk_relaying b j) \<Longrightarrow>
    has_room (limits (RelayLimit i)) (bk_connecting b i + bk_relaying b i) \<Longrightarrow>
    has_room (limits GlobalConnecting) (\<Sum>j<n. bk_connecting b j) \<Longrightarrow>
    has_room (limits (RelayConnecting i)) (bk_connecting b i) \<Longrightarrow>
    broker_step n limits b
      (b\<lparr>bk_connecting := (bk_connecting b)(i := bk_connecting b i + 1),
         bk_accepted := (bk_accepted b)(i := bk_accepted b i + 1)\<rparr>)"
| refuse: "i < n \<Longrightarrow> l \<in> set (limits_of i) \<Longrightarrow> limits l \<noteq> None \<Longrightarrow>
    broker_step n limits b (b\<lparr>bk_refused := (bk_refused b)(i := bk_refused b i + 1)\<rparr>)"
| connected: "i < n \<Longrightarrow> bk_connecting b i = Suc c \<Longrightarrow>
    broker_step n limits b
      (b\<lparr>bk_connecting := (bk_connecting b)(i := c),
         bk_relaying := (bk_relaying b)(i := bk_relaying b i + 1)\<rparr>)"
| closed_connecting: "i < n \<Longrightarrow> bk_connecting b i = Suc c \<Longrightarrow>
    broker_step n limits b (b\<lparr>bk_connecting := (bk_connecting b)(i := c)\<rparr>)"
| closed_relaying: "i < n \<Longrightarrow> bk_relaying b i = Suc c \<Longrightarrow>
    broker_step n limits b (b\<lparr>bk_relaying := (bk_relaying b)(i := c)\<rparr>)"

definition broker_start :: broker where
  "broker_start = \<lparr>bk_connecting = (\<lambda>_. 0), bk_relaying = (\<lambda>_. 0), bk_accepted = (\<lambda>_. 0),
     bk_refused = (\<lambda>_. 0)\<rparr>"

section \<open>The abstraction\<close>

definition relaying_of :: "nat \<Rightarrow> 's server_state \<Rightarrow> nat" where
  "relaying_of i s = length (filter (\<lambda>t. tk_relay t = i \<and> live (tk_phase t) \<and> \<not> connecting (tk_phase t))
     (sv_tasks s))"

definition broker_of :: "'s server_state \<Rightarrow> broker" where
  "broker_of s =
     \<lparr>bk_connecting = (\<lambda>i. connecting_of i s), bk_relaying = (\<lambda>i. relaying_of i s),
      bk_accepted = (\<lambda>i. spawned i s),
      bk_refused = (\<lambda>i. if i < length (sv_metrics s) then connections_rejected (sv_metrics s ! i) else 0)\<rparr>"

lemmas tallies = connecting_of_def relaying_of_def spawned_def alive_def live_tasks_def
  connecting_tasks_def

lemma connecting_live: "connecting ph \<Longrightarrow> live ph"
  by (cases ph) simp_all

lemma alive_split: "alive i s = connecting_of i s + relaying_of i s"
proof -
  have "length (filter (\<lambda>t. tk_relay t = i \<and> live (tk_phase t)) ts) =
      length (filter (\<lambda>t. tk_relay t = i \<and> connecting (tk_phase t)) ts) +
      length (filter (\<lambda>t. tk_relay t = i \<and> live (tk_phase t) \<and> \<not> connecting (tk_phase t)) ts)" for ts
    by (induction ts) (auto dest: connecting_live)
  then show ?thesis by (simp add: tallies)
qed

lemma length_filter_by_key:
  fixes f :: "'a \<Rightarrow> nat"
  assumes "\<forall>x\<in>set xs. f x < n"
  shows "length (filter P xs) = (\<Sum>i<n. length (filter (\<lambda>x. f x = i \<and> P x) xs))"
  using assms
proof (induction xs)
  case Nil
  then show ?case by simp
next
  case (Cons x xs)
  have "(\<Sum>i<n. length (filter (\<lambda>x. f x = i \<and> P x) (x # xs))) =
      (\<Sum>i<n. (if i = f x then of_bool (P x) else 0) + length (filter (\<lambda>x. f x = i \<and> P x) xs))"
    by (rule sum.cong) auto
  also have "\<dots> = of_bool (P x) + (\<Sum>i<n. length (filter (\<lambda>x. f x = i \<and> P x) xs))"
    using Cons.prems by (simp add: sum.distrib)
  finally show ?case using Cons by simp
qed

lemma totals:
  assumes "well_shaped limits n s"
  shows "live_tasks s = (\<Sum>i<n. connecting_of i s + relaying_of i s)"
    "connecting_tasks s = (\<Sum>i<n. connecting_of i s)"
proof -
  have "\<forall>t\<in>set (sv_tasks s). tk_relay t < n" using assms by (simp add: well_shaped_def)
  note by_key = length_filter_by_key [OF this]
  show "live_tasks s = (\<Sum>i<n. connecting_of i s + relaying_of i s)"
    unfolding alive_split [symmetric] live_tasks_def alive_def by (rule by_key)
  show "connecting_tasks s = (\<Sum>i<n. connecting_of i s)"
    unfolding connecting_tasks_def connecting_of_def by (rule by_key)
qed

section \<open>The simulation\<close>

lemma same_broker:
  assumes "sv_tasks s' = sv_tasks s" "sv_metrics s' = sv_metrics s"
  shows "broker_of s' = broker_of s"
proof -
  have "connecting_of i s' = connecting_of i s" "relaying_of i s' = relaying_of i s"
    "spawned i s' = spawned i s" for i using assms(1) by (simp_all add: tallies)
  then show ?thesis using assms(2) by (simp add: broker_of_def cong: if_cong)
qed

text \<open>What a task that changes its phase does to the tallies.\<close>

lemma tally_update:
  assumes "k < length (sv_tasks s)" "sv_tasks s' = (sv_tasks s)[k := (sv_tasks s ! k)\<lparr>tk_phase := ph\<rparr>]"
    "tk_relay (sv_tasks s ! k) = i" "tk_phase (sv_tasks s ! k) = old"
  shows "spawned j s' = spawned j s"
    "connecting_of j s' + of_bool (i = j \<and> connecting old) =
       connecting_of j s + of_bool (i = j \<and> connecting ph)"
    "relaying_of j s' + of_bool (i = j \<and> live old \<and> \<not> connecting old) =
       relaying_of j s + of_bool (i = j \<and> live ph \<and> \<not> connecting ph)"
  using length_filter_update [OF assms(1), of "\<lambda>t. tk_relay t = j" "(sv_tasks s ! k)\<lparr>tk_phase := ph\<rparr>"]
    length_filter_update [OF assms(1), of "\<lambda>t. tk_relay t = j \<and> connecting (tk_phase t)"
      "(sv_tasks s ! k)\<lparr>tk_phase := ph\<rparr>"]
    length_filter_update [OF assms(1), of "\<lambda>t. tk_relay t = j \<and> live (tk_phase t) \<and> \<not> connecting (tk_phase t)"
      "(sv_tasks s ! k)\<lparr>tk_phase := ph\<rparr>"] assms(2-4)
  by (simp_all add: tallies)

lemma closes_rejected: "closes m m' \<Longrightarrow> connections_rejected m' = connections_rejected m"
  by (auto simp: closes_def metrics_defs)

text \<open>A task that starts to return leaves the broker, from whichever of its two counts it is in.\<close>

lemma refine_end:
  assumes i: "tk_relay (sv_tasks s ! k) < n" and k: "k < length (sv_tasks s)"
    and s': "sv_tasks s' = (sv_tasks s)[k := (sv_tasks s ! k)\<lparr>tk_phase := ph\<rparr>]"
    and ends: "\<not> live ph" "live (tk_phase (sv_tasks s ! k))"
    and ref: "bk_refused (broker_of s') = bk_refused (broker_of s)"
  shows "broker_step n limits (broker_of s) (broker_of s')"
proof -
  define i old where "i = tk_relay (sv_tasks s ! k)" and "old = tk_phase (sv_tasks s ! k)"
  note upd = tally_update [OF k s' i_def [symmetric] old_def [symmetric]]
  have ph: "\<not> connecting ph" "live old" "i < n"
    using ends connecting_live i by (auto simp: old_def i_def)
  show ?thesis
  proof (cases "connecting old")
    case True
    let ?c = "connecting_of i s - 1"
    have b: "connecting_of i s = Suc ?c"
      "connecting_of j s' = (if j = i then ?c else connecting_of j s)"
      "relaying_of j s' = relaying_of j s" "spawned j s' = spawned j s" for j
      using upd(1,2,3) [of j] upd(2) [of i] ends(1) ph True by (auto split: if_splits)
    then have "broker_of s' = (broker_of s)\<lparr>bk_connecting := (bk_connecting (broker_of s))(i := ?c)\<rparr>"
      using ref by (auto simp: broker_of_def)
    then show ?thesis
      using broker_step.closed_connecting [OF ph(3), of "broker_of s" ?c] b(1) by (simp add: broker_of_def)
  next
    case False
    let ?c = "relaying_of i s - 1"
    have b: "relaying_of i s = Suc ?c"
      "relaying_of j s' = (if j = i then ?c else relaying_of j s)"
      "connecting_of j s' = connecting_of j s" "spawned j s' = spawned j s" for j
      using upd(1,2,3) [of j] upd(3) [of i] ends(1) ph False by (auto split: if_splits)
    then have "broker_of s' = (broker_of s)\<lparr>bk_relaying := (bk_relaying (broker_of s))(i := ?c)\<rparr>"
      using ref by (auto simp: broker_of_def)
    then show ?thesis
      using broker_step.closed_relaying [OF ph(3), of "broker_of s" ?c] b(1) by (simp add: broker_of_def)
  qed
qed

lemma refine_task:
  assumes w: "well_shaped limits n s" and k: "k < length (sv_tasks s)"
    and step: "run_task ops k ev s = Some s'"
  shows "broker_step n limits (broker_of s) (broker_of s') \<or> broker_of s' = broker_of s"
proof -
  define i old where "i = tk_relay (sv_tasks s ! k)" and "old = tk_phase (sv_tasks s ! k)"
  have i: "i < n" "i < length (sv_metrics s)" using w k by (auto simp: well_shaped_def i_def)
  note upd = tally_update [OF k _ i_def [symmetric] old_def [symmetric]]
  from step show ?thesis
  proof (cases rule: task_step_cases)
    case (stay rc gc r g)
    let ?c = "connecting_of i s - 1"
    have "sv_tasks s' = (sv_tasks s)[k := (sv_tasks s ! k)\<lparr>tk_phase := Relaying [gc, rc] r g\<rparr>]"
      using stay by simp
    note upd = upd [OF this]
    have "connecting old" using stay by (simp add: old_def)
    then have b: "connecting_of i s = Suc ?c"
      "connecting_of j s' = (if j = i then ?c else connecting_of j s)"
      "relaying_of j s' = (if j = i then relaying_of j s + 1 else relaying_of j s)"
      "spawned j s' = spawned j s" for j
      using upd(1,2,3) [of j] upd(2) [of i] by (auto split: if_splits)
    then have "broker_of s' = (broker_of s)\<lparr>bk_connecting := (bk_connecting (broker_of s))(i := ?c),
        bk_relaying := (bk_relaying (broker_of s))(i := bk_relaying (broker_of s) i + 1)\<rparr>"
      using stay by (auto simp: broker_of_def)
    then show ?thesis
      using broker_step.connected [OF i(1), of "broker_of s" ?c] b(1) by (simp add: broker_of_def)
  next
    case (goes ph m events)
    have "bk_refused (broker_of s') = bk_refused (broker_of s)"
      using goes i closes_rejected [OF goes(4)]
      by (auto simp: broker_of_def nth_list_update i_def [symmetric])
    then show ?thesis using goes i(1) by (intro disjI1 refine_end [OF _ k]) (simp_all add: i_def)
  next
    case (drops ph p ps)
    have "sv_tasks s' = (sv_tasks s)[k := (sv_tasks s ! k)\<lparr>tk_phase := ph\<rparr>]" using drops by simp
    note upd = upd [OF this]
    have "connecting_of j s' = connecting_of j s" "relaying_of j s' = relaying_of j s"
      "spawned j s' = spawned j s" for j
      using upd [of j] drops by (auto simp: old_def)
    then show ?thesis using drops by (simp add: broker_of_def cong: if_cong)
  qed
qed

context running_server
begin

lemma refine_listener:
  assumes r: "reachable ops rate limits names helpers s" "reachable ops rate limits names helpers s'"
    and i: "i < length (sv_listeners s)" and step: "run_relay_listener ops rate i ev s = Some s'"
  shows "broker_step (length names) limits (broker_of s) (broker_of s') \<or> broker_of s' = broker_of s"
proof -
  have w: "well_shaped limits (length names) s" "well_shaped limits (length names) s'"
    and c: "conserved ops limits s"
    using reachable_inv [OF r(1)] reachable_inv [OF r(2)] by (simp_all add: server_inv_def permits_inv_def)
  have n: "i < length names" "length (sv_metrics s) = length names"
    using i w(1) by (simp_all add: well_shaped_def)
  from step show ?thesis
  proof (cases rule: listener_step_cases)
    case (refuse ps)
    let ?l = "limits_of i ! length ps"
    have "?l \<in> set (limits_of i)" using refuse(2) by (intro nth_mem) (simp add: limits_of_def)
    moreover have "free_permits ops (sv_store s) ?l \<noteq> None"
      using refuse(3) by (auto simp: acquire_permit_def free_permits_def split: option.splits)
    then have "limits ?l \<noteq> None"
      using c by (metis conserved_def option.map_disc_iff)
    moreover have "broker_of s' = (broker_of s)\<lparr>bk_refused := (bk_refused (broker_of s))(i := bk_refused (broker_of s) i + 1)\<rparr>"
      using refuse(4) n by (auto simp: broker_of_def tallies count_metric_def rejected_def fun_eq_iff)
    ultimately show ?thesis using broker_step.refuse [OF n(1)] by metis
  next
    case (spawn m ps)
    have tally: "connecting_of j s' = (if j = i then connecting_of j s + 1 else connecting_of j s)"
      "relaying_of j s' = relaying_of j s"
      "spawned j s' = (if j = i then spawned j s + 1 else spawned j s)"
      "live_tasks s' = live_tasks s + 1" "connecting_tasks s' = connecting_tasks s + 1"
      "alive i s' = alive i s + 1" for j
      by (simp_all add: spawn tallies spawn_connection_def Let_def)
    have "sv_metrics s' = (sv_metrics s)[i := accepted (sv_metrics s ! i)]"
      by (simp add: spawn spawn_connection_def Let_def)
    then have b: "broker_of s' = (broker_of s)
        \<lparr>bk_connecting := (bk_connecting (broker_of s))(i := bk_connecting (broker_of s) i + 1),
         bk_accepted := (bk_accepted (broker_of s))(i := bk_accepted (broker_of s) i + 1)\<rparr>"
      using n tally by (auto simp: broker_of_def accepted_def fun_eq_iff nth_list_update)
    note hold = limits_hold [OF r(2)]
    have "has_room (limits GlobalLimit) (live_tasks s)" "has_room (limits (RelayLimit i)) (alive i s)"
      "has_room (limits GlobalConnecting) (connecting_tasks s)"
      "has_room (limits (RelayConnecting i)) (connecting_of i s)"
      using hold(1) hold(2) [of i] hold(3) hold(4) [of i] tally(1,2,3) [of i] tally(4,5,6)
      by (auto simp: has_room_def Suc_le_eq split: option.splits)
    then show ?thesis
      unfolding b using totals [OF w(1)] alive_split [of i s]
      by (intro disjI1 broker_step.admit [OF n(1)]) (simp_all add: broker_of_def)
  qed (intro disjI2 same_broker; simp)+
qed

lemma refines:
  assumes "reachable ops rate limits names helpers s" "server_step ops rate s s'"
  shows "broker_step (length names) limits (broker_of s) (broker_of s') \<or> broker_of s' = broker_of s"
proof -
  have r: "reachable ops rate limits names helpers s'"
    using assms unfolding reachable_def by (rule rtranclp.rtrancl_into_rtrancl)
  from assms(2) show ?thesis
  proof (cases rule: server_step.cases)
    case (listener i event)
    then show ?thesis by (rule refine_listener [OF assms(1) r])
  next
    case (connection k event)
    have "well_shaped limits (length names) s"
      using reachable_inv [OF assms(1)] by (simp add: server_inv_def permits_inv_def)
    then show ?thesis using connection by (rule refine_task)
  next
    case (run event)
    then show ?thesis using run_server_frame by (intro disjI2 same_broker) blast+
  qed (intro disjI2 same_broker; simp)+
qed

lemma broker_of_start: "broker_of (initial_state ops limits names helpers) = broker_start"
  by (auto simp: broker_of_def broker_start_def tallies initial_state_def metrics_new_def fun_eq_iff)

lemma runs_refine:
  assumes "reachable ops rate limits names helpers s"
  shows "(broker_step (length names) limits)\<^sup>*\<^sup>* broker_start (broker_of s)"
  using assms unfolding reachable_def
proof (induction rule: rtranclp_induct)
  case base
  then show ?case by (simp add: broker_of_start)
next
  case (step s s')
  then have "reachable ops rate limits names helpers s" by (simp add: reachable_def)
  from refines [OF this step(2)] step(3) show ?case
    by (auto intro: rtranclp.rtrancl_into_rtrancl)
qed

end

section \<open>Properties\<close>

text \<open>
  C2. The server refines the broker: in every run, whatever is interleaved, each step of the
  listeners, the connection tasks and the shutdown is one step of the broker or changes nothing
  the broker knows; so every client is admitted at a moment when all four limits had room, and
  a relay without limits refuses nobody.
\<close>

theorem server_refines_broker:
  assumes "semaphore ops" "representable limits" "reachable ops rate limits names helpers s"
    "server_step ops rate s s'"
  shows "(broker_step (length names) limits)\<^sup>*\<^sup>* broker_start (broker_of s) \<and>
     (broker_step (length names) limits (broker_of s) (broker_of s') \<or> broker_of s' = broker_of s)"
  using running_server.runs_refine [OF running_serverI [OF assms(1,2)] assms(3)]
    running_server.refines [OF running_serverI [OF assms(1,2)] assms(3,4)] by blast

lemma server_refines_broker_witness:
  "\<exists>s. perform_all counting_ops 1 admit_actions example_start = Some s \<and>
     bk_accepted (broker_of s) 0 = 1 \<and>
     (broker_step 1 example_limits)\<^sup>*\<^sup>* broker_start (broker_of s)"
proof -
  obtain s where s: "perform_all counting_ops 1 admit_actions example_start = Some s"
    "bk_accepted (broker_of s) 0 = 1"
    by (simp add: admit_actions_def example_start_def run_defs broker_of_def spawned_def Let_def)
  have "server_step counting_ops 1 s (s\<lparr>sv_shutdown := True\<rparr>)" by (rule server_step.shutdown)
  from server_refines_broker [OF counting.semaphore_axioms example_representable
      example_reachable [OF s(1)] this] s
  show ?thesis by auto
qed

end
