(* ===== verification/Forwarding.thy ===== *)
theory Forwarding
  imports Rust_Std "HOL-Library.Sublist"
begin

text \<open>
  One direction of a relayed connection (\<open>src/src/relay.rs\<close>, lines 391 to 546): the user-space
  copy loop and the Linux splice loop, as step functions driven by the outcomes of the system
  calls. Both meet the contract \<open>forwarder\<close>: what was handed to the destination is at every
  moment a prefix of what was taken from the source, and a direction that ends well has
  delivered everything and shut the destination's write side down.
\<close>

section \<open>The user-space copy loop\<close>

text \<open>
  \<open>ReadEnds\<close> is the result of \<open>reader.read\<close>, \<open>WriteEnds k e\<close> that of \<open>writer.write_all\<close> after
  \<open>k\<close> bytes were accepted (all of them unless \<open>e\<close> is an error), \<open>ShutdownEnds\<close> that of the
  shutdown of the write side. \<open>consumed\<close>, \<open>delivered\<close> and \<open>half_closed\<close> record what the sockets
  have seen; the program itself keeps the loop position and \<open>copied\<close>.
\<close>

datatype copy_phase = CopyReading | CopyWriting bytes | CopyClosing | CopyEnded "io_error + u64"

datatype copy_event =
    ReadEnds "io_error + bytes"
  | WriteEnds nat "io_error option"
  | ShutdownEnds "io_error option"

record copy_state =
  cp_phase :: copy_phase
  cp_copied :: u64
  cp_activity :: nat
  cp_consumed :: bytes
  cp_delivered :: bytes
  cp_half_closed :: bool

definition copy_start :: copy_state where
  "copy_start = \<lparr>cp_phase = CopyReading, cp_copied = 0, cp_activity = 0, cp_consumed = [],
     cp_delivered = [], cp_half_closed = False\<rparr>"

definition copy_direction :: "nat \<Rightarrow> copy_event \<Rightarrow> copy_state \<Rightarrow> copy_state option" where
  "copy_direction buffer_size event s =
     (case (cp_phase s, event) of
        (CopyReading, ReadEnds (Inl e)) \<Rightarrow> Some (s\<lparr>cp_phase := CopyEnded (Inl e)\<rparr>)
      | (CopyReading, ReadEnds (Inr bs)) \<Rightarrow>
          if buffer_size < length bs then None
          else if bs = [] then Some (s\<lparr>cp_phase := CopyClosing\<rparr>)
          else Some (s\<lparr>cp_phase := CopyWriting bs, cp_consumed := cp_consumed s @ bs\<rparr>)
      | (CopyWriting bs, WriteEnds k None) \<Rightarrow>
          if k \<noteq> length bs then None
          else Some (s\<lparr>cp_phase := CopyReading, cp_copied := cp_copied s + of_nat (length bs),
                       cp_activity := cp_activity s + 1, cp_delivered := cp_delivered s @ bs\<rparr>)
      | (CopyWriting bs, WriteEnds k (Some e)) \<Rightarrow>
          if length bs < k then None
          else Some (s\<lparr>cp_phase := CopyEnded (Inl e), cp_delivered := cp_delivered s @ take k bs\<rparr>)
      | (CopyClosing, ShutdownEnds None) \<Rightarrow>
          Some (s\<lparr>cp_phase := CopyEnded (Inr (cp_copied s)), cp_half_closed := True\<rparr>)
      | (CopyClosing, ShutdownEnds (Some e)) \<Rightarrow> Some (s\<lparr>cp_phase := CopyEnded (Inl e)\<rparr>)
      | _ \<Rightarrow> None)"

section \<open>The splice loop\<close>

definition SPLICE_CHUNK_SIZE :: nat where
  "SPLICE_CHUNK_SIZE = 64 * 1024"

definition nix_to_io :: "int \<Rightarrow> io_error" where
  "nix_to_io errno = OsError errno"

text \<open>ENOSYS, EINVAL and EOPNOTSUPP (38, 22, 95 on Linux) become \<open>Unsupported\<close>.\<close>

definition splice_setup_error :: "(int \<Rightarrow> rstr) \<Rightarrow> int \<Rightarrow> io_error" where
  "splice_setup_error describe errno =
     (if errno = 38 \<or> errno = 22 \<or> errno = 95 then CustomError Unsupported (describe errno)
      else nix_to_io errno)"

text \<open>
  \<open>splice_ready\<close> waits until one side is ready and tries; \<open>try_io\<close> turns \<open>WouldBlock\<close> into
  another wait. The list gives what happens at each wake-up; at its end the call is pending.
\<close>

datatype wakeup = ReadinessFailed io_error | Attempt "int + nat"

fun splice_ready :: "wakeup list \<Rightarrow> (io_error + nat) option" where
  "splice_ready [] = None"
| "splice_ready (ReadinessFailed e # ws) = Some (Inl e)"
| "splice_ready (Attempt (Inr n) # ws) = Some (Inr n)"
| "splice_ready (Attempt (Inl errno) # ws) =
     (if error_kind (nix_to_io errno) = WouldBlock then splice_ready ws
      else Some (Inl (nix_to_io errno)))"

datatype splice_phase =
  SpliceFilling | SpliceDraining nat | SpliceClosing | SpliceEnded "io_error + u64"

text \<open>
  \<open>FillEnds\<close> is the splice from the source into the pipe, with the bytes it moved; \<open>DrainEnds\<close>
  the splice of \<open>n\<close> bytes from the head of the pipe into the destination; \<open>CloseEnds\<close> the
  \<open>shutdown\<close> call with its error number.
\<close>

datatype splice_event =
    FillEnds "io_error + bytes"
  | DrainEnds "io_error + nat"
  | CloseEnds "int option"

record splice_state =
  sp_phase :: splice_phase
  sp_copied :: u64
  sp_activity :: nat
  sp_pipe :: bytes
  sp_consumed :: bytes
  sp_delivered :: bytes
  sp_half_closed :: bool

definition splice_start :: splice_state where
  "splice_start = \<lparr>sp_phase = SpliceFilling, sp_copied = 0, sp_activity = 0, sp_pipe = [],
     sp_consumed = [], sp_delivered = [], sp_half_closed = False\<rparr>"

definition splice_direction :: "splice_event \<Rightarrow> splice_state \<Rightarrow> splice_state option" where
  "splice_direction event s =
     (case (sp_phase s, event) of
        (SpliceFilling, FillEnds (Inl e)) \<Rightarrow> Some (s\<lparr>sp_phase := SpliceEnded (Inl e)\<rparr>)
      | (SpliceFilling, FillEnds (Inr bs)) \<Rightarrow>
          if SPLICE_CHUNK_SIZE < length bs then None
          else if bs = [] then Some (s\<lparr>sp_phase := SpliceClosing\<rparr>)
          else Some (s\<lparr>sp_phase := SpliceDraining (length bs), sp_pipe := sp_pipe s @ bs,
                       sp_consumed := sp_consumed s @ bs\<rparr>)
      | (SpliceClosing, CloseEnds None) \<Rightarrow>
          Some (s\<lparr>sp_phase := SpliceEnded (Inr (sp_copied s)), sp_half_closed := True\<rparr>)
      | (SpliceClosing, CloseEnds (Some errno)) \<Rightarrow>
          Some (s\<lparr>sp_phase := SpliceEnded (Inl (nix_to_io errno))\<rparr>)
      | (SpliceDraining pending, DrainEnds (Inl e)) \<Rightarrow>
          Some (s\<lparr>sp_phase := SpliceEnded (Inl e)\<rparr>)
      | (SpliceDraining pending, DrainEnds (Inr written)) \<Rightarrow>
          if pending < written \<or> length (sp_pipe s) < written then None
          else if written = 0 then
            Some (s\<lparr>sp_phase :=
              SpliceEnded (Inl (CustomError BrokenPipe (lit ''splice destination closed'')))\<rparr>)
          else
            Some (s\<lparr>sp_phase :=
                      (if 0 < pending - written then SpliceDraining (pending - written)
                       else SpliceFilling),
                    sp_copied := sp_copied s + of_nat written, sp_activity := sp_activity s + 1,
                    sp_pipe := drop written (sp_pipe s),
                    sp_delivered := sp_delivered s @ take written (sp_pipe s)\<rparr>)
      | _ \<Rightarrow> None)"

section \<open>The contract of a direction\<close>

text \<open>
  \<open>meets s\<close> is the provider's invariant. \<open>idle s\<close> says that the loop is at its top, where
  nothing is in flight.
\<close>

locale forwarder =
  fixes step :: "'ev \<Rightarrow> 'st \<Rightarrow> 'st option" and start :: 'st and meets :: "'st \<Rightarrow> bool"
    and consumed delivered in_flight :: "'st \<Rightarrow> bytes"
    and outcome :: "'st \<Rightarrow> (io_error + u64) option" and closed_half :: "'st \<Rightarrow> bool"
    and moves :: "'st \<Rightarrow> nat"
  assumes start_meets: "meets start"
    and start_empty: "consumed start = []" "moves start = 0"
    and step_meets: "meets s \<Longrightarrow> step ev s = Some s' \<Longrightarrow> meets s'"
    and step_consumes: "meets s \<Longrightarrow> step ev s = Some s' \<Longrightarrow> prefix (consumed s) (consumed s')"
    and step_delivers: "meets s \<Longrightarrow> step ev s = Some s' \<Longrightarrow> prefix (delivered s) (delivered s')"
    and step_moves: "meets s \<Longrightarrow> step ev s = Some s' \<Longrightarrow>
      moves s' = moves s \<or> moves s' = Suc (moves s) \<and> delivered s' \<noteq> delivered s"
    and flight: "meets s \<Longrightarrow> prefix (delivered s @ in_flight s) (consumed s)"
    and success: "meets s \<Longrightarrow> outcome s = Some (Inr n) \<Longrightarrow>
      consumed s = delivered s \<and> closed_half s \<and> n = of_nat (length (delivered s))"
    and half_only_at_end: "meets s \<Longrightarrow> closed_half s \<Longrightarrow> consumed s = delivered s"
    and ended: "outcome s = Some r \<Longrightarrow> step ev s = None"

text \<open>Runs of a direction, shared by both loops.\<close>

fun run_events :: "('ev \<Rightarrow> 'st \<Rightarrow> 'st option) \<Rightarrow> 'ev list \<Rightarrow> 'st \<Rightarrow> 'st option" where
  "run_events step [] s = Some s"
| "run_events step (ev # evs) s = Option.bind (step ev s) (run_events step evs)"

context forwarder
begin

lemma run_meets: "meets s \<Longrightarrow> run_events step evs s = Some s' \<Longrightarrow> meets s'"
  by (induction evs arbitrary: s) (auto split: bind_splits dest: step_meets)

lemma run_delivers:
  "meets s \<Longrightarrow> run_events step evs s = Some s' \<Longrightarrow> prefix (delivered s) (delivered s')"
proof (induction evs arbitrary: s)
  case Nil
  then show ?case by simp
next
  case (Cons ev evs)
  then obtain s1 where "step ev s = Some s1" "run_events step evs s1 = Some s'"
    by (auto split: bind_splits)
  then show ?case using Cons.IH Cons.prems(1) step_meets step_delivers by (metis prefix_order.trans)
qed

lemma transparent:
  assumes "run_events step evs start = Some s"
  shows "prefix (delivered s) (consumed s)"
  using run_meets [OF start_meets assms] flight prefix_order.trans prefixI by metis

lemma complete:
  assumes "run_events step evs start = Some s" "outcome s = Some (Inr n)"
  shows "delivered s = consumed s" "closed_half s" "n = of_nat (length (consumed s))"
  using success [OF run_meets [OF start_meets assms(1)] assms(2)] by auto

lemma half_close_after_data:
  "run_events step evs start = Some s \<Longrightarrow> closed_half s \<Longrightarrow> delivered s = consumed s"
  using half_only_at_end [OF run_meets [OF start_meets]] by metis

end

section \<open>Both loops meet the contract\<close>

definition copy_meets :: "copy_state \<Rightarrow> bool" where
  "copy_meets s \<longleftrightarrow>
     (case cp_phase s of
        CopyWriting bs \<Rightarrow> bs \<noteq> [] \<and> cp_consumed s = cp_delivered s @ bs \<and> \<not> cp_half_closed s \<and>
          cp_copied s = of_nat (length (cp_delivered s))
      | CopyEnded (Inl e) \<Rightarrow> prefix (cp_delivered s) (cp_consumed s) \<and> \<not> cp_half_closed s
      | CopyEnded (Inr n) \<Rightarrow> cp_consumed s = cp_delivered s \<and> cp_half_closed s \<and>
          n = of_nat (length (cp_delivered s))
      | _ \<Rightarrow> cp_consumed s = cp_delivered s \<and> \<not> cp_half_closed s \<and>
          cp_copied s = of_nat (length (cp_delivered s)))"

definition copy_in_flight :: "copy_state \<Rightarrow> bytes" where
  "copy_in_flight s = (case cp_phase s of CopyWriting bs \<Rightarrow> bs | _ \<Rightarrow> [])"

definition copy_outcome :: "copy_state \<Rightarrow> (io_error + u64) option" where
  "copy_outcome s = (case cp_phase s of CopyEnded r \<Rightarrow> Some r | _ \<Rightarrow> None)"

text \<open>The steps of the copy loop, one case per branch.\<close>

lemma copy_cases [consumes 1, case_names read_fails eof reads writes write_fails closes close_fails]:
  assumes "copy_direction n ev s = Some s'"
  obtains (read_fails) e where "cp_phase s = CopyReading" "s' = s\<lparr>cp_phase := CopyEnded (Inl e)\<rparr>"
    | (eof) "cp_phase s = CopyReading" "s' = s\<lparr>cp_phase := CopyClosing\<rparr>"
    | (reads) bs where "cp_phase s = CopyReading" "bs \<noteq> []" "length bs \<le> n"
        "s' = s\<lparr>cp_phase := CopyWriting bs, cp_consumed := cp_consumed s @ bs\<rparr>"
    | (writes) bs where "cp_phase s = CopyWriting bs"
        "s' = s\<lparr>cp_phase := CopyReading, cp_copied := cp_copied s + of_nat (length bs),
                cp_activity := cp_activity s + 1, cp_delivered := cp_delivered s @ bs\<rparr>"
    | (write_fails) bs k e where "cp_phase s = CopyWriting bs"
        "s' = s\<lparr>cp_phase := CopyEnded (Inl e), cp_delivered := cp_delivered s @ take k bs\<rparr>"
    | (closes) "cp_phase s = CopyClosing"
        "s' = s\<lparr>cp_phase := CopyEnded (Inr (cp_copied s)), cp_half_closed := True\<rparr>"
    | (close_fails) e where "cp_phase s = CopyClosing" "s' = s\<lparr>cp_phase := CopyEnded (Inl e)\<rparr>"
  using assms
  by (auto simp: copy_direction_def not_less
      split: copy_phase.splits copy_event.splits sum.splits option.splits if_splits)

lemma copy_step_meets:
  assumes "copy_meets s" "copy_direction n ev s = Some s'"
  shows "copy_meets s'"
  using assms(2)
proof (cases rule: copy_cases)
  case (write_fails bs k e)
  then show ?thesis using assms(1) by (auto simp: copy_meets_def intro: take_is_prefix)
qed (use assms(1) in \<open>auto simp: copy_meets_def\<close>)

interpretation copy: forwarder "copy_direction n" copy_start copy_meets cp_consumed cp_delivered
  copy_in_flight copy_outcome cp_half_closed cp_activity for n
proof
  show "copy_meets copy_start" by (simp add: copy_meets_def copy_start_def)
  show "cp_consumed copy_start = []" "cp_activity copy_start = 0" by (simp_all add: copy_start_def)
  fix s s' ev r c
  show "copy_meets s \<Longrightarrow> copy_direction n ev s = Some s' \<Longrightarrow> copy_meets s'"
    by (rule copy_step_meets)
  show "copy_direction n ev s = Some s' \<Longrightarrow> prefix (cp_consumed s) (cp_consumed s')"
    "copy_direction n ev s = Some s' \<Longrightarrow> prefix (cp_delivered s) (cp_delivered s')"
    by (erule copy_cases; simp)+
  show "cp_activity s' = cp_activity s \<or>
      cp_activity s' = Suc (cp_activity s) \<and> cp_delivered s' \<noteq> cp_delivered s"
    if "copy_meets s" "copy_direction n ev s = Some s'"
    using that(2,1) by (cases rule: copy_cases) (auto simp: copy_meets_def)
  show "copy_meets s \<Longrightarrow> prefix (cp_delivered s @ copy_in_flight s) (cp_consumed s)"
    by (auto simp: copy_meets_def copy_in_flight_def split: copy_phase.splits sum.splits)
  show "copy_meets s \<Longrightarrow> copy_outcome s = Some (Inr c) \<Longrightarrow> cp_consumed s = cp_delivered s \<and>
      cp_half_closed s \<and> c = of_nat (length (cp_delivered s))"
    by (auto simp: copy_meets_def copy_outcome_def split: copy_phase.splits)
  show "copy_meets s \<Longrightarrow> cp_half_closed s \<Longrightarrow> cp_consumed s = cp_delivered s"
    by (auto simp: copy_meets_def split: copy_phase.splits sum.splits)
  show "copy_outcome s = Some r \<Longrightarrow> copy_direction n ev s = None"
    by (auto simp: copy_outcome_def copy_direction_def split: copy_phase.splits)
qed

definition splice_meets :: "splice_state \<Rightarrow> bool" where
  "splice_meets s \<longleftrightarrow>
     sp_consumed s = sp_delivered s @ sp_pipe s \<and>
     (case sp_phase s of
        SpliceDraining pending \<Rightarrow> 0 < pending \<and> pending \<le> SPLICE_CHUNK_SIZE \<and>
          length (sp_pipe s) = pending \<and>
          \<not> sp_half_closed s \<and> sp_copied s = of_nat (length (sp_delivered s))
      | SpliceEnded (Inl e) \<Rightarrow> length (sp_pipe s) \<le> SPLICE_CHUNK_SIZE \<and> \<not> sp_half_closed s
      | SpliceEnded (Inr n) \<Rightarrow> sp_pipe s = [] \<and> sp_half_closed s \<and>
          n = of_nat (length (sp_delivered s))
      | _ \<Rightarrow> sp_pipe s = [] \<and> \<not> sp_half_closed s \<and>
          sp_copied s = of_nat (length (sp_delivered s)))"

definition splice_outcome :: "splice_state \<Rightarrow> (io_error + u64) option" where
  "splice_outcome s = (case sp_phase s of SpliceEnded r \<Rightarrow> Some r | _ \<Rightarrow> None)"

lemma splice_cases [consumes 1, case_names fails eof fills drains closes]:
  assumes "splice_direction ev s = Some s'"
  obtains (fails) e where "\<nexists>r. sp_phase s = SpliceEnded r" "s' = s\<lparr>sp_phase := SpliceEnded (Inl e)\<rparr>"
    | (eof) "sp_phase s = SpliceFilling" "s' = s\<lparr>sp_phase := SpliceClosing\<rparr>"
    | (fills) bs where "sp_phase s = SpliceFilling" "bs \<noteq> []" "length bs \<le> SPLICE_CHUNK_SIZE"
        "s' = s\<lparr>sp_phase := SpliceDraining (length bs), sp_pipe := sp_pipe s @ bs,
                sp_consumed := sp_consumed s @ bs\<rparr>"
    | (drains) pending written where "sp_phase s = SpliceDraining pending" "0 < written"
        "written \<le> pending" "written \<le> length (sp_pipe s)"
        "s' = s\<lparr>sp_phase := (if 0 < pending - written then SpliceDraining (pending - written)
                             else SpliceFilling),
                sp_copied := sp_copied s + of_nat written, sp_activity := sp_activity s + 1,
                sp_pipe := drop written (sp_pipe s),
                sp_delivered := sp_delivered s @ take written (sp_pipe s)\<rparr>"
    | (closes) "sp_phase s = SpliceClosing"
        "s' = s\<lparr>sp_phase := SpliceEnded (Inr (sp_copied s)), sp_half_closed := True\<rparr>"
  using assms unfolding splice_direction_def
  by (auto simp: not_less split: splice_phase.splits splice_event.splits sum.splits option.splits if_splits)

lemma splice_step_meets:
  assumes "splice_meets s" "splice_direction ev s = Some s'"
  shows "splice_meets s'"
  using assms(2)
proof (cases rule: splice_cases)
  case (fails e)
  then show ?thesis using assms(1)
    by (auto simp: splice_meets_def split: splice_phase.splits)
next
  case (drains pending written)
  then show ?thesis using assms(1) by (auto simp: splice_meets_def of_nat_add)
qed (use assms(1) in \<open>auto simp: splice_meets_def\<close>)

interpretation splice: forwarder splice_direction splice_start splice_meets sp_consumed
  sp_delivered sp_pipe splice_outcome sp_half_closed sp_activity
proof
  show "splice_meets splice_start" by (simp add: splice_meets_def splice_start_def)
  show "sp_consumed splice_start = []" "sp_activity splice_start = 0"
    by (simp_all add: splice_start_def)
  fix s s' ev r c
  show "splice_meets s \<Longrightarrow> splice_direction ev s = Some s' \<Longrightarrow> splice_meets s'"
    by (rule splice_step_meets)
  show "splice_direction ev s = Some s' \<Longrightarrow> prefix (sp_consumed s) (sp_consumed s')"
    "splice_direction ev s = Some s' \<Longrightarrow> prefix (sp_delivered s) (sp_delivered s')"
    by (erule splice_cases; simp)+
  show "sp_activity s' = sp_activity s \<or>
      sp_activity s' = Suc (sp_activity s) \<and> sp_delivered s' \<noteq> sp_delivered s"
    if "splice_meets s" "splice_direction ev s = Some s'"
    using that(2,1) by (cases rule: splice_cases) (auto simp: splice_meets_def)
  show "splice_meets s \<Longrightarrow> prefix (sp_delivered s @ sp_pipe s) (sp_consumed s)"
    by (simp add: splice_meets_def)
  show "splice_meets s \<Longrightarrow> splice_outcome s = Some (Inr c) \<Longrightarrow> sp_consumed s = sp_delivered s \<and>
      sp_half_closed s \<and> c = of_nat (length (sp_delivered s))"
    by (auto simp: splice_meets_def splice_outcome_def split: splice_phase.splits)
  show "splice_meets s \<Longrightarrow> sp_half_closed s \<Longrightarrow> sp_consumed s = sp_delivered s"
    by (auto simp: splice_meets_def split: splice_phase.splits sum.splits)
  show "splice_outcome s = Some r \<Longrightarrow> splice_direction ev s = None"
    by (auto simp: splice_outcome_def splice_direction_def split: splice_phase.splits)
qed

section \<open>Sending a stream\<close>

text \<open>The system calls of a stream that arrives in the chunks \<open>cs\<close> and meets no error.\<close>

definition copy_script :: "bytes list \<Rightarrow> copy_event list" where
  "copy_script cs =
     concat (map (\<lambda>c. [ReadEnds (Inr c), WriteEnds (length c) None]) cs) @
     [ReadEnds (Inr []), ShutdownEnds None]"

definition splice_script :: "bytes list \<Rightarrow> splice_event list" where
  "splice_script cs =
     concat (map (\<lambda>c. [FillEnds (Inr c), DrainEnds (Inr (length c))]) cs) @
     [FillEnds (Inr []), CloseEnds None]"

lemma run_events_append:
  "run_events step (xs @ ys) s = Option.bind (run_events step xs s) (run_events step ys)"
  by (induction xs arbitrary: s) (auto split: bind_splits)

lemma copy_chunks:
  assumes "\<forall>c\<in>set cs. c \<noteq> [] \<and> length c \<le> n" "cp_phase s = CopyReading"
  shows "run_events (copy_direction n)
      (concat (map (\<lambda>c. [ReadEnds (Inr c), WriteEnds (length c) None]) cs)) s =
    Some (s\<lparr>cp_copied := cp_copied s + of_nat (length (concat cs)),
            cp_activity := cp_activity s + length cs,
            cp_consumed := cp_consumed s @ concat cs, cp_delivered := cp_delivered s @ concat cs\<rparr>)"
  using assms
proof (induction cs arbitrary: s)
  case Nil
  then show ?case by simp
next
  case (Cons c cs)
  let ?s = "s\<lparr>cp_copied := cp_copied s + of_nat (length c), cp_activity := cp_activity s + 1,
    cp_consumed := cp_consumed s @ c, cp_delivered := cp_delivered s @ c\<rparr>"
  have "run_events (copy_direction n) [ReadEnds (Inr c), WriteEnds (length c) None] s = Some ?s"
    using Cons.prems by (simp add: copy_direction_def not_less)
  moreover have "cp_phase ?s = CopyReading" using Cons.prems by simp
  ultimately show ?case using Cons.IH [of ?s] Cons.prems(1)
    by (simp only: concat.simps list.map run_events_append) (simp add: add.assoc)
qed

lemma splice_chunks:
  assumes "\<forall>c\<in>set cs. c \<noteq> [] \<and> length c \<le> SPLICE_CHUNK_SIZE" "sp_phase s = SpliceFilling"
    "sp_pipe s = []"
  shows "run_events splice_direction
      (concat (map (\<lambda>c. [FillEnds (Inr c), DrainEnds (Inr (length c))]) cs)) s =
    Some (s\<lparr>sp_copied := sp_copied s + of_nat (length (concat cs)),
            sp_activity := sp_activity s + length cs,
            sp_consumed := sp_consumed s @ concat cs, sp_delivered := sp_delivered s @ concat cs\<rparr>)"
  using assms
proof (induction cs arbitrary: s)
  case Nil
  then show ?case by simp
next
  case (Cons c cs)
  let ?s = "s\<lparr>sp_copied := sp_copied s + of_nat (length c), sp_activity := sp_activity s + 1,
    sp_consumed := sp_consumed s @ c, sp_delivered := sp_delivered s @ c\<rparr>"
  have "run_events splice_direction [FillEnds (Inr c), DrainEnds (Inr (length c))] s = Some ?s"
    using Cons.prems by (simp add: splice_direction_def not_less)
  moreover have "sp_phase ?s = SpliceFilling" "sp_pipe ?s = []" using Cons.prems by simp_all
  ultimately show ?case using Cons.IH [of ?s] Cons.prems(1)
    by (simp only: concat.simps list.map run_events_append) (simp add: add.assoc)
qed

section \<open>Properties\<close>

text \<open>
  C7. The copy loop is transparent: at every moment the destination has received a prefix of
  the bytes read; the write side is shut down only after everything was delivered; and if the
  loop returns a count, all bytes were delivered, the write side is shut down and the count is
  their number modulo 2^64.
\<close>

theorem copy_transparent:
  assumes "run_events (copy_direction buffer_size) evs copy_start = Some s"
  shows "prefix (cp_delivered s) (cp_consumed s) \<and>
     (cp_half_closed s \<longrightarrow> cp_delivered s = cp_consumed s) \<and>
     (\<forall>n. cp_phase s = CopyEnded (Inr n) \<longrightarrow>
        cp_delivered s = cp_consumed s \<and> cp_half_closed s \<and> n = of_nat (length (cp_consumed s)))"
  using copy.transparent [OF assms] copy.half_close_after_data [OF assms] copy.complete [OF assms]
  by (auto simp: copy_outcome_def)

lemma copy_transparent_witness:
  "\<exists>s. run_events (copy_direction 4) (copy_script [[1, 2], [3]]) copy_start = Some s \<and>
       cp_delivered s = [1, 2, 3] \<and> cp_half_closed s"
proof -
  obtain s where s: "run_events (copy_direction 4) (copy_script [[1, 2], [3]]) copy_start = Some s"
    "cp_phase s = CopyEnded (Inr 3)" "cp_consumed s = [1, 2, 3]"
    by (simp add: copy_script_def copy_direction_def copy_start_def)
  from copy_transparent [OF s(1)] s show ?thesis by simp
qed

text \<open>
  C8. The splice loop is transparent in the same sense, and the kernel pipe never holds more
  than one chunk of 64 KiB, which is exactly what was taken and not yet delivered.
\<close>

theorem splice_transparent:
  assumes "run_events splice_direction evs splice_start = Some s"
  shows "sp_consumed s = sp_delivered s @ sp_pipe s \<and> length (sp_pipe s) \<le> 65536 \<and>
     (sp_half_closed s \<longrightarrow> sp_delivered s = sp_consumed s) \<and>
     (\<forall>n. sp_phase s = SpliceEnded (Inr n) \<longrightarrow>
        sp_delivered s = sp_consumed s \<and> sp_half_closed s \<and> n = of_nat (length (sp_consumed s)))"
proof -
  have "splice_meets s" by (rule splice.run_meets [OF splice.start_meets assms])
  then have "sp_consumed s = sp_delivered s @ sp_pipe s" "length (sp_pipe s) \<le> 65536"
    by (auto simp: splice_meets_def SPLICE_CHUNK_SIZE_def split: splice_phase.splits sum.splits)
  then show ?thesis
    using splice.half_close_after_data [OF assms] splice.complete [OF assms]
    by (auto simp: splice_outcome_def)
qed

lemma splice_transparent_witness:
  "\<exists>s. run_events splice_direction [FillEnds (Inr [1, 2]), DrainEnds (Inr 1)] splice_start = Some s \<and>
       sp_delivered s = [1] \<and> sp_consumed s = sp_delivered s @ sp_pipe s"
proof -
  obtain s where s: "run_events splice_direction [FillEnds (Inr [1, 2]), DrainEnds (Inr 1)] splice_start
      = Some s" "sp_delivered s = [1]"
    by (simp add: splice_direction_def splice_start_def SPLICE_CHUNK_SIZE_def)
  from splice_transparent [OF s(1)] s show ?thesis by simp
qed

text \<open>
  C9. The two backends agree: a stream that arrives in any chunks that fit both and meets no
  error is delivered unchanged by both, both then shut the destination's write side down and
  return the same count; each chunk is reported to the idle watchdog once.
\<close>

theorem backends_agree:
  assumes "\<And>c. c \<in> set cs \<Longrightarrow> c \<noteq> [] \<and> length c \<le> buffer_size \<and> length c \<le> 65536"
  shows "\<exists>s t. run_events (copy_direction buffer_size) (copy_script cs) copy_start = Some s \<and>
     run_events splice_direction (splice_script cs) splice_start = Some t \<and>
     cp_delivered s = concat cs \<and> sp_delivered t = concat cs \<and>
     cp_half_closed s \<and> sp_half_closed t \<and>
     cp_activity s = length cs \<and> sp_activity t = length cs \<and>
     cp_phase s = CopyEnded (Inr (of_nat (length (concat cs)))) \<and>
     sp_phase t = SpliceEnded (Inr (of_nat (length (concat cs))))"
proof -
  have c: "\<forall>c\<in>set cs. c \<noteq> [] \<and> length c \<le> buffer_size"
    and p: "\<forall>c\<in>set cs. c \<noteq> [] \<and> length c \<le> SPLICE_CHUNK_SIZE"
    using assms by (auto simp: SPLICE_CHUNK_SIZE_def)
  have "cp_phase copy_start = CopyReading" "sp_phase splice_start = SpliceFilling"
    "sp_pipe splice_start = []" by (simp_all add: copy_start_def splice_start_def)
  then show ?thesis
    unfolding copy_script_def splice_script_def run_events_append
    by (simp only: copy_chunks [OF c] splice_chunks [OF p])
      (simp add: copy_direction_def splice_direction_def copy_start_def splice_start_def)
qed

lemma backends_agree_witness:
  "\<exists>s t. run_events (copy_direction 8) (copy_script [[7], [8, 9]]) copy_start = Some s \<and>
     run_events splice_direction (splice_script [[7], [8, 9]]) splice_start = Some t \<and>
     cp_delivered s = [7, 8, 9] \<and> sp_delivered t = [7, 8, 9]"
proof -
  have "c \<noteq> [] \<and> length c \<le> 8 \<and> length c \<le> 65536" if "c \<in> set [[7], [8, 9]]" for c :: bytes
    using that by auto
  note fits = this
  obtain s t where "run_events (copy_direction 8) (copy_script [[7], [8, 9]]) copy_start = Some s"
    "run_events splice_direction (splice_script [[7], [8, 9]]) splice_start = Some t"
    "cp_delivered s = concat [[7], [8, 9]]" "sp_delivered t = concat [[7], [8, 9]]"
    using backends_agree [of "[[7], [8, 9]]" 8] fits by meson
  then show ?thesis by simp
qed

text \<open>
  Waiting for the sockets is invisible: a splice call that wakes up for nothing (EAGAIN) is
  tried again, any other result is returned as it is, and the error that is returned carries
  the number of the system call.
\<close>

lemma splice_ready_retries:
  "splice_ready (replicate k (Attempt (Inl 11)) @ ws) = splice_ready ws \<and>
   (splice_ready (Attempt (Inl errno) # ws) = Some (Inl (OsError errno)) \<or> errno = 11) \<and>
   splice_ready (Attempt (Inr n) # ws) = Some (Inr n)"
proof -
  have "splice_ready (replicate k (Attempt (Inl 11)) @ ws) = splice_ready ws"
    by (induction k) (simp_all add: nix_to_io_def decode_error_kind_def)
  moreover have "decode_error_kind errno = WouldBlock \<longleftrightarrow> errno = 11"
    by (simp add: decode_error_kind_def)
  ultimately show ?thesis by (simp add: nix_to_io_def)
qed

end
