(* ===== verification/Relay_Transfer.thy ===== *)
theory Relay_Transfer
  imports Forwarding Endpoint Settings Connection
begin

text \<open>
  A whole transfer (\<open>src/src/relay.rs\<close>, lines 338 to 443 and 548 to 561): the choice of the
  backend, the set-up of the splice pipes, the two directions joined by \<open>try_join!\<close>, and the
  idle watchdog that races with them. Time is counted in nanoseconds; which ready branch of a
  \<open>select!\<close> runs is up to the environment.
\<close>

section \<open>Choosing and setting up a backend\<close>

datatype backend = PoolBackend | SpliceBackend

definition forward_with_mode :: "platform \<Rightarrow> forward_mode \<Rightarrow> backend" where
  "forward_with_mode pf mode = (if pf = Linux \<and> mode = Splice then SpliceBackend else PoolBackend)"

text \<open>
  The calls that set up the splice backend, in order: two \<open>dup\<close>s, their registration, two
  pipes, the registration of their four ends. The first failure ends the transfer.
\<close>

datatype setup_call = Dup | RegisterFd | OpenPipe

definition splice_setup :: "setup_call list" where
  "splice_setup = [Dup, Dup, RegisterFd, RegisterFd, OpenPipe, OpenPipe, RegisterFd, RegisterFd,
     RegisterFd, RegisterFd]"

fun setup_failure :: "(int \<Rightarrow> rstr) \<Rightarrow> setup_call \<Rightarrow> int \<Rightarrow> io_error" where
  "setup_failure describe OpenPipe errno = splice_setup_error describe errno"
| "setup_failure describe Dup errno = nix_to_io errno"
| "setup_failure describe RegisterFd errno = OsError errno"

fun run_setup :: "(int \<Rightarrow> rstr) \<Rightarrow> setup_call list \<Rightarrow> int option list \<Rightarrow> io_error + unit" where
  "run_setup describe (c # cs) (Some errno # rs) = Inl (setup_failure describe c errno)"
| "run_setup describe (c # cs) (None # rs) = run_setup describe cs rs"
| "run_setup describe cs rs = Inr ()"

section \<open>Two directions and a watchdog\<close>

text \<open>\<open>try_join!\<close>: the first error, or both counts.\<close>

definition try_join ::
  "(io_error + u64) option \<Rightarrow> (io_error + u64) option \<Rightarrow> (io_error + u64 \<times> u64) option" where
  "try_join up down =
     (case (up, down) of
        (Some (Inl e), _) \<Rightarrow> Some (Inl e)
      | (_, Some (Inl e)) \<Rightarrow> Some (Inl e)
      | (Some (Inr a), Some (Inr b)) \<Rightarrow> Some (Inr (a, b))
      | _ \<Rightarrow> None)"

record 'st transfer =
  tr_up :: 'st
  tr_down :: 'st
  tr_now :: nat
  tr_deadline :: nat      \<comment> \<open>the watchdog's timer\<close>
  tr_changed :: bool      \<comment> \<open>an activity message the watchdog has not seen\<close>
  tr_last :: nat          \<comment> \<open>when the last activity message was sent, 0 before the first\<close>
  tr_result :: "(io_error + u64 \<times> u64) option"

datatype 'ev transfer_event =
    Up 'ev | Down 'ev | Elapse nat | TimerFires | ActivitySeen

definition transfer_start :: "'st \<Rightarrow> nat option \<Rightarrow> 'st transfer" where
  "transfer_start start idle =
     \<lparr>tr_up = start, tr_down = start, tr_now = 0,
      tr_deadline = (case idle of Some t \<Rightarrow> t | None \<Rightarrow> 0), tr_changed = False, tr_last = 0,
      tr_result = None\<rparr>"

definition IDLE_ERROR :: io_error where
  "IDLE_ERROR = CustomError TimedOut (lit ''connection idle timeout'')"

text \<open>A message on the watch channel.\<close>

definition notify :: "bool \<Rightarrow> 'st transfer \<Rightarrow> 'st transfer" where
  "notify sent s = (if sent then s\<lparr>tr_changed := True, tr_last := tr_now s\<rparr> else s)"

definition transfer_step ::
  "('ev \<Rightarrow> 'st \<Rightarrow> 'st option) \<Rightarrow> ('st \<Rightarrow> nat) \<Rightarrow> ('st \<Rightarrow> (io_error + u64) option) \<Rightarrow> nat option \<Rightarrow>
   'ev transfer_event \<Rightarrow> 'st transfer \<Rightarrow> 'st transfer option" where
  "transfer_step step moves outcome idle event s =
     (if tr_result s \<noteq> None then None
      else case event of
        Up ev \<Rightarrow> map_option (\<lambda>up. (notify (moves up \<noteq> moves (tr_up s)) s)
                   \<lparr>tr_up := up, tr_result := try_join (outcome up) (outcome (tr_down s))\<rparr>)
                   (step ev (tr_up s))
      | Down ev \<Rightarrow> map_option (\<lambda>down. (notify (moves down \<noteq> moves (tr_down s)) s)
                   \<lparr>tr_down := down, tr_result := try_join (outcome (tr_up s)) (outcome down)\<rparr>)
                   (step ev (tr_down s))
      | Elapse d \<Rightarrow> Some (s\<lparr>tr_now := tr_now s + d\<rparr>)
      | TimerFires \<Rightarrow>
          if idle \<noteq> None \<and> tr_deadline s \<le> tr_now s then Some (s\<lparr>tr_result := Some (Inl IDLE_ERROR)\<rparr>)
          else None
      | ActivitySeen \<Rightarrow>
          (case idle of
             Some t \<Rightarrow>
               if tr_changed s then Some (s\<lparr>tr_deadline := tr_now s + t, tr_changed := False\<rparr>)
               else None
           | None \<Rightarrow> None))"

section \<open>Lemmas\<close>

lemma try_join_ok:
  "try_join x y = Some (Inr (a, b)) \<longleftrightarrow> x = Some (Inr a) \<and> y = Some (Inr b)"
  by (cases x; cases y) (auto simp: try_join_def split: sum.splits)

lemma try_join_error:
  "try_join x y = Some (Inl e) \<Longrightarrow> x = Some (Inl e) \<or> y = Some (Inl e)"
  by (cases x; cases y) (auto simp: try_join_def split: sum.splits)

definition clock_ok :: "nat option \<Rightarrow> 'st transfer \<Rightarrow> bool" where
  "clock_ok idle s \<longleftrightarrow>
     tr_last s \<le> tr_now s \<and>
     (\<forall>t. idle = Some t \<longrightarrow>
        tr_deadline s \<le> tr_now s + t \<and> (\<not> tr_changed s \<longrightarrow> tr_last s + t \<le> tr_deadline s))"

lemma clock_start: "clock_ok idle (transfer_start start idle)"
  by (simp add: clock_ok_def transfer_start_def)

lemma clock_step:
  assumes "clock_ok idle s" "transfer_step step moves outcome idle ev s = Some s'"
  shows "clock_ok idle s'"
  using assms
  by (auto simp: transfer_step_def clock_ok_def notify_def split: transfer_event.splits if_splits option.splits)

lemma clock_run:
  "clock_ok idle s \<Longrightarrow> run_events (transfer_step step moves outcome idle) evs s = Some s' \<Longrightarrow>
   clock_ok idle s'"
  by (induction evs arbitrary: s) (auto split: bind_splits dest: clock_step)

text \<open>Without an idle timeout only the directions can end a transfer.\<close>

context forwarder
begin

definition pair_ok :: "'st transfer \<Rightarrow> bool" where
  "pair_ok s \<longleftrightarrow> meets (tr_up s) \<and> meets (tr_down s) \<and>
     (tr_result s = try_join (outcome (tr_up s)) (outcome (tr_down s)) \<or>
      tr_result s = Some (Inl IDLE_ERROR))"

lemma pair_start: "outcome start = None \<Longrightarrow> pair_ok (transfer_start start idle)"
  by (simp add: pair_ok_def transfer_start_def start_meets try_join_def)

lemma pair_step:
  assumes "pair_ok s" "transfer_step step moves outcome idle ev s = Some s'"
  shows "pair_ok s'"
  using assms
  by (auto simp: transfer_step_def pair_ok_def notify_def split: transfer_event.splits if_splits option.splits
      intro: step_meets)

lemma pair_run:
  "pair_ok s \<Longrightarrow> run_events (transfer_step step moves outcome idle) evs s = Some s' \<Longrightarrow> pair_ok s'"
  by (induction evs arbitrary: s) (auto split: bind_splits dest: pair_step)

lemma pair_success:
  assumes "outcome start = None"
    "run_events (transfer_step step moves outcome idle) evs (transfer_start start idle) = Some s"
    "tr_result s = Some (Inr (a, b))"
  shows "delivered (tr_up s) = consumed (tr_up s)" "delivered (tr_down s) = consumed (tr_down s)"
    "closed_half (tr_up s)" "closed_half (tr_down s)"
    "a = of_nat (length (consumed (tr_up s)))" "b = of_nat (length (consumed (tr_down s)))"
proof -
  have "pair_ok s" using pair_run [OF pair_start [OF assms(1)] assms(2)] .
  then have "meets (tr_up s)" "meets (tr_down s)"
    "try_join (outcome (tr_up s)) (outcome (tr_down s)) = Some (Inr (a, b))"
    using assms(3) by (auto simp: pair_ok_def)
  then have "meets (tr_up s)" "meets (tr_down s)" "outcome (tr_up s) = Some (Inr a)"
    "outcome (tr_down s) = Some (Inr b)" by (simp_all only: try_join_ok)
  then show "delivered (tr_up s) = consumed (tr_up s)" "delivered (tr_down s) = consumed (tr_down s)"
    "closed_half (tr_up s)" "closed_half (tr_down s)"
    "a = of_nat (length (consumed (tr_up s)))" "b = of_nat (length (consumed (tr_down s)))"
    using success by auto
qed

lemma meets_prefix: "meets s \<Longrightarrow> prefix (delivered s) (consumed s)"
  using flight [of s] by (rule append_prefixD)

lemma pair_transparent:
  assumes "outcome start = None"
    "run_events (transfer_step step moves outcome idle) evs (transfer_start start idle) = Some s"
  shows "prefix (delivered (tr_up s)) (consumed (tr_up s))"
    "prefix (delivered (tr_down s)) (consumed (tr_down s))"
  using pair_run [OF pair_start [OF assms(1)] assms(2)] meets_prefix by (auto simp: pair_ok_def)

end

section \<open>Properties\<close>



text \<open>
  C31. How the end of a transfer is accounted: only a transfer that ends well adds its counts to
  the byte counters; a forced or failed one adds nothing, whatever it moved; the idle timeout
  counter moves for every error of kind \<open>TimedOut\<close>, that of the operating system (ETIMEDOUT)
  included; and each transfer records its end once.
\<close>

theorem transfer_accounting:
  "case transfer_phase lc outcome d m of (m', events) \<Rightarrow>
     bytes_client_to_upstream m' = bytes_client_to_upstream m +
       (case outcome of TransferDone (Inr (a, b)) \<Rightarrow> a | _ \<Rightarrow> 0) \<and>
     bytes_upstream_to_client m' = bytes_upstream_to_client m +
       (case outcome of TransferDone (Inr (a, b)) \<Rightarrow> b | _ \<Rightarrow> 0) \<and>
     idle_timeouts m' = idle_timeouts m +
       (case outcome of TransferDone (Inl e) \<Rightarrow>
          if e = OsError 110 \<or> error_kind e = TimedOut then 1 else 0 | _ \<Rightarrow> 0) \<and>
     connections_closed m' = connections_closed m + 1 \<and>
     active_connections m' = active_connections m - 1 \<and>
     events = (if lc \<and> outcome \<noteq> TransferForced then
       (case outcome of
          TransferDone (Inl e) \<Rightarrow>
            [if error_kind e = TimedOut then ConnectionIdleTimeout else ConnectionForwardError]
        | _ \<Rightarrow> []) @ [ConnectionClosed] else [])"
proof (cases outcome)
  case TransferForced
  then show ?thesis by (simp add: transfer_phase_def closed_def)
next
  case (TransferDone r)
  have "error_kind (OsError 110) = TimedOut" by (simp add: decode_error_kind_def)
  with TransferDone show ?thesis
    by (cases r) (auto simp: transfer_phase_def closed_def idle_timeout_def log_if_def)
qed

text \<open>
  The splice backend is used exactly when it was asked for on Linux; if its set-up fails, the
  error is that of the first failing call, and a pipe the system does not support is reported
  as \<open>Unsupported\<close>, never mistaken for an idle timeout.
\<close>

lemma splice_only_on_request:
  "(forward_with_mode pf mode = SpliceBackend \<longleftrightarrow> pf = Linux \<and> mode = Splice) \<and>
   run_setup describe splice_setup (replicate k None @ Some errno # rs) =
     (if k < 10 then Inl (setup_failure describe (splice_setup ! k) errno) else Inr ()) \<and>
   (errno \<in> {38, 22, 95} \<longrightarrow> error_kind (setup_failure describe OpenPipe errno) = Unsupported)"
proof -
  have "run_setup describe cs (replicate k None @ Some errno # rs) =
      (if k < length cs then Inl (setup_failure describe (cs ! k) errno) else Inr ())" for cs
  proof (induction cs arbitrary: k)
    case Nil
    then show ?case by (cases k) auto
  next
    case (Cons c cs)
    then show ?case by (cases k) auto
  qed
  moreover have "length splice_setup = 10" by (simp add: splice_setup_def)
  ultimately show ?thesis
    by (auto simp: forward_with_mode_def splice_setup_error_def)
qed

end
