(* ===== verification/Relay_Forward.thy ===== *)
theory Relay_Forward
  imports Relay_Transfer Buffer_Pool
begin

text \<open>
  A forwarded connection as a whole (\<open>src/src/relay.rs\<close>, lines 338 to 443): the backend that
  \<open>forward_with_mode\<close> chooses, with its preparation (two pooled buffers, or the set-up of the
  splice pipes) and its transfer, and what \<open>handle_connection\<close> makes of the result.
\<close>

section \<open>The two backends\<close>

text \<open>
  \<open>None\<close> means that the events do not fit the program. While the two permits are missing the call
  waits: only \<open>Waiting\<close> is possible. Both buffers have the pool's size.
\<close>

datatype forwarding =
    Waiting
  | SetupFailed io_error
  | ByCopy "copy_state transfer"
  | BySplice "splice_state transfer"

definition forward_with_buffer_pool ::
  "'s semaphore_ops \<Rightarrow> nat option \<Rightarrow> copy_event transfer_event list \<Rightarrow> 's buffer_pool \<Rightarrow>
   (forwarding \<times> 's buffer_pool) option" where
  "forward_with_buffer_pool ops idle events pool =
     (case acquire_pair ops pool of
        None \<Rightarrow> Some (Waiting, pool)
      | Some ((client_buffer, upstream_buffer), pool') \<Rightarrow>
          map_option (\<lambda>s. (ByCopy s, pool'))
            (run_events (transfer_step (copy_direction (bp_size pool)) cp_activity copy_outcome idle)
               events (transfer_start copy_start idle)))"

definition forward_with_splice ::
  "(int \<Rightarrow> rstr) \<Rightarrow> int option list \<Rightarrow> nat option \<Rightarrow> splice_event transfer_event list \<Rightarrow> forwarding option" where
  "forward_with_splice describe setup idle events =
     (case run_setup describe splice_setup setup of
        Inl e \<Rightarrow> Some (SetupFailed e)
      | Inr _ \<Rightarrow>
          map_option BySplice
            (run_events (transfer_step splice_direction sp_activity splice_outcome idle)
               events (transfer_start splice_start idle)))"

definition forward ::
  "'s semaphore_ops \<Rightarrow> (int \<Rightarrow> rstr) \<Rightarrow> platform \<Rightarrow> forward_mode \<Rightarrow> nat option \<Rightarrow> int option list \<Rightarrow>
   splice_event transfer_event list \<Rightarrow> copy_event transfer_event list \<Rightarrow> 's buffer_pool \<Rightarrow>
   (forwarding \<times> 's buffer_pool) option" where
  "forward ops describe pf mode idle setup splice_events copy_events pool =
     (case forward_with_mode pf mode of
        SpliceBackend \<Rightarrow>
          map_option (\<lambda>w. (w, pool)) (forward_with_splice describe setup idle splice_events)
      | PoolBackend \<Rightarrow> forward_with_buffer_pool ops idle copy_events pool)"

section \<open>What can be seen of a forwarding\<close>

fun fw_result :: "forwarding \<Rightarrow> (io_error + u64 \<times> u64) option" where
  "fw_result Waiting = None"
| "fw_result (SetupFailed e) = Some (Inl e)"
| "fw_result (ByCopy s) = tr_result s"
| "fw_result (BySplice s) = tr_result s"

text \<open>What each peer sent and what arrived at the other one: client to upstream, then back.\<close>

fun fw_sent :: "forwarding \<Rightarrow> bytes \<times> bytes" where
  "fw_sent (ByCopy s) = (cp_consumed (tr_up s), cp_consumed (tr_down s))"
| "fw_sent (BySplice s) = (sp_consumed (tr_up s), sp_consumed (tr_down s))"
| "fw_sent w = ([], [])"

fun fw_arrived :: "forwarding \<Rightarrow> bytes \<times> bytes" where
  "fw_arrived (ByCopy s) = (cp_delivered (tr_up s), cp_delivered (tr_down s))"
| "fw_arrived (BySplice s) = (sp_delivered (tr_up s), sp_delivered (tr_down s))"
| "fw_arrived w = ([], [])"

fun fw_closed :: "forwarding \<Rightarrow> bool" where
  "fw_closed (ByCopy s) \<longleftrightarrow> cp_half_closed (tr_up s) \<and> cp_half_closed (tr_down s)"
| "fw_closed (BySplice s) \<longleftrightarrow> sp_half_closed (tr_up s) \<and> sp_half_closed (tr_down s)"
| "fw_closed w \<longleftrightarrow> False"

definition faithful :: "forwarding \<Rightarrow> bool" where
  "faithful w \<longleftrightarrow>
     prefix (fst (fw_arrived w)) (fst (fw_sent w)) \<and> prefix (snd (fw_arrived w)) (snd (fw_sent w)) \<and>
     (\<forall>a b. fw_result w = Some (Inr (a, b)) \<longrightarrow>
        fw_arrived w = fw_sent w \<and> fw_closed w \<and>
        a = of_nat (length (fst (fw_sent w))) \<and> b = of_nat (length (snd (fw_sent w))))"

lemma starts_pending: "copy_outcome copy_start = None" "splice_outcome splice_start = None"
  by (simp_all add: copy_outcome_def copy_start_def splice_outcome_def splice_start_def)

lemma copy_faithful:
  assumes "run_events (transfer_step (copy_direction n) cp_activity copy_outcome idle) evs
      (transfer_start copy_start idle) = Some s"
  shows "faithful (ByCopy s)"
  using copy.pair_transparent [OF starts_pending(1) assms] copy.pair_success [OF starts_pending(1) assms]
  by (simp add: faithful_def)

lemma splice_faithful:
  assumes "run_events (transfer_step splice_direction sp_activity splice_outcome idle) evs
      (transfer_start splice_start idle) = Some s"
  shows "faithful (BySplice s)"
  using splice.pair_transparent [OF starts_pending(2) assms] splice.pair_success [OF starts_pending(2) assms]
  by (simp add: faithful_def)

lemma forward_faithful:
  assumes "forward ops describe pf mode idle setup sevs cevs pool = Some (w, pool')"
  shows "faithful w"
proof -
  have "faithful Waiting" "faithful (SetupFailed e)" for e by (simp_all add: faithful_def)
  then show ?thesis using assms copy_faithful splice_faithful
    by (auto simp: forward_def forward_with_buffer_pool_def forward_with_splice_def
        split: backend.splits option.splits sum.splits prod.splits)
qed

section \<open>Properties\<close>

text \<open>
  C3. What the byte counters of a relay mean: whichever backend forwards a connection, what arrived
  is always a prefix of what was sent, in both directions; if the transfer ends well then
  everything arrived, both sides are half-closed, and the counters grow by exactly the bytes
  that arrived; if it ends with an error they do not grow, whatever arrived.
\<close>

theorem relayed_bytes_counted:
  assumes "forward ops describe pf mode idle setup sevs cevs pool = Some (w, pool')"
    "fw_result w = Some r" "transfer_phase lc (TransferDone r) d m = (m', events)"
  shows "prefix (fst (fw_arrived w)) (fst (fw_sent w)) \<and> prefix (snd (fw_arrived w)) (snd (fw_sent w)) \<and>
     (case r of
        Inr _ \<Rightarrow> fw_arrived w = fw_sent w \<and> fw_closed w \<and>
          bytes_client_to_upstream m' = bytes_client_to_upstream m + of_nat (length (fst (fw_arrived w))) \<and>
          bytes_upstream_to_client m' = bytes_upstream_to_client m + of_nat (length (snd (fw_arrived w)))
      | Inl e \<Rightarrow> bytes_client_to_upstream m' = bytes_client_to_upstream m \<and>
          bytes_upstream_to_client m' = bytes_upstream_to_client m)"
proof -
  have f: "faithful w" by (rule forward_faithful [OF assms(1)])
  show ?thesis
  proof (cases r)
    case (Inl e)
    then show ?thesis using f assms(3)
      by (auto simp: faithful_def transfer_phase_def closed_def idle_timeout_def split: if_splits)
  next
    case (Inr ab)
    then show ?thesis using f assms(2,3)
      by (cases ab) (auto simp: faithful_def transfer_phase_def closed_def)
  qed
qed

lemma relayed_bytes_counted_witness:
  "\<exists>w pool' m' events. forward counting_ops (\<lambda>_. []) Linux Auto None [] []
      (map Up (copy_script [[1, 2]]) @ map Down (copy_script [[3]])) example_pool = Some (w, pool') \<and>
     transfer_phase True (TransferDone (Inr (2, 1))) (from_secs 1) (metrics_new []) = (m', events) \<and>
     fw_arrived w = ([1, 2], [3]) \<and> bytes_client_to_upstream m' = 2"
proof -
  obtain w pool' where w: "forward counting_ops (\<lambda>_. []) Linux Auto None [] []
      (map Up (copy_script [[1, 2]]) @ map Down (copy_script [[3]])) example_pool = Some (w, pool')"
    "fw_result w = Some (Inr (2, 1))" "fw_sent w = ([1, 2], [3])"
    by (simp add: forward_def forward_with_mode_def forward_with_buffer_pool_def acquire_pair_def
        pop_or_new_def example_pool_def counting_ops_def copy_script_def transfer_step_def
        copy_direction_def copy_start_def transfer_start_def notify_def try_join_def copy_outcome_def
        Let_def)
  obtain m' events where m: "transfer_phase True (TransferDone (Inr (2, 1))) (from_secs 1) (metrics_new []) = (m', events)"
    by (cases "transfer_phase True (TransferDone (Inr (2, 1))) (from_secs 1) (metrics_new [])")
  have "bytes_client_to_upstream (metrics_new []) = 0" by (simp add: metrics_new_def)
  then show ?thesis using relayed_bytes_counted [OF w(1,2) m] w m by auto
qed

end
