(* ===== verification/Metrics_Http.thy ===== *)
theory Metrics_Http
  imports Metrics_Text
begin

text \<open>
  The metrics endpoint (\<open>src/src/server.rs\<close>, lines 575 to 695): reading a request head into
  a 4 KiB buffer, the bearer-token check and the four responses. The comparison
  \<open>ct_eq\<close> is the subtle crate's and therefore an argument; every slice that could panic is
  checked, and the lemmas show that none does.
\<close>

section \<open>Reading the request\<close>

text \<open>
  The outcome of each \<open>stream.read(&mut request[size..])\<close> is given by the environment; an
  exhausted list means the read is still pending. \<open>AsyncRead\<close> promises no more bytes than
  the slice has room for.
\<close>

type_synonym read_outcome = "io_error + bytes"

datatype 'a poll = Ready 'a | Pending

definition REQUEST_BUFFER :: nat where
  "REQUEST_BUFFER = 4 * 1024"

definition windows :: "nat \<Rightarrow> 'a list \<Rightarrow> 'a list list" where
  "windows n xs =
     (if length xs < n then [] else map (\<lambda>i. take n (drop i xs)) [0..<length xs - n + 1])"

definition head_complete :: "bytes \<Rightarrow> bool" where
  "head_complete request \<longleftrightarrow> list_ex (\<lambda>w. w = [13, 10, 13, 10]) (windows 4 request)"

fun read_metrics_request :: "bytes \<Rightarrow> read_outcome list \<Rightarrow> (io_error + bytes \<times> bool) poll" where
  "read_metrics_request request [] =
     (if head_complete request then Ready (Inr (request, True)) else Pending)"
| "read_metrics_request request (r # rs) =
     (if head_complete request then Ready (Inr (request, True))
      else (case r of
              Inl e \<Rightarrow> Ready (Inl e)
            | Inr bs \<Rightarrow>
                if bs = [] then Ready (Inr (request, False))
                else read_metrics_request (request @ bs) rs))"

text \<open>The contract of \<open>AsyncRead\<close> on the buffer that is left.\<close>

fun reads_fit :: "nat \<Rightarrow> read_outcome list \<Rightarrow> bool" where
  "reads_fit room [] = True"
| "reads_fit room (Inl e # rs) = True"
| "reads_fit room (Inr bs # rs) = (length bs \<le> room \<and> reads_fit (room - length bs) rs)"

section \<open>The bearer token\<close>

definition trim_ascii :: "bytes \<Rightarrow> bytes option" where
  "trim_ascii value =
     (let start = (case position (\<lambda>b. \<not> is_ascii_whitespace b) value of
                     Some i \<Rightarrow> i | None \<Rightarrow> length value);
          stop = (case rposition (\<lambda>b. \<not> is_ascii_whitespace b) value of
                    Some index \<Rightarrow> index + 1 | None \<Rightarrow> start)
      in slice start stop value)"

definition strip_cr :: "bytes \<Rightarrow> bytes" where
  "strip_cr line = (if line \<noteq> [] \<and> last line = 13 then butlast line else line)"

text \<open>The closure of \<open>any\<close>; \<open>None\<close> is a panic.\<close>

definition bearer_line :: "(bytes \<Rightarrow> bytes \<Rightarrow> bool) \<Rightarrow> rstr \<Rightarrow> bytes \<Rightarrow> bool option" where
  "bearer_line ct_eq expected raw =
     (let line = strip_cr raw in
      case position (\<lambda>b. b = 58) line of
        None \<Rightarrow> Some False
      | Some c \<Rightarrow>
          Option.bind (slice 0 c line) (\<lambda>field.
            if \<not> eq_ignore_ascii_case field (lit ''authorization'') then Some False
            else Option.bind (slice (c + 1) (length line) line) (\<lambda>rest.
              Option.bind (trim_ascii rest) (\<lambda>value.
                if length value < 7 then Some False
                else Option.bind (slice 0 6 value) (\<lambda>scheme.
                  if \<not> eq_ignore_ascii_case scheme (lit ''bearer'') \<or>
                     \<not> is_ascii_whitespace (value ! 6) then Some False
                  else Option.bind (slice 6 (length value) value) (\<lambda>raw_token.
                    Option.bind (trim_ascii raw_token) (\<lambda>token.
                      Some (ct_eq token (as_bytes expected)))))))))"

fun any_line :: "('a \<Rightarrow> bool option) \<Rightarrow> 'a list \<Rightarrow> bool option" where
  "any_line p [] = Some False"
| "any_line p (x # xs) =
     Option.bind (p x) (\<lambda>b. if b then Some True else any_line p xs)"

definition has_valid_bearer_token ::
  "(bytes \<Rightarrow> bytes \<Rightarrow> bool) \<Rightarrow> bytes \<Rightarrow> rstr \<Rightarrow> bool option" where
  "has_valid_bearer_token ct_eq request expected =
     any_line (bearer_line ct_eq expected) (tl (split_on 10 request))"

section \<open>The response\<close>

record http_response =
  r_status :: rstr
  r_content_type :: rstr
  r_body :: rstr
  r_auth_header :: rstr

definition metrics_response ::
  "(bytes \<Rightarrow> bytes \<Rightarrow> bool) \<Rightarrow> relay_metrics list \<Rightarrow> rstr option \<Rightarrow> bytes \<Rightarrow> bool \<Rightarrow>
   http_response option" where
  "metrics_response ct_eq registry bearer_token request complete =
     (let request_line = hd (split_on 10 request) in
      Option.bind
        (case bearer_token of
           None \<Rightarrow> Some True
         | Some token \<Rightarrow> has_valid_bearer_token ct_eq request token)
        (\<lambda>is_authorized.
          let is_metrics = starts_with (lit ''GET /metrics '') request_line in
          Some
            (if \<not> is_authorized then
               \<lparr>r_status = lit ''401 Unauthorized'', r_content_type = lit ''text/plain; charset=utf-8'',
                r_body = lit ''unauthorized'' @ [10],
                r_auth_header = lit ''WWW-Authenticate: Bearer'' @ [13, 10]\<rparr>
             else if \<not> complete then
               \<lparr>r_status = lit ''400 Bad Request'', r_content_type = lit ''text/plain; charset=utf-8'',
                r_body = lit ''bad request'' @ [10], r_auth_header = []\<rparr>
             else if is_metrics then
               \<lparr>r_status = lit ''200 OK'',
                r_content_type = lit ''text/plain; version=0.0.4; charset=utf-8'',
                r_body = registry_render registry, r_auth_header = []\<rparr>
             else
               \<lparr>r_status = lit ''404 Not Found'', r_content_type = lit ''text/plain; charset=utf-8'',
                r_body = lit ''not found'' @ [10], r_auth_header = []\<rparr>)))"

definition response_header :: "http_response \<Rightarrow> rstr" where
  "response_header r =
     lit ''HTTP/1.1 '' @ r_status r @ [13, 10] @ lit ''Content-Type: '' @ r_content_type r @ [13, 10] @
     lit ''Content-Length: '' @ dec (length (as_bytes (r_body r))) @ [13, 10] @ r_auth_header r @
     lit ''Connection: close'' @ [13, 10, 13, 10]"

text \<open>What the task does to its stream, in order.\<close>

datatype stream_effect = WriteAll bytes | ShutdownStream

text \<open>How the first \<open>select!\<close> ends: shutdown, the 5 s timeout, or the read itself.\<close>

datatype request_event = ForceShutdown | RequestTimeout | RequestRead "io_error + bytes \<times> bool"

definition serve_metrics_connection ::
  "(bytes \<Rightarrow> bytes \<Rightarrow> bool) \<Rightarrow> relay_metrics list \<Rightarrow> rstr option \<Rightarrow> request_event \<Rightarrow> bool \<Rightarrow>
   stream_effect list option" where
  "serve_metrics_connection ct_eq registry bearer_token read header_written =
     (case read of
        RequestRead (Inr (request, complete)) \<Rightarrow>
          map_option
            (\<lambda>r. WriteAll (as_bytes (response_header r)) #
                 (if header_written then [WriteAll (as_bytes (r_body r))] else []) @
                 [ShutdownStream])
            (metrics_response ct_eq registry bearer_token request complete)
      | _ \<Rightarrow> Some [ShutdownStream])"

section \<open>Lemmas: reading\<close>

lemma read_request_bounded:
  assumes "read_metrics_request request rs = Ready (Inr (req, complete))"
    "reads_fit room rs" "length request + room \<le> n"
  shows "length req \<le> n \<and> (complete \<longrightarrow> head_complete req)"
  using assms
proof (induction request rs arbitrary: room rule: read_metrics_request.induct)
  case (1 request)
  then show ?case by (auto split: if_splits)
next
  case (2 request r rs)
  show ?case
  proof (cases r)
    case (Inl e)
    then show ?thesis using 2 by (auto split: if_splits)
  next
    case (Inr bs)
    then show ?thesis using 2 "2.IH" [of bs "room - length bs"] by (auto split: if_splits)
  qed
qed

text \<open>Each read that does not end the loop fills the buffer further, so the loop ends.\<close>

lemma read_request_progress:
  assumes "reads_fit room rs" "room < length rs"
  shows "\<exists>res. read_metrics_request request rs = Ready res"
  using assms
proof (induction request rs arbitrary: room rule: read_metrics_request.induct)
  case (1 request)
  then show ?case by simp
next
  case (2 request r rs)
  show ?case
  proof (cases "head_complete request \<or> (\<exists>e. r = Inl e) \<or> r = Inr []")
    case True
    then show ?thesis by auto
  next
    case False
    then obtain bs where r: "r = Inr bs" "bs \<noteq> []" "\<not> head_complete request" by (cases r) auto
    then have "reads_fit (room - length bs) rs" "room - length bs < length rs"
      using "2.prems" by (cases bs; auto)+
    then show ?thesis using "2.IH" r by simp
  qed
qed

section \<open>Lemmas: trimming\<close>

definition ascii_trimmed :: "bytes \<Rightarrow> bytes" where
  "ascii_trimmed v =
     rev (dropWhile is_ascii_whitespace (rev (dropWhile is_ascii_whitespace v)))"

lemma dropWhile_all: "\<forall>x\<in>set xs. P x \<Longrightarrow> dropWhile P xs = []"
  by (simp add: dropWhile_eq_Nil_conv)

lemma trim_ascii_total: "trim_ascii v = Some (ascii_trimmed v)"
proof (cases "\<forall>b\<in>set v. is_ascii_whitespace b")
  case True
  then have "position (\<lambda>b. \<not> is_ascii_whitespace b) v = None"
    "rposition (\<lambda>b. \<not> is_ascii_whitespace b) v = None"
    by (auto simp: position_None rposition_None)
  then show ?thesis using True
    by (simp add: trim_ascii_def slice_def ascii_trimmed_def dropWhile_all)
next
  case False
  let ?P = "\<lambda>b. \<not> is_ascii_whitespace b"
  obtain i where i: "position ?P v = Some i" using False position_None by (metis not_None_eq)
  obtain j where j: "rposition ?P v = Some j" using False rposition_None by (metis not_None_eq)
  note pi = position_split [OF i] and pj = rposition_split [OF j]
  have ij: "i \<le> j"
  proof (rule ccontr)
    assume "\<not> i \<le> j"
    then have "v ! i \<in> set (drop (Suc j) v)"
      using pi by (auto simp: in_set_conv_nth intro!: exI [of _ "i - Suc j"])
    then show False using pi pj by blast
  qed
  have d: "dropWhile is_ascii_whitespace v = drop i v"
    using position_dropWhile [OF i] by simp
  have "drop i v = take (Suc j - i) (drop i v) @ drop (Suc j) v"
    using ij by (metis Suc_diff_le append_take_drop_id drop_drop le_SucI le_add_diff_inverse2)
  moreover have "take (Suc j - i) (drop i v) = take (j - i) (drop i v) @ [v ! j]"
  proof -
    have "j - i < length (drop i v)" using ij pj by simp arith
    from take_Suc_conv_app_nth [OF this] show ?thesis using ij pj by (simp add: Suc_diff_le)
  qed
  ultimately have split: "drop i v = (take (j - i) (drop i v) @ [v ! j]) @ drop (Suc j) v" by simp
  have "dropWhile is_ascii_whitespace (rev (drop i v)) =
        rev (take (j - i) (drop i v) @ [v ! j])"
    using pj dropWhile_append2 [of "rev (drop (Suc j) v)" is_ascii_whitespace]
    by (subst split) auto
  then have "ascii_trimmed v = take (Suc j - i) (drop i v)"
    using \<open>take (Suc j - i) (drop i v) = _\<close> by (simp add: ascii_trimmed_def d)
  then show ?thesis using i j ij pj by (simp add: trim_ascii_def slice_def)
qed

lemma ascii_trimmed_ends:
  assumes "ascii_trimmed v \<noteq> []"
  shows "\<not> is_ascii_whitespace (hd (ascii_trimmed v)) \<and>
         \<not> is_ascii_whitespace (last (ascii_trimmed v))"
proof -
  let ?d = "dropWhile is_ascii_whitespace v"
  let ?e = "dropWhile is_ascii_whitespace (rev ?d)"
  have e: "?e \<noteq> []" using assms by (simp add: ascii_trimmed_def)
  then have d: "?d \<noteq> []" by (metis dropWhile.simps(1) rev.simps(1))
  have "last ?e = last (rev ?d)" using e
    by (metis dropWhile_eq_drop last_drop length_drop length_greater_0_conv zero_less_diff)
  then have "hd (ascii_trimmed v) = hd ?d"
    using d e by (simp add: ascii_trimmed_def hd_rev last_rev)
  moreover have "last (ascii_trimmed v) = hd ?e" by (simp add: ascii_trimmed_def last_rev)
  ultimately show ?thesis using d e hd_dropWhile by metis
qed

lemma ascii_trimmed_id:
  assumes "v \<noteq> []" "\<not> is_ascii_whitespace (hd v)" "\<not> is_ascii_whitespace (last v)"
  shows "ascii_trimmed v = v"
proof -
  have "dropWhile is_ascii_whitespace v = v" using assms by (auto simp: dropWhile_eq_self_iff)
  moreover have "dropWhile is_ascii_whitespace (rev v) = rev v"
    using assms by (auto simp: dropWhile_eq_self_iff hd_rev)
  ultimately show ?thesis by (simp add: ascii_trimmed_def)
qed

lemma ascii_trimmed_Cons_space:
  "is_ascii_whitespace b \<Longrightarrow> ascii_trimmed (b # v) = ascii_trimmed v"
  by (simp add: ascii_trimmed_def)

lemma set_ascii_trimmed: "b \<in> set (ascii_trimmed v) \<Longrightarrow> b \<in> set v"
  by (metis ascii_trimmed_def set_dropWhileD set_rev)

section \<open>Lemmas: the request head\<close>

lemma windows_mem:
  assumes "w \<in> set (windows n xs)"
  obtains i where "take n (drop i xs) = w"
proof (cases "length xs < n")
  case True
  then show ?thesis using assms by (simp add: windows_def)
next
  case False
  then have "w \<in> (\<lambda>i. take n (drop i xs)) ` set [0..<length xs - n + 1]"
    using assms by (simp add: windows_def del: upt_Suc set_upt)
  then show ?thesis using that by blast
qed

lemma windows_intro:
  assumes "w = take n (drop i xs)" "i + n \<le> length xs"
  shows "w \<in> set (windows n xs)"
proof -
  have "w \<in> (\<lambda>i. take n (drop i xs)) ` set [0..<length xs - n + 1]"
    using assms by (intro image_eqI [of _ _ i]) auto
  then show ?thesis using assms(2) by (simp add: windows_def del: upt_Suc set_upt)
qed

lemma head_complete_iff:
  "head_complete request \<longleftrightarrow> (\<exists>a b. request = a @ [13, 10, 13, 10] @ b)"
proof
  assume "head_complete request"
  then have "[13, 10, 13, 10] \<in> set (windows 4 request)"
    unfolding head_complete_def list_ex_iff by blast
  then obtain i where "take 4 (drop i request) = [13, 10, 13, 10]"
    by (rule windows_mem)
  then have "request = take i request @ [13, 10, 13, 10] @ drop 4 (drop i request)"
    by (metis append_take_drop_id)
  then show "\<exists>a b. request = a @ [13, 10, 13, 10] @ b" by blast
next
  assume "\<exists>a b. request = a @ [13, 10, 13, 10] @ b"
  then obtain a b where r: "request = a @ [13, 10, 13, 10] @ b" by blast
  then have "[13, 10, 13, 10] = take 4 (drop (length a) request)" by simp
  then have "[13, 10, 13, 10] \<in> set (windows 4 request)"
    by (rule windows_intro) (simp add: r)
  then show "head_complete request" unfolding head_complete_def list_ex_iff by blast
qed

text \<open>What a run of successful reads delivered.\<close>

fun delivered :: "read_outcome list \<Rightarrow> bytes" where
  "delivered [] = []"
| "delivered (Inl e # rs) = []"
| "delivered (Inr bs # rs) = bs @ delivered rs"

lemma read_request_result:
  assumes "read_metrics_request request rs = Ready (Inr (req, complete))"
  shows "(\<exists>k. req = request @ delivered (take k rs)) \<and> (complete \<longleftrightarrow> head_complete req)"
  using assms
proof (induction request rs rule: read_metrics_request.induct)
  case (1 request)
  then show ?case by (auto split: if_splits)
next
  case (2 request r rs)
  show ?case
  proof (cases "head_complete request \<or> (\<exists>e. r = Inl e) \<or> r = Inr []")
    case True
    then show ?thesis using "2.prems"
      by (auto split: if_splits intro!: exI [of _ 0])
  next
    case False
    then obtain bs where r: "r = Inr bs" "bs \<noteq> []" "\<not> head_complete request" by (cases r) auto
    then obtain k where "req = (request @ bs) @ delivered (take k rs)"
      "complete \<longleftrightarrow> head_complete req" using 2 by auto
    then show ?thesis using r by (auto intro!: exI [of _ "Suc k"])
  qed
qed

section \<open>Lemmas: the bearer check\<close>

text \<open>What a line has to look like to authorize: the grammar behind the source's slices.\<close>

definition authorizes :: "bytes \<Rightarrow> bytes \<Rightarrow> bool" where
  "authorizes token line \<longleftrightarrow>
     (\<exists>field rest scheme raw_token.
        strip_cr line = field @ [58] @ rest \<and> 58 \<notin> set field \<and>
        eq_ignore_ascii_case field (lit ''authorization'') \<and>
        ascii_trimmed rest = scheme @ raw_token \<and> eq_ignore_ascii_case scheme (lit ''bearer'') \<and>
        raw_token \<noteq> [] \<and> is_ascii_whitespace (hd raw_token) \<and> ascii_trimmed raw_token = token)"

lemma eq_ignore_ascii_case_length: "eq_ignore_ascii_case xs ys \<Longrightarrow> length xs = length ys"
  unfolding eq_ignore_ascii_case_def by (metis length_map)

text \<open>The part of \<open>bearer_line\<close> after the field name, without its checks.\<close>

lemma bearer_value:
  assumes "\<forall>a b. ct_eq a b \<longleftrightarrow> a = b"
  shows "(if length v < 7 then Some False
          else Option.bind (slice 0 6 v) (\<lambda>scheme.
            if \<not> eq_ignore_ascii_case scheme (lit ''bearer'') \<or>
               \<not> is_ascii_whitespace (v ! 6) then Some False
            else Option.bind (slice 6 (length v) v) (\<lambda>raw_token.
              Option.bind (trim_ascii raw_token) (\<lambda>token. Some (ct_eq token expected))))) =
         Some (\<exists>scheme raw_token. v = scheme @ raw_token \<and>
                 eq_ignore_ascii_case scheme (lit ''bearer'') \<and> raw_token \<noteq> [] \<and>
                 is_ascii_whitespace (hd raw_token) \<and> ascii_trimmed raw_token = expected)"
    (is "?lhs = Some ?rhs")
proof (cases "length v < 7")
  case True
  then have "\<not> ?rhs" by (auto dest!: eq_ignore_ascii_case_length)
  with True show ?thesis by simp
next
  case False
  have "?rhs \<longleftrightarrow> eq_ignore_ascii_case (take 6 v) (lit ''bearer'') \<and> is_ascii_whitespace (v ! 6) \<and>
                ascii_trimmed (drop 6 v) = expected" (is "_ \<longleftrightarrow> ?c")
  proof
    assume ?rhs
    then obtain s t where st: "v = s @ t" "eq_ignore_ascii_case s (lit ''bearer'')" "t \<noteq> []"
      "is_ascii_whitespace (hd t)" "ascii_trimmed t = expected" by blast
    have "length s = 6" using eq_ignore_ascii_case_length [OF st(2)] by simp
    then show ?c using st by (simp add: nth_append hd_conv_nth)
  next
    assume ?c
    moreover have "hd (drop 6 v) = v ! 6" using False by (simp add: hd_drop_conv_nth)
    ultimately show ?rhs using False
      by (intro exI [of _ "take 6 v"] exI [of _ "drop 6 v"]) auto
  qed
  then show ?thesis unfolding \<open>?rhs \<longleftrightarrow> ?c\<close> using False assms by (auto simp: trim_ascii_total)
qed

lemma bearer_line_spec:
  assumes "\<forall>a b. ct_eq a b \<longleftrightarrow> a = b"
  shows "bearer_line ct_eq expected line = Some (authorizes (as_bytes expected) line)"
proof (cases "position (\<lambda>b. b = 58) (strip_cr line)")
  case None
  then have "58 \<notin> set (strip_cr line)" by (auto simp: position_None)
  then have "\<not> authorizes (as_bytes expected) line" by (auto simp: authorizes_def)
  then show ?thesis using None by (simp add: bearer_line_def)
next
  case (Some c)
  let ?l = "strip_cr line"
  have c: "c < length ?l" "?l ! c = 58" "58 \<notin> set (take c ?l)"
    using position_split [OF Some] by auto
  have eq: "?l = f @ [58] @ r \<and> 58 \<notin> set f \<longleftrightarrow> f = take c ?l \<and> r = drop (Suc c) ?l" for f r
  proof
    assume "?l = f @ [58] @ r \<and> 58 \<notin> set f"
    then have "position (\<lambda>b. b = 58) ?l = Some (length f)" "?l = f @ [58] @ r"
      by (auto intro!: position_middle)
    then show "f = take c ?l \<and> r = drop (Suc c) ?l" using Some by simp
  next
    assume "f = take c ?l \<and> r = drop (Suc c) ?l"
    then show "?l = f @ [58] @ r \<and> 58 \<notin> set f"
      using c split_at_nth [OF c(1)] by simp
  qed
  have auth: "authorizes (as_bytes expected) line \<longleftrightarrow>
      eq_ignore_ascii_case (take c ?l) (lit ''authorization'') \<and>
      (\<exists>s t. ascii_trimmed (drop (Suc c) ?l) = s @ t \<and> eq_ignore_ascii_case s (lit ''bearer'') \<and>
         t \<noteq> [] \<and> is_ascii_whitespace (hd t) \<and> ascii_trimmed t = as_bytes expected)"
    unfolding authorizes_def using eq by metis
  show ?thesis
    unfolding bearer_line_def Let_def using Some c(1)
    by (simp add: auth trim_ascii_total bearer_value [OF assms] del: Suc_eq_plus1
        add: Suc_eq_plus1 [symmetric])
qed

lemma any_line_total:
  "(\<And>x. x \<in> set xs \<Longrightarrow> p x = Some (P x)) \<Longrightarrow> any_line p xs = Some (\<exists>x\<in>set xs. P x)"
  by (induction xs) auto

lemma bearer_token_spec:
  assumes "\<forall>a b. ct_eq a b \<longleftrightarrow> a = b"
  shows "has_valid_bearer_token ct_eq request expected =
         Some (\<exists>line\<in>set (tl (split_on 10 request)). authorizes (as_bytes expected) line)"
  unfolding has_valid_bearer_token_def
  by (rule any_line_total) (rule bearer_line_spec [OF assms])

text \<open>Only a trimmed token can match; a trimmed one does.\<close>

lemma authorizes_trimmed:
  assumes "authorizes token line"
  shows "ascii_trimmed token = token \<and> 10 \<notin> set token \<or> 10 \<in> set line"
proof -
  obtain field rest scheme raw where
    l: "strip_cr line = field @ [58] @ rest" and r: "ascii_trimmed rest = scheme @ raw"
    and t: "ascii_trimmed raw = token" using assms by (auto simp: authorizes_def)
  have "b \<in> set token \<Longrightarrow> b \<in> set line" for b
  proof -
    assume "b \<in> set token"
    then have "b \<in> set rest" using set_ascii_trimmed r t by (metis Un_iff set_append)
    then have "b \<in> set (strip_cr line)" using l by simp
    then show "b \<in> set line" by (auto simp: strip_cr_def dest: in_set_butlastD split: if_splits)
  qed
  moreover have "ascii_trimmed token = token"
  proof (cases "token = []")
    case True
    then show ?thesis by (simp add: ascii_trimmed_def)
  next
    case False
    then show ?thesis using ascii_trimmed_ends [of raw] t by (intro ascii_trimmed_id) auto
  qed
  ultimately show ?thesis by blast
qed

lemma not_authorized_untrimmed:
  assumes "ascii_trimmed token \<noteq> token \<or> 10 \<in> set token" "line \<in> set (tl (split_on 10 request))"
  shows "\<not> authorizes token line"
proof -
  have "line \<in> set (split_on 10 request)" using assms(2) by (metis list.set_sel(2) split_on_nonempty)
  then have "10 \<notin> set line" by (rule split_on_no_sep)
  then show ?thesis using authorizes_trimmed assms(1) by blast
qed

lemma in_set_dropWhile: "x \<in> set xs \<Longrightarrow> \<not> P x \<Longrightarrow> x \<in> set (dropWhile P xs)"
  by (induction xs) auto

lemma ascii_trimmed_nonempty:
  assumes "v \<noteq> []" "\<not> is_ascii_whitespace (last v)"
  shows "ascii_trimmed v \<noteq> []"
proof -
  have "last v \<in> set (ascii_trimmed v)"
    unfolding ascii_trimmed_def set_rev
    using assms by (intro in_set_dropWhile) (auto intro: in_set_dropWhile)
  then show ?thesis by auto
qed

text \<open>The usual header line, and why it authorizes.\<close>

definition bearer_header :: "bytes \<Rightarrow> bytes" where
  "bearer_header token = lit ''Authorization: Bearer '' @ token"

lemma bearer_header_authorizes:
  assumes "token \<noteq> []" "ascii_trimmed token = token"
  shows "authorizes token (bearer_header token @ [13])"
proof -
  let ?field = "lit ''Authorization'' :: bytes" and ?scheme = "lit ''Bearer'' :: bytes"
  have ends: "\<not> is_ascii_whitespace (last token)"
    using ascii_trimmed_ends [of token] assms by simp
  have "ascii_trimmed ([32] @ ?scheme @ [32] @ token) = ascii_trimmed (?scheme @ [32] @ token)"
    using ascii_trimmed_Cons_space [of 32 "?scheme @ [32] @ token"]
    by (simp add: is_ascii_whitespace_def)
  also have "\<dots> = ?scheme @ [32] @ token"
    using assms ends by (intro ascii_trimmed_id) (auto simp: lit_def is_ascii_whitespace_def)
  finally have "ascii_trimmed ([32] @ ?scheme @ [32] @ token) = ?scheme @ [32] @ token" .
  moreover have "strip_cr (bearer_header token @ [13]) = ?field @ [58] @ [32] @ ?scheme @ [32] @ token"
    by (simp add: strip_cr_def bearer_header_def lit_def)
  moreover have "58 \<notin> set ?field" by (simp add: lit_def)
  moreover have "eq_ignore_ascii_case ?field (lit ''authorization'')"
    "eq_ignore_ascii_case ?scheme (lit ''bearer'')"
    by (simp_all add: eq_ignore_ascii_case_def lit_def byte_lower_def)
  moreover have "ascii_trimmed ([32] @ token) = token" "is_ascii_whitespace 32"
    using assms(2) ascii_trimmed_Cons_space [of 32 token]
    by (simp_all add: is_ascii_whitespace_def)
  ultimately show ?thesis
    unfolding authorizes_def
    by (intro exI [of _ ?field] exI [of _ "[32] @ ?scheme @ [32] @ token"] exI [of _ ?scheme]
        exI [of _ "[32] @ token"]) simp
qed

lemma authorizes_nonempty: "authorizes token line \<Longrightarrow> token \<noteq> []"
proof -
  assume "authorizes token line"
  then obtain rest scheme raw where r: "ascii_trimmed rest = scheme @ raw" "raw \<noteq> []"
    "ascii_trimmed raw = token" by (auto simp: authorizes_def)
  then have "\<not> is_ascii_whitespace (last raw)"
    using ascii_trimmed_ends [of rest] by auto
  then show ?thesis using ascii_trimmed_nonempty r by blast
qed

lemma starts_with_Cons: "starts_with (p # ps) xs \<longleftrightarrow> (\<exists>ys. xs = p # ys \<and> starts_with ps ys)"
  by (cases xs) (auto simp: starts_with_def)

lemma starts_with_first_line:
  "sep \<notin> set p \<Longrightarrow> starts_with p (hd (split_on sep xs)) \<longleftrightarrow> starts_with p xs"
proof (induction p arbitrary: xs)
  case Nil
  then show ?case by (simp add: starts_with_def)
next
  case (Cons c p)
  show ?case
  proof (cases xs)
    case Nil
    then show ?thesis by (simp add: starts_with_Cons)
  next
    case (Cons x ys)
    obtain l ls where l: "split_on sep ys = l # ls" by (cases "split_on sep ys") auto
    have "starts_with p l \<longleftrightarrow> starts_with p ys" using Cons.IH [of ys] Cons.prems l by simp
    then show ?thesis using Cons l Cons.prems by (auto simp: starts_with_Cons)
  qed
qed

section \<open>Properties\<close>

text \<open>
  C25. Reading a request head always ends within the 4 KiB buffer: with more read outcomes than
  the buffer has bytes the loop has returned, and a request it returns is exactly what the
  reads delivered, fits the buffer and is flagged complete if and only if it contains the
  blank line.
\<close>

theorem metrics_request_read:
  assumes "reads_fit REQUEST_BUFFER rs"
  shows "(REQUEST_BUFFER < length rs \<longrightarrow> (\<exists>res. read_metrics_request [] rs = Ready res)) \<and>
         (\<forall>req complete. read_metrics_request [] rs = Ready (Inr (req, complete)) \<longrightarrow>
            length req \<le> 4096 \<and> (\<exists>k. req = delivered (take k rs)) \<and>
            (complete \<longleftrightarrow> (\<exists>a b. req = a @ [13, 10, 13, 10] @ b)))"
proof (intro conjI impI allI)
  assume "REQUEST_BUFFER < length rs"
  then show "\<exists>res. read_metrics_request [] rs = Ready res"
    by (rule read_request_progress [OF assms])
next
  fix req complete
  assume r: "read_metrics_request [] rs = Ready (Inr (req, complete))"
  from read_request_bounded [OF r assms, of 4096] show "length req \<le> 4096"
    by (simp add: REQUEST_BUFFER_def)
  from read_request_result [OF r]
  show "\<exists>k. req = delivered (take k rs)" "complete \<longleftrightarrow> (\<exists>a b. req = a @ [13, 10, 13, 10] @ b)"
    by (simp_all add: head_complete_iff)
qed

lemma metrics_request_read_witness:
  "\<exists>res. read_metrics_request [] (Inl (OsError 104) # replicate 4096 (Inr [])) = Ready res"
proof -
  have "reads_fit REQUEST_BUFFER (Inl (OsError 104) # replicate 4096 (Inr []))"
    "REQUEST_BUFFER < length (Inl (OsError 104) # replicate 4096 (Inr []) :: read_outcome list)"
    by (simp_all add: REQUEST_BUFFER_def)
  then show ?thesis using metrics_request_read by blast
qed

text \<open>
  C22. The bearer check never panics and is true exactly when some line after the request line
  is an authorization field whose value is the bearer scheme, white space and the configured
  token (names and scheme without regard to case, white space trimmed); the constant-time
  comparison is assumed to decide equality.
\<close>

theorem bearer_check:
  assumes "\<And>a b. ct_eq a b \<longleftrightarrow> a = b"
  shows "has_valid_bearer_token ct_eq request expected =
         Some (\<exists>line\<in>set (tl (split_on 10 request)). authorizes (as_bytes expected) line)"
  using assms by (intro bearer_token_spec) blast

lemma bearer_check_witness:
  "has_valid_bearer_token (=) [71, 10, 88] (lit ''t'') =
   Some (\<exists>line\<in>set (tl (split_on 10 [71, 10, 88])). authorizes (as_bytes (lit ''t'')) line)"
  by (rule bearer_check) (rule refl)

text \<open>
  C38. Which tokens can be used at all: some request authorizes against a configured token if
  and only if the token is not empty, has no ASCII white space at either end and no line feed;
  for such a token the usual header line authorizes, in any position after the request line.
  Validation rejects only the empty token.
\<close>

theorem bearer_token_usable:
  assumes "\<And>a b. ct_eq a b \<longleftrightarrow> a = b"
  shows "((\<exists>request. has_valid_bearer_token ct_eq request token = Some True) \<longleftrightarrow>
          (as_bytes token \<noteq> [] \<and> ascii_trimmed (as_bytes token) = as_bytes token \<and>
           10 \<notin> set (as_bytes token))) \<and>
         (as_bytes token \<noteq> [] \<longrightarrow> ascii_trimmed (as_bytes token) = as_bytes token \<longrightarrow>
          10 \<notin> set (as_bytes token) \<longrightarrow>
          has_valid_bearer_token ct_eq
            (first @ [10] @ bearer_header (as_bytes token) @ [13, 10] @ rest) token = Some True)"
proof -
  let ?t = "as_bytes token"
  have eq: "\<forall>a b. ct_eq a b \<longleftrightarrow> a = b" using assms by blast
  have usual: "has_valid_bearer_token ct_eq (first @ [10] @ bearer_header ?t @ [13, 10] @ rest) token
               = Some True"
    if "?t \<noteq> []" "ascii_trimmed ?t = ?t" "10 \<notin> set ?t" for first rest
  proof -
    let ?l = "bearer_header ?t @ [13]"
    have "10 \<notin> set ?l" using that(3) by (simp add: bearer_header_def lit_def)
    then have "split_on 10 ?l = [?l]" by (rule split_on_single)
    then have "split_on 10 (first @ 10 # ?l @ 10 # rest) = split_on 10 first @ ?l # split_on 10 rest"
      by (simp only: split_on_append_sep) simp
    moreover have "split_on 10 first \<noteq> []" by simp
    ultimately have "?l \<in> set (tl (split_on 10 (first @ 10 # ?l @ 10 # rest)))"
      by (cases "split_on 10 first") auto
    then show ?thesis
      using bearer_header_authorizes [OF that(1,2)] by (auto simp: bearer_token_spec [OF eq])
  qed
  moreover have "?t \<noteq> [] \<and> ascii_trimmed ?t = ?t \<and> 10 \<notin> set ?t"
    if "has_valid_bearer_token ct_eq request token = Some True" for request
  proof -
    from that obtain line where "line \<in> set (tl (split_on 10 request))" "authorizes ?t line"
      by (auto simp: bearer_token_spec [OF eq])
    then show ?thesis using not_authorized_untrimmed authorizes_nonempty by blast
  qed
  ultimately show ?thesis by blast
qed

lemma bearer_token_usable_witness:
  "\<not> (\<exists>request. has_valid_bearer_token (=) request (lit ''secret '') = Some True)"
proof -
  have "as_bytes (lit ''secret '') = (map of_nat (lit ''secret '') :: bytes)"
    by (rule as_bytes_ascii) (simp add: lit_def)
  then have "ascii_trimmed (as_bytes (lit ''secret '')) \<noteq> as_bytes (lit ''secret '')"
    by (simp add: lit_def ascii_trimmed_def is_ascii_whitespace_def)
  then show ?thesis
    using bearer_token_usable [of "(=)" "lit ''secret ''"] by simp
qed

text \<open>
  C23. The response to a request that was read: 401 with the challenge exactly when a token is
  configured and no line authorizes, then 400 exactly when the head is incomplete, then 200
  exactly for \<open>GET /metrics \<close>, and 404 otherwise. The relays' metrics are in the body of the
  200 response and nowhere else.
\<close>

theorem metrics_response_decision:
  assumes "\<And>a b. ct_eq a b \<longleftrightarrow> a = b"
    and "authorized \<longleftrightarrow> (\<forall>token. bearer_token = Some token \<longrightarrow>
           (\<exists>line\<in>set (tl (split_on 10 request)). authorizes (as_bytes token) line))"
  shows "\<exists>r. metrics_response ct_eq registry bearer_token request complete = Some r \<and>
     (r_status r, r_body r) =
       (if \<not> authorized then (lit ''401 Unauthorized'', lit ''unauthorized'' @ [10])
        else if \<not> complete then (lit ''400 Bad Request'', lit ''bad request'' @ [10])
        else if starts_with (lit ''GET /metrics '') request
          then (lit ''200 OK'', registry_render registry)
        else (lit ''404 Not Found'', lit ''not found'' @ [10])) \<and>
     (r_auth_header r = [] \<longleftrightarrow> authorized)"
proof -
  have "\<forall>a b. ct_eq a b \<longleftrightarrow> a = b" using assms(1) by blast
  note spec = bearer_token_spec [OF this]
  have line: "starts_with (lit ''GET /metrics '') (hd (split_on 10 request)) \<longleftrightarrow>
              starts_with (lit ''GET /metrics '') request"
    by (rule starts_with_first_line) (simp add: lit_def)
  show ?thesis
    using assms(2)
    by (cases bearer_token)
      (simp_all add: metrics_response_def Let_def spec line)
qed

lemma metrics_response_decision_witness:
  "\<exists>r. metrics_response (=) [] (Some (lit ''t'')) [] True = Some r \<and> r_status r = lit ''401 Unauthorized''"
  using metrics_response_decision [of "(=)" False "Some (lit ''t'')" "[]" "[]" True] by auto

text \<open>
  C26. What a metrics connection does to its stream, whatever happens: it never panics, always
  ends with a shutdown, writes nothing when the request could not be read (shutdown forced,
  timeout or I/O error), and otherwise writes one header announcing the length of the body in
  bytes, followed by that body if the header could be written.
\<close>

theorem serve_metrics_effects:
  assumes "\<And>a b. ct_eq a b \<longleftrightarrow> a = b"
  shows "\<exists>effects. serve_metrics_connection ct_eq registry bearer_token read header_written
           = Some (effects @ [ShutdownStream]) \<and>
     (case read of
        RequestRead (Inr (request, complete)) \<Rightarrow>
          (\<exists>r before after. metrics_response ct_eq registry bearer_token request complete = Some r \<and>
             response_header r =
               before @ lit ''Content-Length: '' @ dec (length (as_bytes (r_body r))) @ after \<and>
             effects = WriteAll (as_bytes (response_header r)) #
               (if header_written then [WriteAll (as_bytes (r_body r))] else []))
      | _ \<Rightarrow> effects = [])"
proof (cases "\<exists>request complete. read = RequestRead (Inr (request, complete))")
  case True
  then obtain request complete where r: "read = RequestRead (Inr (request, complete))" by blast
  have "\<forall>a b. ct_eq a b \<longleftrightarrow> a = b" using assms by blast
  then obtain resp where resp:
    "metrics_response ct_eq registry bearer_token request complete = Some resp"
    by (cases bearer_token) (auto simp: metrics_response_def Let_def bearer_token_spec)
  have "\<exists>before after. response_header resp =
          before @ lit ''Content-Length: '' @ dec (length (as_bytes (r_body resp))) @ after"
    unfolding response_header_def
    by (rule exI [of _ "lit ''HTTP/1.1 '' @ r_status resp @ [13, 10] @ lit ''Content-Type: '' @
          r_content_type resp @ [13, 10]"]) simp
  with resp show ?thesis by (auto simp: serve_metrics_connection_def r)
next
  case False
  then show ?thesis
    by (auto simp: serve_metrics_connection_def split: request_event.splits sum.splits prod.splits)
qed

lemma serve_metrics_effects_witness:
  "serve_metrics_connection (=) [] None RequestTimeout True = Some [ShutdownStream]"
  using serve_metrics_effects [of "(=)" "[]" None RequestTimeout True] by simp

end
