(* ===== verification/Metrics_Server.thy ===== *)
theory Metrics_Server
  imports Metrics_Http Relay_Liveness Metrics_Tls
begin

text \<open>
  The metrics listener and the connections it serves (\<open>src/src/server.rs\<close>, lines 532 to 643) as
  a machine of its own, and the proof that the server machine of theory \<open>Relay_System\<close>, which
  only counts them, stands for it.
\<close>

section \<open>The listener and its connections\<close>

text \<open>
  A connection that has read its request holds the registry as it rendered it. Only the TLS
  handshake and the reading are raced with the forced shutdown: the writing of the response is
  left to the client's pace.
\<close>

datatype page_phase =
    Handshaking
  | ReadingRequest
  | WritingResponse "relay_metrics list" request_event
  | PageDone "stream_effect list"

record page =
  pg_secure :: bool
  pg_phase :: page_phase

record metrics_server =
  ms_listening :: bool
  ms_pages :: "page list"

datatype metrics_event = MetricsAccepted | MetricsAcceptFailed | MetricsShutdown

definition run_metrics_listener ::
  "tls_acceptor option \<Rightarrow> bool \<Rightarrow> metrics_event \<Rightarrow> metrics_server \<Rightarrow> metrics_server option" where
  "run_metrics_listener acceptor shutdown event s =
     (if \<not> ms_listening s then None
      else if shutdown then Some (s\<lparr>ms_listening := False\<rparr>)
      else case event of
        MetricsShutdown \<Rightarrow> None
      | MetricsAcceptFailed \<Rightarrow> Some s
      | MetricsAccepted \<Rightarrow>
          Some (s\<lparr>ms_pages := ms_pages s @
            [\<lparr>pg_secure = False,
              pg_phase = (if acceptor = None then ReadingRequest else Handshaking)\<rparr>]\<rparr>))"

text \<open>
  \<open>HandshakeEnds\<close> says whether \<open>timeout(5 s, accept(stream))\<close> gave a stream; \<open>ReadEnds\<close> how the
  reading ended; \<open>WritesEnd\<close> that the stream took what it took, the header or not.
\<close>

datatype page_event =
    PageForced | HandshakeEnds bool | ReadingEnds request_event | WritesEnd bool

definition page_step ::
  "(bytes \<Rightarrow> bytes \<Rightarrow> bool) \<Rightarrow> relay_metrics list \<Rightarrow> rstr option \<Rightarrow> bool \<Rightarrow> page_event \<Rightarrow> page \<Rightarrow>
   page option" where
  "page_step ct_eq registry bearer_token force event p =
     (case (pg_phase p, event) of
        (Handshaking, PageForced) \<Rightarrow> if force then Some (p\<lparr>pg_phase := PageDone []\<rparr>) else None
      | (Handshaking, HandshakeEnds ok) \<Rightarrow>
          Some (if ok then p\<lparr>pg_secure := True, pg_phase := ReadingRequest\<rparr> else p\<lparr>pg_phase := PageDone []\<rparr>)
      | (ReadingRequest, ReadingEnds read) \<Rightarrow>
          if read = ForceShutdown \<and> \<not> force then None
          else Some (p\<lparr>pg_phase := WritingResponse registry read\<rparr>)
      | (WritingResponse shown read, WritesEnd header_written) \<Rightarrow>
          map_option (\<lambda>effects. p\<lparr>pg_phase := PageDone effects\<rparr>)
            (serve_metrics_connection ct_eq shown bearer_token read header_written)
      | _ \<Rightarrow> None)"

text \<open>The registry is shared with the relays, the two flags with \<open>Server::run\<close>.\<close>

inductive metrics_step ::
  "(bytes \<Rightarrow> bytes \<Rightarrow> bool) \<Rightarrow> tls_acceptor option \<Rightarrow> rstr option \<Rightarrow> 's server_state \<Rightarrow>
   metrics_server \<Rightarrow> metrics_server \<Rightarrow> bool"
  for ct_eq :: "bytes \<Rightarrow> bytes \<Rightarrow> bool" and acceptor :: "tls_acceptor option"
    and bearer_token :: "rstr option" and server :: "'s server_state" where
  listen: "run_metrics_listener acceptor (sv_shutdown server) event s = Some s' \<Longrightarrow>
    metrics_step ct_eq acceptor bearer_token server s s'"
| serve: "k < length (ms_pages s) \<Longrightarrow>
    page_step ct_eq (sv_metrics server) bearer_token (sv_force server) event (ms_pages s ! k) = Some p \<Longrightarrow>
    metrics_step ct_eq acceptor bearer_token server s (s\<lparr>ms_pages := (ms_pages s)[k := p]\<rparr>)"

inductive_cases metrics_stepE: "metrics_step ct_eq acceptor bearer_token server s s'"

section \<open>What the server machine sees\<close>

fun page_open :: "page_phase \<Rightarrow> bool" where
  "page_open (PageDone effects) = False"
| "page_open _ = True"

definition open_pages :: "metrics_server \<Rightarrow> nat" where
  "open_pages s = length (filter (\<lambda>p. page_open (pg_phase p)) (ms_pages s))"

text \<open>The server machine with this metrics server and \<open>refreshers\<close> refresh tasks.\<close>

definition with_metrics :: "nat \<Rightarrow> metrics_server \<Rightarrow> 's server_state \<Rightarrow> 's server_state" where
  "with_metrics refreshers ms s =
     s\<lparr>sv_helpers := refreshers + (if ms_listening ms then 1 else 0), sv_pages := open_pages ms\<rparr>"

lemma with_metrics_flags [simp]:
  "sv_shutdown (with_metrics r ms s) = sv_shutdown s" "sv_force (with_metrics r ms s) = sv_force s"
  "sv_metrics (with_metrics r ms s) = sv_metrics s" "sv_pages (with_metrics r ms s) = open_pages ms"
  "sv_helpers (with_metrics r ms s) = r + (if ms_listening ms then 1 else 0)"
  by (simp_all add: with_metrics_def)

lemma page_step_open:
  assumes "page_step ct_eq registry token force event p = Some p'"
  shows "page_open (pg_phase p)"
  using assms by (auto simp: page_step_def split: page_phase.splits page_event.splits)

lemma metrics_step_simulated:
  assumes "metrics_step ct_eq acceptor token s ms ms'"
  shows "server_step ops rate (with_metrics r ms s) (with_metrics r ms' s) \<or>
     with_metrics r ms' s = with_metrics r ms s"
  using assms
proof (cases rule: metrics_step.cases)
  case (listen event)
  then consider "ms_listening ms" "sv_shutdown s" "ms' = ms\<lparr>ms_listening := False\<rparr>" | "ms' = ms"
    | ph where "ms_listening ms" "page_open ph" "ms' = ms\<lparr>ms_pages := ms_pages ms @ [\<lparr>pg_secure = False, pg_phase = ph\<rparr>]\<rparr>"
    by (cases event; cases "ms_listening ms"; cases "sv_shutdown s"; cases "acceptor = None";
        force simp: run_metrics_listener_def)
  then show ?thesis
  proof cases
    case 1
    then have "with_metrics r ms' s = (with_metrics r ms s)\<lparr>sv_helpers := sv_helpers (with_metrics r ms s) - 1\<rparr>"
      by (simp add: with_metrics_def open_pages_def)
    then show ?thesis using 1 server_step.helper [of "with_metrics r ms s" ops rate] by simp
  next
    case (3 ph)
    then have "with_metrics r ms' s = (with_metrics r ms s)\<lparr>sv_pages := sv_pages (with_metrics r ms s) + 1\<rparr>"
      by (simp add: with_metrics_def open_pages_def)
    then show ?thesis using 3 server_step.page_open [of "with_metrics r ms s" ops rate] by simp
  qed simp
next
  case (serve k event p)
  have open_k: "page_open (pg_phase (ms_pages ms ! k))" by (rule page_step_open [OF serve(3)])
  have count: "open_pages ms' + 1 = open_pages ms + of_bool (page_open (pg_phase p))"
    using length_filter_update [OF serve(2), of "\<lambda>p. page_open (pg_phase p)" p] open_k serve(1)
    by (simp add: open_pages_def)
  show ?thesis
  proof (cases "page_open (pg_phase p)")
    case True
    then show ?thesis using count serve(1) by (simp add: with_metrics_def)
  next
    case False
    then have "with_metrics r ms' s = (with_metrics r ms s)\<lparr>sv_pages := sv_pages (with_metrics r ms s) - 1\<rparr>"
      using count serve(1) by (simp add: with_metrics_def)
    moreover have "0 < sv_pages (with_metrics r ms s)" using count False by simp
    ultimately show ?thesis using server_step.page_close [of "with_metrics r ms s" ops rate] by metis
  qed
qed

section \<open>What a connection has written\<close>

text \<open>
  Without TLS every connection is plain; with it nothing is read or written before the
  handshake. A finished connection wrote nothing or the response to the request it read.
\<close>

definition page_ok ::
  "(bytes \<Rightarrow> bytes \<Rightarrow> bool) \<Rightarrow> tls_acceptor option \<Rightarrow> rstr option \<Rightarrow> page \<Rightarrow> bool" where
  "page_ok ct_eq acceptor token p \<longleftrightarrow>
     (pg_secure p \<longrightarrow> acceptor \<noteq> None) \<and>
     (case pg_phase p of
        Handshaking \<Rightarrow> acceptor \<noteq> None \<and> \<not> pg_secure p
      | ReadingRequest \<Rightarrow> pg_secure p \<longleftrightarrow> acceptor \<noteq> None
      | WritingResponse registry read \<Rightarrow> pg_secure p \<longleftrightarrow> acceptor \<noteq> None
      | PageDone effects \<Rightarrow> effects = [] \<or>
          (pg_secure p \<longleftrightarrow> acceptor \<noteq> None) \<and>
          (\<exists>registry read header_written.
             serve_metrics_connection ct_eq registry token read header_written = Some effects))"

lemma page_ok_step:
  assumes "page_ok ct_eq acceptor token p" "page_step ct_eq registry token force event p = Some p'"
  shows "page_ok ct_eq acceptor token p'"
  using assms
  by (cases "pg_phase p"; cases event)
    (auto simp: page_ok_def page_step_def split: if_splits)

definition pages_ok ::
  "(bytes \<Rightarrow> bytes \<Rightarrow> bool) \<Rightarrow> tls_acceptor option \<Rightarrow> rstr option \<Rightarrow> metrics_server \<Rightarrow> bool" where
  "pages_ok ct_eq acceptor token ms \<longleftrightarrow> list_all (page_ok ct_eq acceptor token) (ms_pages ms)"

lemma pages_ok_step:
  assumes "pages_ok ct_eq acceptor token ms" "metrics_step ct_eq acceptor token s ms ms'"
  shows "pages_ok ct_eq acceptor token ms'"
  using assms(2)
proof (cases rule: metrics_step.cases)
  case (listen event)
  then show ?thesis using assms(1)
    by (auto simp: run_metrics_listener_def pages_ok_def page_ok_def split: if_splits metrics_event.splits)
next
  case (serve k event p)
  then have "page_ok ct_eq acceptor token p"
    using page_ok_step [of ct_eq acceptor token "ms_pages ms ! k"] assms(1)
    by (auto simp: pages_ok_def list_all_length)
  then show ?thesis using assms(1) serve
    by (auto simp: pages_ok_def list_all_length nth_list_update)
qed

section \<open>The server with its metrics listener\<close>

text \<open>
  A configuration is the number of running refresh tasks, the server's own state (whose helper
  and page counts stand for nothing here) and the metrics server.
\<close>

inductive full_step ::
  "'s semaphore_ops \<Rightarrow> usize \<Rightarrow> (bytes \<Rightarrow> bytes \<Rightarrow> bool) \<Rightarrow> tls_acceptor option \<Rightarrow> rstr option \<Rightarrow>
   nat \<times> 's server_state \<times> metrics_server \<Rightarrow> nat \<times> 's server_state \<times> metrics_server \<Rightarrow> bool"
  for ops :: "'s semaphore_ops" and rate :: usize and ct_eq :: "bytes \<Rightarrow> bytes \<Rightarrow> bool"
    and acceptor :: "tls_acceptor option" and token :: "rstr option" where
  own: "p \<noteq> HelperTasks \<Longrightarrow> p \<noteq> Environment \<Longrightarrow> process_step ops rate p (with_metrics r ms s) s' \<Longrightarrow>
    full_step ops rate ct_eq acceptor token (r, s, ms) (r, s', ms)"
| signal: "full_step ops rate ct_eq acceptor token (r, s, ms) (r, s\<lparr>sv_shutdown := True\<rparr>, ms)"
| refresher: "sv_shutdown s \<Longrightarrow> full_step ops rate ct_eq acceptor token (Suc r, s, ms) (r, s, ms)"
| metrics: "metrics_step ct_eq acceptor token s ms ms' \<Longrightarrow>
    full_step ops rate ct_eq acceptor token (r, s, ms) (r, s, ms')"

fun seen_by_server :: "nat \<times> 's server_state \<times> metrics_server \<Rightarrow> 's server_state" where
  "seen_by_server (r, s, ms) = with_metrics r ms s"

lemma process_step_frame:
  assumes "process_step ops rate p s s'" "p \<noteq> HelperTasks" "p \<noteq> Environment"
  shows "sv_helpers s' = sv_helpers s \<and> sv_pages s' = sv_pages s"
proof (cases p)
  case (ListenerOf i)
  then obtain ev where "run_relay_listener ops rate i ev s = Some s'" using assms(1) by auto
  then show ?thesis
    by (cases rule: listener_step_cases) (auto simp: spawn_connection_def Let_def count_metric_def set_listener_def)
next
  case (TaskOf k)
  then obtain ev where "run_task ops k ev s = Some s'" using assms(1) by auto
  then show ?thesis by (cases rule: task_step_cases) simp_all
next
  case RunTask
  then obtain ev where "run_server ev s = Some s'" using assms(1) by auto
  then show ?thesis by (auto simp: run_server_def split: run_phase.splits run_event.splits if_splits)
qed (use assms in auto)

lemma full_step_simulated:
  assumes "full_step ops rate ct_eq acceptor token c c'"
  shows "server_step ops rate (seen_by_server c) (seen_by_server c') \<or> seen_by_server c' = seen_by_server c"
  using assms
proof (cases rule: full_step.cases)
  case (own p r ms s s')
  have "sv_helpers s' = r + (if ms_listening ms then 1 else 0) \<and> sv_pages s' = open_pages ms"
    using process_step_frame [OF own(5,3,4)] by simp
  then have "with_metrics r ms s' = s'" by (cases s') (simp add: with_metrics_def)
  then show ?thesis using own server_step_process by fastforce
next
  case (signal r s ms)
  have "with_metrics r ms (s\<lparr>sv_shutdown := True\<rparr>) = (with_metrics r ms s)\<lparr>sv_shutdown := True\<rparr>"
    by (simp add: with_metrics_def)
  then show ?thesis using signal by (simp add: server_step.shutdown)
next
  case (refresher s r ms)
  let ?t = "with_metrics (Suc r) ms s"
  have "with_metrics r ms s = ?t\<lparr>sv_helpers := sv_helpers ?t - 1\<rparr>" by (simp add: with_metrics_def)
  moreover have "sv_shutdown ?t" "0 < sv_helpers ?t" using refresher by simp_all
  ultimately show ?thesis using refresher server_step.helper by (metis seen_by_server.simps)
next
  case (metrics s ms ms' r)
  then show ?thesis using metrics_step_simulated [OF metrics(3), of ops rate r] by simp
qed

lemma full_run_simulated:
  assumes "(full_step ops rate ct_eq acceptor token)\<^sup>*\<^sup>* c c'"
  shows "(server_step ops rate)\<^sup>*\<^sup>* (seen_by_server c) (seen_by_server c')"
  using assms
proof (induction rule: rtranclp_induct)
  case (step c1 c2)
  then show ?case
    using full_step_simulated [OF step(2)] by (auto intro: rtranclp.rtrancl_into_rtrancl)
qed simp

lemma full_run_pages:
  assumes "(full_step ops rate ct_eq acceptor token)\<^sup>*\<^sup>* c c'"
    "pages_ok ct_eq acceptor token (snd (snd c))"
  shows "pages_ok ct_eq acceptor token (snd (snd c'))"
  using assms
proof (induction rule: rtranclp_induct)
  case (step c1 c2)
  from step(2) show ?case
    by (cases rule: full_step.cases) (use step in \<open>auto dest: pages_ok_step\<close>)
qed

definition metrics_start :: metrics_server where
  "metrics_start = \<lparr>ms_listening = True, ms_pages = []\<rparr>"

lemma full_start_seen:
  "seen_by_server (r, initial_state ops limits names h, metrics_start) =
   initial_state ops limits names (r + 1)"
  by (simp add: with_metrics_def initial_state_def metrics_start_def open_pages_def)

section \<open>Properties\<close>

text \<open>
  C13. The server with its real metrics listener, connections and refresh tasks refines the server
  machine that only counts them, so everything proved of that machine holds here; and when
  \<open>Server::run\<close> ends gracefully, the metrics listener has stopped and every metrics connection
  is finished.
\<close>

theorem metrics_server_refines:
  assumes "semaphore ops" "representable limits"
    "(full_step ops rate ct_eq acceptor token)\<^sup>*\<^sup>*
       (r0, initial_state ops limits names h, metrics_start) (r, s, ms)"
  shows "reachable ops rate limits names (r0 + 1) (with_metrics r ms s) \<and>
     (sv_run s = Complete True \<longrightarrow>
        \<not> ms_listening ms \<and> (\<forall>p\<in>set (ms_pages ms). \<exists>effects. pg_phase p = PageDone effects))"
proof -
  have r: "reachable ops rate limits names (r0 + 1) (with_metrics r ms s)"
    using full_run_simulated [OF assms(3), unfolded full_start_seen] by (simp add: reachable_def)
  have "server_inv ops rate limits names (with_metrics r ms s)"
    by (rule running_server.reachable_inv [OF running_serverI [OF assms(1,2)] r])
  then have "shutdown_inv (with_metrics r ms s)" by (simp add: server_inv_def)
  moreover have "sv_run (with_metrics r ms s) = sv_run s" by (simp add: with_metrics_def)
  ultimately have "sv_run s = Complete True \<Longrightarrow> \<not> ms_listening ms \<and> open_pages ms = 0"
    by (auto simp: shutdown_inv_def listeners_joined_def tasks_drained_def split: if_splits)
  moreover have "open_pages ms = 0 \<Longrightarrow> p \<in> set (ms_pages ms) \<Longrightarrow> \<exists>effects. pg_phase p = PageDone effects" for p
    by (cases "pg_phase p") (auto simp: open_pages_def filter_empty_conv)
  ultimately show ?thesis using r by blast
qed


text \<open>A scrape without TLS: accepted, read in time, answered.\<close>

lemma example_scrape:
  "\<exists>ms. (full_step counting_ops 1 (=) None None)\<^sup>*\<^sup>*
     (0, initial_state counting_ops example_limits [lit ''db''] 0, metrics_start)
     (0, initial_state counting_ops example_limits [lit ''db''] 0, ms) \<and>
   ms_pages ms = [\<lparr>pg_secure = False, pg_phase = PageDone [ShutdownStream]\<rparr>]"
proof -
  let ?s = "initial_state counting_ops example_limits [lit ''db''] 0"
  let ?ms = "\<lambda>ph. \<lparr>ms_listening = True, ms_pages = [\<lparr>pg_secure = False, pg_phase = ph\<rparr>]\<rparr>"
  let ?step = "full_step counting_ops 1 (=) None None"
  have "?step (0, ?s, metrics_start) (0, ?s, ?ms ReadingRequest)"
    by (intro full_step.metrics metrics_step.listen [where event = MetricsAccepted])
      (simp add: run_metrics_listener_def metrics_start_def initial_state_def)
  moreover have "?step (0, ?s, ?ms ReadingRequest) (0, ?s, ?ms (WritingResponse (sv_metrics ?s) RequestTimeout))"
    using metrics_step.serve [of 0 "?ms ReadingRequest" "(=)" ?s None "ReadingEnds RequestTimeout"
        "\<lparr>pg_secure = False, pg_phase = WritingResponse (sv_metrics ?s) RequestTimeout\<rparr>" None]
    by (intro full_step.metrics) (simp add: page_step_def)
  moreover have "?step (0, ?s, ?ms (WritingResponse (sv_metrics ?s) RequestTimeout)) (0, ?s, ?ms (PageDone [ShutdownStream]))"
    using metrics_step.serve [of 0 "?ms (WritingResponse (sv_metrics ?s) RequestTimeout)" "(=)" ?s None
        "WritesEnd True" "\<lparr>pg_secure = False, pg_phase = PageDone [ShutdownStream]\<rparr>" None]
    by (intro full_step.metrics) (simp add: page_step_def serve_metrics_connection_def)
  ultimately have "?step\<^sup>*\<^sup>* (0, ?s, metrics_start) (0, ?s, ?ms (PageDone [ShutdownStream]))"
    by (meson converse_rtranclp_into_rtranclp rtranclp.rtrancl_refl)
  then show ?thesis by (intro exI [of _ "?ms (PageDone [ShutdownStream])"]) simp
qed

lemma metrics_server_refines_witness:
  "\<exists>ms. ms_pages ms = [\<lparr>pg_secure = False, pg_phase = PageDone [ShutdownStream]\<rparr>] \<and>
     reachable counting_ops 1 example_limits [lit ''db''] 1
       (with_metrics 0 ms (initial_state counting_ops example_limits [lit ''db''] 0))"
  using example_scrape metrics_server_refines [OF counting.semaphore_axioms example_representable]
  by (metis add_0)


end
