(* ===== verification/Load_Client.thy ===== *)
theory Load_Client
  imports Rust_Std
begin

text \<open>
  The external load generator (\<open>src/examples/load_client.rs\<close>): the checks of its arguments, the
  client task \<open>round_trip\<close> and the main task with its start barrier, as one machine whose steps
  are the atomic operations of the shared \<open>LoadState\<close>. \<open>src/examples/load.rs\<close> has the same
  clients (one round, no pauses) and the same barrier.
\<close>

section \<open>Arguments\<close>

record load_args =
  la_relay :: "rstr list"
  la_connections :: usize
  la_payload_bytes :: usize
  la_rounds :: usize
  la_launch_batch :: usize

datatype args_error = NoConnections | NoPayload | NoRounds | NoLaunchBatch | NoRelays

definition check_args :: "load_args \<Rightarrow> args_error + unit" where
  "check_args args =
     (if la_connections args = 0 then Inl NoConnections
      else if la_payload_bytes args = 0 then Inl NoPayload
      else if la_rounds args = 0 then Inl NoRounds
      else if la_launch_batch args = 0 then Inl NoLaunchBatch
      else if la_relay args = [] then Inl NoRelays
      else Inr ())"

section \<open>The client task\<close>

record load_state =
  ld_start :: bool
  ld_active :: usize
  ld_max_active :: usize
  ld_connected :: usize
  ld_failed :: usize
  ld_ready :: bool      \<comment> \<open>the permit of \<open>connection_ready\<close>\<close>

datatype client_error =
    ConnectError io_error | ConnectTimeout | WriteTimeout | WriteError io_error
  | ReadTimeout | ReadError io_error | EchoMismatch

datatype 'a timed = Elapsed | InTime 'a

datatype client_phase =
    Dialing
  | CountFailed client_error | NotifyFailed client_error
  | CountConnected | CountActive | RecordMax usize | NotifyConnected
  | AwaitingStart
  | SendingRound nat | ReceivingRound nat | Pausing nat | Holding
  | Leaving "client_error + unit"
  | ClientEnded "client_error + unit"

datatype client_event =
    ClientDialed "(io_error + unit) timed"
  | ClientWrote "(io_error + unit) timed"
  | ClientRead "(io_error + bytes) timed"
  | ClientSlept
  | ClientProceeds

text \<open>\<open>read_exact\<close> fills its buffer or fails.\<close>

definition round_trip ::
  "usize \<Rightarrow> bytes \<Rightarrow> client_event \<Rightarrow> client_phase \<Rightarrow> load_state \<Rightarrow> (client_phase \<times> load_state) option" where
  "round_trip rounds payload event phase s =
     (case (phase, event) of
        (Dialing, ClientDialed (InTime (Inr _))) \<Rightarrow> Some (CountConnected, s)
      | (Dialing, ClientDialed (InTime (Inl e))) \<Rightarrow> Some (CountFailed (ConnectError e), s)
      | (Dialing, ClientDialed Elapsed) \<Rightarrow> Some (CountFailed ConnectTimeout, s)
      | (CountFailed e, ClientProceeds) \<Rightarrow> Some (NotifyFailed e, s\<lparr>ld_failed := ld_failed s + 1\<rparr>)
      | (NotifyFailed e, ClientProceeds) \<Rightarrow> Some (ClientEnded (Inl e), s\<lparr>ld_ready := True\<rparr>)
      | (CountConnected, ClientProceeds) \<Rightarrow> Some (CountActive, s\<lparr>ld_connected := ld_connected s + 1\<rparr>)
      | (CountActive, ClientProceeds) \<Rightarrow>
          Some (RecordMax (ld_active s + 1), s\<lparr>ld_active := ld_active s + 1\<rparr>)
      | (RecordMax active, ClientProceeds) \<Rightarrow>
          Some (NotifyConnected, s\<lparr>ld_max_active := max (ld_max_active s) active\<rparr>)
      | (NotifyConnected, ClientProceeds) \<Rightarrow> Some (AwaitingStart, s\<lparr>ld_ready := True\<rparr>)
      | (AwaitingStart, ClientProceeds) \<Rightarrow>
          if ld_start s then Some (if 0 < unat rounds then SendingRound 0 else Holding, s) else None
      | (SendingRound round, ClientWrote Elapsed) \<Rightarrow> Some (Leaving (Inl WriteTimeout), s)
      | (SendingRound round, ClientWrote (InTime (Inl e))) \<Rightarrow> Some (Leaving (Inl (WriteError e)), s)
      | (SendingRound round, ClientWrote (InTime (Inr _))) \<Rightarrow> Some (ReceivingRound round, s)
      | (ReceivingRound round, ClientRead Elapsed) \<Rightarrow> Some (Leaving (Inl ReadTimeout), s)
      | (ReceivingRound round, ClientRead (InTime (Inl e))) \<Rightarrow> Some (Leaving (Inl (ReadError e)), s)
      | (ReceivingRound round, ClientRead (InTime (Inr echoed))) \<Rightarrow>
          if length echoed \<noteq> length payload then None
          else if echoed \<noteq> payload then Some (Leaving (Inl EchoMismatch), s)
          else Some (if round + 1 < unat rounds then Pausing (round + 1) else Holding, s)
      | (Pausing round, ClientSlept) \<Rightarrow> Some (SendingRound round, s)
      | (Holding, ClientSlept) \<Rightarrow> Some (Leaving (Inr ()), s)
      | (Leaving result, ClientProceeds) \<Rightarrow> Some (ClientEnded result, s\<lparr>ld_active := ld_active s - 1\<rparr>)
      | _ \<Rightarrow> None)"

section \<open>The main task\<close>

text \<open>
  The pacing sleeps between the launches change nothing and are left out. \<open>LoadFailed c\<close> has read
  \<open>connected_clients\<close> as \<open>c\<close> and is about to read \<open>failed_connections\<close>.
\<close>

datatype main_phase =
    Launching nat
  | LoadConnected | LoadFailed usize | WaitingReady
  | OpeningBarrier | StartingPayload
  | JoiningClients | Finished

record load_run =
  lr_main :: main_phase
  lr_clients :: "client_phase list"
  lr_state :: load_state
  lr_before :: usize    \<comment> \<open>\<open>connected_before_payload\<close>\<close>

definition load_start :: load_run where
  "load_start =
     \<lparr>lr_main = Launching 0, lr_clients = [],
      lr_state = \<lparr>ld_start = False, ld_active = 0, ld_max_active = 0, ld_connected = 0, ld_failed = 0,
        ld_ready = False\<rparr>, lr_before = 0\<rparr>"

fun client_ended :: "client_phase \<Rightarrow> bool" where
  "client_ended (ClientEnded r) = True"
| "client_ended _ = False"

definition main_step :: "usize \<Rightarrow> load_run \<Rightarrow> load_run option" where
  "main_step connections s =
     (case lr_main s of
        Launching index \<Rightarrow>
          if index < unat connections
          then Some (s\<lparr>lr_clients := lr_clients s @ [Dialing], lr_main := Launching (index + 1)\<rparr>)
          else Some (s\<lparr>lr_main := LoadConnected\<rparr>)
      | LoadConnected \<Rightarrow> Some (s\<lparr>lr_main := LoadFailed (ld_connected (lr_state s))\<rparr>)
      | LoadFailed connected \<Rightarrow>
          Some (s\<lparr>lr_main := (if connections \<le> connected + ld_failed (lr_state s)
                               then OpeningBarrier else WaitingReady)\<rparr>)
      | WaitingReady \<Rightarrow>
          if ld_ready (lr_state s)
          then Some (s\<lparr>lr_main := LoadConnected, lr_state := (lr_state s)\<lparr>ld_ready := False\<rparr>\<rparr>)
          else None
      | OpeningBarrier \<Rightarrow>
          Some (s\<lparr>lr_main := StartingPayload, lr_before := ld_connected (lr_state s)\<rparr>)
      | StartingPayload \<Rightarrow>
          Some (s\<lparr>lr_main := JoiningClients, lr_state := (lr_state s)\<lparr>ld_start := True\<rparr>\<rparr>)
      | JoiningClients \<Rightarrow>
          if list_all client_ended (lr_clients s) then Some (s\<lparr>lr_main := Finished\<rparr>) else None
      | Finished \<Rightarrow> None)"

inductive load_step :: "usize \<Rightarrow> usize \<Rightarrow> bytes \<Rightarrow> load_run \<Rightarrow> load_run \<Rightarrow> bool"
  for connections rounds :: usize and payload :: bytes where
  main: "main_step connections s = Some s' \<Longrightarrow> load_step connections rounds payload s s'"
| client: "k < length (lr_clients s) \<Longrightarrow>
    round_trip rounds payload event (lr_clients s ! k) (lr_state s) = Some (phase, state) \<Longrightarrow>
    load_step connections rounds payload s
      (s\<lparr>lr_clients := (lr_clients s)[k := phase], lr_state := state\<rparr>)"

text \<open>What is printed at the end: the failures, and the bytes the successful clients moved.\<close>

definition failures :: "load_run \<Rightarrow> nat" where
  "failures s = length (filter (\<lambda>c. \<exists>e. c = ClientEnded (Inl e)) (lr_clients s))"

definition total_bytes :: "load_args \<Rightarrow> nat \<Rightarrow> u64" where
  "total_bytes args failed =
     (la_connections args - of_nat failed) * la_payload_bytes args * 2 * la_rounds args"

definition load_result :: "load_args \<Rightarrow> load_run \<Rightarrow> (nat \<times> usize) + unit" where
  "load_result args s =
     (if failures s = 0 then Inr () else Inl (failures s, la_connections args))"

section \<open>Where a client is\<close>

fun dial_error :: "client_error \<Rightarrow> bool" where
  "dial_error (ConnectError e) = True"
| "dial_error ConnectTimeout = True"
| "dial_error _ = False"

fun counted_connected :: "client_phase \<Rightarrow> bool" where
  "counted_connected Dialing = False"
| "counted_connected (CountFailed e) = False"
| "counted_connected (NotifyFailed e) = False"
| "counted_connected CountConnected = False"
| "counted_connected (ClientEnded (Inl e)) = (\<not> dial_error e)"
| "counted_connected _ = True"

fun counted_failed :: "client_phase \<Rightarrow> bool" where
  "counted_failed (NotifyFailed e) = True"
| "counted_failed (ClientEnded (Inl e)) = dial_error e"
| "counted_failed _ = False"

fun notified :: "client_phase \<Rightarrow> bool" where
  "notified CountActive = False"
| "notified (RecordMax a) = False"
| "notified NotifyConnected = False"
| "notified (NotifyFailed e) = False"
| "notified c = (counted_connected c \<or> counted_failed c)"

fun client_active :: "client_phase \<Rightarrow> bool" where
  "client_active CountActive = False"
| "client_active (ClientEnded r) = False"
| "client_active c = counted_connected c"

text \<open>The payload may only be touched after the barrier.\<close>

fun past_barrier :: "client_phase \<Rightarrow> bool" where
  "past_barrier (SendingRound k) = True"
| "past_barrier (ReceivingRound k) = True"
| "past_barrier (Pausing k) = True"
| "past_barrier Holding = True"
| "past_barrier (Leaving r) = True"
| "past_barrier (ClientEnded r) = counted_connected (ClientEnded r)"
| "past_barrier _ = False"

fun error_sound :: "client_phase \<Rightarrow> bool" where
  "error_sound (CountFailed e) = dial_error e"
| "error_sound (NotifyFailed e) = dial_error e"
| "error_sound (Leaving (Inl e)) = (\<not> dial_error e)"
| "error_sound _ = True"

lemma leaving_counted [simp]:
  "error_sound (Leaving r) \<Longrightarrow> counted_connected (ClientEnded r) \<and> \<not> counted_failed (ClientEnded r)"
  by (cases r) simp_all

lemma not_both_counted: "counted_failed c \<Longrightarrow> \<not> counted_connected c"
  by (cases c rule: counted_failed.cases) simp_all

lemma notified_counted: "notified c \<Longrightarrow> counted_connected c \<or> counted_failed c"
  by (cases c rule: notified.cases) simp_all

lemma active_connected: "client_active c \<Longrightarrow> counted_connected c"
  by (cases c rule: client_active.cases) simp_all

text \<open>Everything one step of a client does to the counters and the notification.\<close>

lemma round_trip_effects:
  assumes "round_trip rounds payload event c s = Some (c', s')" "error_sound c"
  shows "ld_connected s' = ld_connected s + of_bool (counted_connected c' \<and> \<not> counted_connected c)"
    "ld_failed s' = ld_failed s + of_bool (counted_failed c' \<and> \<not> counted_failed c)"
    "ld_active s' + of_bool (client_active c) = ld_active s + of_bool (client_active c')"
    "counted_connected c \<Longrightarrow> counted_connected c'" "counted_failed c \<Longrightarrow> counted_failed c'"
    "notified c \<Longrightarrow> notified c'" "notified c' \<Longrightarrow> notified c \<or> ld_ready s'"
    "ld_ready s \<Longrightarrow> ld_ready s'" "ld_start s' = ld_start s" "error_sound c'"
    "past_barrier c' \<Longrightarrow> past_barrier c \<or> ld_start s"
    "c' = RecordMax a \<Longrightarrow> a = ld_active s' \<and> client_active c'"
    "ld_max_active s' = ld_max_active s \<or> (\<exists>a. c = RecordMax a \<and> ld_max_active s' = max (ld_max_active s) a)"
  using assms
  by (auto simp: round_trip_def split: client_phase.splits client_event.splits timed.splits sum.splits if_splits)

section \<open>The invariant\<close>

definition tally :: "(client_phase \<Rightarrow> bool) \<Rightarrow> load_run \<Rightarrow> nat" where
  "tally P s = length (filter P (lr_clients s))"

lemma tally_le: "tally P s \<le> length (lr_clients s)"
  by (simp add: tally_def)

lemma tally_mono: "(\<And>c. P c \<Longrightarrow> Q c) \<Longrightarrow> tally P s \<le> tally Q s"
  unfolding tally_def by (rule length_filter_mono)

definition client_ok :: "load_run \<Rightarrow> client_phase \<Rightarrow> bool" where
  "client_ok s c \<longleftrightarrow> error_sound c \<and> (past_barrier c \<longrightarrow> ld_start (lr_state s)) \<and>
     (\<forall>a. c = RecordMax a \<longrightarrow> unat a \<le> length (lr_clients s))"

definition counters_exact :: "load_run \<Rightarrow> bool" where
  "counters_exact s \<longleftrightarrow>
     ld_connected (lr_state s) = of_nat (tally counted_connected s) \<and>
     ld_failed (lr_state s) = of_nat (tally counted_failed s) \<and>
     ld_active (lr_state s) = of_nat (tally client_active s) \<and>
     unat (ld_max_active (lr_state s)) \<le> length (lr_clients s)"

definition all_counted :: "load_run \<Rightarrow> bool" where
  "all_counted s \<longleftrightarrow> list_all (\<lambda>c. counted_connected c \<or> counted_failed c) (lr_clients s)"

text \<open>
  What the main task knows. The clauses on \<open>ld_ready\<close> say that no wake-up is lost: as long as no
  permit is waiting, the main task has seen every client that has notified.
\<close>

definition main_ok :: "usize \<Rightarrow> load_run \<Rightarrow> bool" where
  "main_ok connections s \<longleftrightarrow>
     (case lr_main s of
        Launching k \<Rightarrow> length (lr_clients s) = k \<and> k \<le> unat connections
      | _ \<Rightarrow> length (lr_clients s) = unat connections) \<and>
     (ld_start (lr_state s) \<longleftrightarrow> lr_main s \<in> {JoiningClients, Finished}) \<and>
     (lr_main s \<in> {OpeningBarrier, StartingPayload, JoiningClients, Finished} \<longrightarrow> all_counted s) \<and>
     (lr_main s \<in> {StartingPayload, JoiningClients, Finished} \<longrightarrow>
        lr_before s = of_nat (tally counted_connected s)) \<and>
     (\<forall>c. lr_main s = LoadFailed c \<longrightarrow> unat c \<le> tally counted_connected s \<and>
        (\<not> ld_ready (lr_state s) \<longrightarrow> tally (\<lambda>c. notified c \<and> counted_connected c) s \<le> unat c)) \<and>
     (lr_main s = WaitingReady \<and> \<not> ld_ready (lr_state s) \<longrightarrow> tally notified s < unat connections) \<and>
     (lr_main s = Finished \<longrightarrow> list_all client_ended (lr_clients s))"

definition load_inv :: "usize \<Rightarrow> load_run \<Rightarrow> bool" where
  "load_inv connections s \<longleftrightarrow>
     list_all (client_ok s) (lr_clients s) \<and> counters_exact s \<and> main_ok connections s"

lemma load_start_inv: "load_inv connections load_start"
  by (simp add: load_inv_def load_start_def counters_exact_def main_ok_def tally_def)

lemma tally_small:
  "length (lr_clients s) \<le> unat (n :: usize) \<Longrightarrow> unat (of_nat (tally P s) :: usize) = tally P s"
  using tally_le [of P s] unat_bound [of n] by (intro unat_of_nat_count) simp

lemma main_ok_length: "main_ok connections s \<Longrightarrow> length (lr_clients s) \<le> unat connections"
  by (auto simp: main_ok_def split: main_phase.splits)

text \<open>The tallies of a client that moves.\<close>

lemma tally_client:
  assumes "k < length (lr_clients s)" "lr_clients s' = (lr_clients s)[k := c']"
  shows "tally P s' + of_bool (P (lr_clients s ! k)) = tally P s + of_bool (P c')"
  using length_filter_update [OF assms(1), of P c'] by (simp add: tally_def assms(2))

lemma tally_grows:
  assumes "k < length (lr_clients s)" "lr_clients s' = (lr_clients s)[k := c']"
    "P (lr_clients s ! k) \<Longrightarrow> P c'"
  shows "tally P s' = tally P s + of_bool (P c' \<and> \<not> P (lr_clients s ! k))"
  using tally_client [OF assms(1,2), of P] assms(3)
  by (cases "P (lr_clients s ! k)"; cases "P c'") simp_all

definition client_moves :: "nat \<Rightarrow> client_phase \<Rightarrow> load_state \<Rightarrow> load_run \<Rightarrow> load_run" where
  "client_moves k c st s = s\<lparr>lr_clients := (lr_clients s)[k := c], lr_state := st\<rparr>"

lemma client_moves_simps [simp]:
  "lr_clients (client_moves k c st s) = (lr_clients s)[k := c]"
  "lr_state (client_moves k c st s) = st"
  "lr_main (client_moves k c st s) = lr_main s"
  "lr_before (client_moves k c st s) = lr_before s"
  by (simp_all add: client_moves_def)

lemma clients_update:
  "list_all P xs \<Longrightarrow> P c \<Longrightarrow> list_all P (xs[k := c])"
  by (auto simp: list_all_iff dest!: set_update_subset_insert [THEN subsetD])

lemma client_ok_nth: "list_all (client_ok s) (lr_clients s) \<Longrightarrow> k < length (lr_clients s) \<Longrightarrow>
    client_ok s (lr_clients s ! k) \<and> error_sound (lr_clients s ! k)"
  by (simp add: list_all_length client_ok_def)

lemma client_step_counters:
  assumes "counters_exact s" "main_ok n s" "list_all (client_ok s) (lr_clients s)"
    and k: "k < length (lr_clients s)"
    and step: "round_trip rounds payload event (lr_clients s ! k) (lr_state s) = Some (c', st')"
  shows "counters_exact (client_moves k c' st' s) \<and> unat (ld_active st') \<le> length (lr_clients s)"
proof -
  let ?c = "lr_clients s ! k" and ?s = "client_moves k c' st' s"
  have c: "client_ok s ?c" "error_sound ?c" using client_ok_nth [OF assms(3) k] by simp_all
  note e = round_trip_effects [OF step c(2)]
  have upd: "lr_clients ?s = (lr_clients s)[k := c']" by simp
  have conn: "tally counted_connected ?s = tally counted_connected s + of_bool (counted_connected c' \<and> \<not> counted_connected ?c)"
    using tally_grows [OF k upd, of counted_connected] e(4) by blast
  have fail: "tally counted_failed ?s = tally counted_failed s + of_bool (counted_failed c' \<and> \<not> counted_failed ?c)"
    using tally_grows [OF k upd, of counted_failed] e(5) by blast
  have "ld_active st' + of_bool (client_active ?c) = of_nat (tally client_active s + of_bool (client_active c'))"
    using e(3) assms(1) by (simp add: counters_exact_def)
  also have "\<dots> = of_nat (tally client_active ?s) + of_bool (client_active ?c)"
    unfolding tally_client [OF k upd, of client_active, symmetric] by simp
  finally have act: "ld_active st' = of_nat (tally client_active ?s)" by simp
  have small: "unat (ld_active st') \<le> length (lr_clients s)"
    unfolding act using tally_small [of ?s n client_active] tally_le [of client_active ?s]
      main_ok_length [OF assms(2)] by simp
  have "unat (ld_max_active (lr_state s)) \<le> length (lr_clients s)"
    using assms(1) by (simp add: counters_exact_def)
  moreover have "unat a \<le> length (lr_clients s)" if "?c = RecordMax a" for a
    using c(1) that by (simp add: client_ok_def)
  ultimately have "unat (ld_max_active st') \<le> length (lr_clients s)"
    using e(13) by (metis max_def)
  then show ?thesis using assms(1) e(1,2) conn fail act small by (simp add: counters_exact_def)
qed

lemma client_step_clients:
  assumes "counters_exact s" "main_ok n s" "list_all (client_ok s) (lr_clients s)"
    and k: "k < length (lr_clients s)"
    and step: "round_trip rounds payload event (lr_clients s ! k) (lr_state s) = Some (c', st')"
  shows "list_all (client_ok (client_moves k c' st' s)) (lr_clients (client_moves k c' st' s))"
proof -
  let ?s = "client_moves k c' st' s"
  have c: "client_ok s (lr_clients s ! k)" "error_sound (lr_clients s ! k)"
    using client_ok_nth [OF assms(3) k] by simp_all
  note e = round_trip_effects [OF step c(2)]
  have "client_ok ?s c'"
    using e(9,10,11,12) c client_step_counters [OF assms] by (auto simp: client_ok_def)
  moreover have "client_ok ?s = client_ok s"
    using e(9) by (simp add: client_ok_def fun_eq_iff)
  ultimately show ?thesis using assms(3) by (simp add: clients_update)
qed

text \<open>A client that has been counted stays counted the same way, and one that notifies leaves a permit.\<close>

lemma client_step_tallies:
  assumes sound: "error_sound (lr_clients s ! k)" and k: "k < length (lr_clients s)"
    and step: "round_trip rounds payload event (lr_clients s ! k) (lr_state s) = Some (c', st')"
  shows "all_counted s \<Longrightarrow> all_counted (client_moves k c' st' s) \<and>
      tally counted_connected (client_moves k c' st' s) = tally counted_connected s"
    and "tally counted_connected s \<le> tally counted_connected (client_moves k c' st' s)"
    and "\<not> ld_ready st' \<Longrightarrow> tally notified (client_moves k c' st' s) = tally notified s"
    and "\<not> ld_ready st' \<Longrightarrow> tally (\<lambda>c. notified c \<and> counted_connected c) (client_moves k c' st' s)
           \<le> tally (\<lambda>c. notified c \<and> counted_connected c) s"
proof -
  let ?c = "lr_clients s ! k" and ?s = "client_moves k c' st' s"
  note e = round_trip_effects [OF step sound]
  have upd: "lr_clients ?s = (lr_clients s)[k := c']" by simp
  have conn: "tally counted_connected ?s = tally counted_connected s + of_bool (counted_connected c' \<and> \<not> counted_connected ?c)"
    using tally_grows [OF k upd, of counted_connected] e(4) by blast
  then show "tally counted_connected s \<le> tally counted_connected ?s" by simp
  show "all_counted ?s \<and> tally counted_connected ?s = tally counted_connected s" if "all_counted s"
  proof -
    have "counted_connected ?c \<or> counted_failed ?c" using that k by (simp add: all_counted_def list_all_length)
    then have "counted_connected c' \<or> counted_failed c'" "counted_connected c' \<longrightarrow> counted_connected ?c"
      using e(4,5) not_both_counted by blast+
    then show ?thesis using that conn by (simp add: all_counted_def clients_update)
  qed
  assume quiet: "\<not> ld_ready st'"
  then have same: "notified c' \<longleftrightarrow> notified ?c" using e(6,7) by blast
  then show "tally notified ?s = tally notified s" using tally_client [OF k upd, of notified] by simp
  have "counted_connected ?c" if "notified c'" "counted_connected c'"
    using that same notified_counted [of ?c] e(5) not_both_counted by blast
  then have "of_bool (notified c' \<and> counted_connected c') \<le>
      (of_bool (notified ?c \<and> counted_connected ?c) :: nat)"
    using same by auto
  with tally_client [OF k upd, of "\<lambda>c. notified c \<and> counted_connected c"]
  show "tally (\<lambda>c. notified c \<and> counted_connected c) ?s
      \<le> tally (\<lambda>c. notified c \<and> counted_connected c) s"
    by linarith
qed

lemma ended_client_stuck: "client_ended c \<Longrightarrow> round_trip rounds payload event c st = None"
  by (cases c) (simp_all add: round_trip_def)

lemma client_step_main:
  assumes main: "main_ok n s" and sound: "error_sound (lr_clients s ! k)" and k: "k < length (lr_clients s)"
    and step: "round_trip rounds payload event (lr_clients s ! k) (lr_state s) = Some (c', st')"
  shows "main_ok n (client_moves k c' st' s)"
proof -
  let ?s = "client_moves k c' st' s"
  note e = round_trip_effects [OF step sound] and t = client_step_tallies [OF sound k step]
  have ready: "\<not> ld_ready (lr_state s)" if "\<not> ld_ready st'" using e(8) that by blast
  have "\<not> list_all client_ended (lr_clients s)"
    using k step ended_client_stuck [of "lr_clients s ! k"] by (auto simp: list_all_length)
  then have "lr_main s \<noteq> Finished" using main by (auto simp: main_ok_def)
  moreover have "lr_main s = LoadFailed c \<Longrightarrow> unat c \<le> tally counted_connected ?s" for c
    using main t(2) by (force simp: main_ok_def)
  moreover have "lr_main s = LoadFailed c \<Longrightarrow> \<not> ld_ready st' \<Longrightarrow>
      tally (\<lambda>c. notified c \<and> counted_connected c) ?s \<le> unat c" for c
    using main t(4) ready by (force simp: main_ok_def)
  moreover have "lr_main s = WaitingReady \<Longrightarrow> \<not> ld_ready st' \<Longrightarrow> tally notified ?s < unat n"
    using main t(3) ready by (simp add: main_ok_def)
  moreover have "lr_main s \<in> {StartingPayload, JoiningClients, Finished} \<Longrightarrow>
      lr_before s = of_nat (tally counted_connected ?s)"
    using main t(1) by (auto simp: main_ok_def)
  moreover have "lr_main s \<in> {OpeningBarrier, StartingPayload, JoiningClients, Finished} \<Longrightarrow> all_counted ?s"
    using main t(1) by (auto simp: main_ok_def)
  ultimately show ?thesis using main e(9) by (simp add: main_ok_def cong: main_phase.case_cong)
qed

lemma client_step_inv:
  assumes "load_inv n s" "k < length (lr_clients s)"
    "round_trip rounds payload event (lr_clients s ! k) (lr_state s) = Some (c', st')"
  shows "load_inv n (client_moves k c' st' s)"
  using assms client_step_counters [OF _ _ _ assms(2,3)] client_step_clients [OF _ _ _ assms(2,3)]
    client_step_main [OF _ _ assms(2,3)] client_ok_nth [OF _ assms(2)]
  unfolding load_inv_def by blast

lemma exclusive_filters:
  "(\<And>c. P c \<Longrightarrow> \<not> Q c) \<Longrightarrow>
     length (filter P xs) + length (filter Q xs) = length (filter (\<lambda>c. P c \<or> Q c) xs)"
  by (induction xs) auto

lemma filter_everything: "length xs \<le> length (filter P xs) \<longleftrightarrow> list_all P xs"
proof (induction xs)
  case (Cons x xs)
  have "length (filter P xs) < Suc (length xs)" by (simp only: less_Suc_eq_le length_filter_le)
  then show ?case using Cons by (cases "P x") (simp_all add: not_le)
qed simp

lemma all_counted_tally:
  "all_counted s \<longleftrightarrow> length (lr_clients s) \<le> tally counted_connected s + tally counted_failed s"
  unfolding tally_def all_counted_def filter_everything [symmetric]
  by (subst exclusive_filters) (use not_both_counted in auto)

lemma notified_tally:
  "tally notified s \<le> tally (\<lambda>c. notified c \<and> counted_connected c) s + tally counted_failed s"
proof -
  have "tally notified s \<le> tally (\<lambda>c. notified c \<and> counted_connected c \<or> counted_failed c) s"
    by (rule tally_mono) (use notified_counted in blast)
  also have "\<dots> = tally (\<lambda>c. notified c \<and> counted_connected c) s + tally counted_failed s"
    unfolding tally_def by (rule exclusive_filters [symmetric]) (use not_both_counted in blast)
  finally show ?thesis .
qed

lemma main_step_effects:
  assumes "main_step n s = Some s'"
  shows "lr_clients s' = lr_clients s \<or> lr_clients s' = lr_clients s @ [Dialing]"
    "ld_connected (lr_state s') = ld_connected (lr_state s)"
    "ld_failed (lr_state s') = ld_failed (lr_state s)"
    "ld_active (lr_state s') = ld_active (lr_state s)"
    "ld_max_active (lr_state s') = ld_max_active (lr_state s)"
    "ld_start (lr_state s) \<Longrightarrow> ld_start (lr_state s')"
  using assms by (auto simp: main_step_def split: main_phase.splits if_splits)

lemma main_step_tally:
  assumes "main_step n s = Some s'" "\<not> P Dialing"
  shows "tally P s' = tally P s"
  using main_step_effects(1) [OF assms(1)] assms(2) by (auto simp: tally_def)

lemma main_step_counters:
  assumes "counters_exact s" "main_step n s = Some s'"
  shows "counters_exact s'"
  using assms(1) main_step_effects [OF assms(2)] main_step_tally [OF assms(2)]
  by (auto simp: counters_exact_def)

lemma main_step_clients:
  assumes "list_all (client_ok s) (lr_clients s)" "main_step n s = Some s'"
  shows "list_all (client_ok s') (lr_clients s')"
proof -
  note e = main_step_effects [OF assms(2)]
  have "client_ok s' c" if "client_ok s c" for c
    using that e(1,6) by (auto simp: client_ok_def)
  moreover have "client_ok s' Dialing" by (simp add: client_ok_def)
  ultimately show ?thesis using assms(1) e(1) by (auto simp: list_all_iff)
qed

text \<open>The sum the main task compares with the number of clients does not wrap.\<close>

lemma enough_counted:
  assumes "counters_exact s" "length (lr_clients s) = unat (n :: usize)" "unat c \<le> tally counted_connected s"
  shows "n \<le> c + ld_failed (lr_state s) \<longleftrightarrow> unat n \<le> unat c + tally counted_failed s"
proof -
  have "tally counted_connected s + tally counted_failed s \<le> length (lr_clients s)"
    unfolding tally_def by (subst exclusive_filters) (use not_both_counted in auto)
  then have "unat (ld_failed (lr_state s)) = tally counted_failed s"
    "unat (c + ld_failed (lr_state s)) = unat c + unat (ld_failed (lr_state s))"
    using assms tally_small [of s n counted_failed] unat_bound [of n]
    by (simp_all add: counters_exact_def unat_word_ariths)
  then show ?thesis by (simp add: word_le_nat_alt)
qed

lemma main_step_main:
  assumes main: "main_ok n s" and exact: "counters_exact s" and step: "main_step n s = Some s'"
  shows "main_ok n s'"
proof (cases "lr_main s")
  case LoadConnected
  have "tally (\<lambda>c. notified c \<and> counted_connected c) s \<le> tally counted_connected s"
    by (rule tally_mono) simp
  then show ?thesis using main step LoadConnected exact main_ok_length [OF main] tally_small [of s n counted_connected]
    by (auto simp: main_ok_def main_step_def tally_def counters_exact_def)
next
  case (LoadFailed c)
  then have c: "unat c \<le> tally counted_connected s" "length (lr_clients s) = unat n"
    using main by (simp_all add: main_ok_def)
  note enough = enough_counted [OF exact c(2,1)]
  show ?thesis
  proof (cases "n \<le> c + ld_failed (lr_state s)")
    case True
    then have "all_counted s" using enough c by (simp add: all_counted_tally)
    then show ?thesis using main step True LoadFailed
      by (auto simp: main_ok_def main_step_def all_counted_def tally_def)
  next
    case False
    then have "\<not> ld_ready (lr_state s) \<Longrightarrow> tally notified s < unat n"
      using enough notified_tally [of s] main LoadFailed by (fastforce simp: main_ok_def)
    then show ?thesis using main step False LoadFailed
      by (auto simp: main_ok_def main_step_def tally_def)
  qed
next
  case OpeningBarrier
  then show ?thesis using main step exact
    by (auto simp: main_ok_def main_step_def tally_def all_counted_def counters_exact_def)
qed (use main step in \<open>auto simp: main_ok_def main_step_def tally_def all_counted_def split: if_splits\<close>)

lemma load_step_inv:
  assumes "load_inv n s" "load_step n rounds payload s s'"
  shows "load_inv n s'"
  using assms(2,1)
proof cases
  case main
  then show ?thesis using assms(1) main_step_counters main_step_clients main_step_main
    unfolding load_inv_def by blast
next
  case (client k event phase state)
  then show ?thesis using client_step_inv [OF assms(1)] unfolding client_moves_def by blast
qed

interpretation loading: invariant_of "load_step connections rounds payload" load_start "load_inv connections"
  for connections rounds payload
  by unfold_locales (rule load_start_inv, rule load_step_inv)

section \<open>Every run ends\<close>

text \<open>
  A bound on the steps that are left: a client lowers it with every step, the main task with every
  step but the ones a notification pays for.
\<close>

fun client_fuel :: "nat \<Rightarrow> client_phase \<Rightarrow> nat" where
  "client_fuel r Dialing = 3 * r + 11"
| "client_fuel r CountConnected = 3 * r + 10"
| "client_fuel r CountActive = 3 * r + 9"
| "client_fuel r (RecordMax a) = 3 * r + 8"
| "client_fuel r NotifyConnected = 3 * r + 7"
| "client_fuel r AwaitingStart = 3 * r + 6"
| "client_fuel r (SendingRound k) = 3 * (r - k) + 5"
| "client_fuel r (ReceivingRound k) = 3 * (r - k) + 4"
| "client_fuel r (Pausing k) = 3 * (r - k) + 6"
| "client_fuel r Holding = 3"
| "client_fuel r (CountFailed e) = 2"
| "client_fuel r (NotifyFailed e) = 1"
| "client_fuel r (Leaving x) = 1"
| "client_fuel r (ClientEnded x) = 0"

fun main_fuel :: "nat \<Rightarrow> nat \<Rightarrow> main_phase \<Rightarrow> nat" where
  "main_fuel n r (Launching k) = (n - k) * (10 * (3 * r + 11) + 1) + 7"
| "main_fuel n r LoadConnected = 6"
| "main_fuel n r (LoadFailed c) = 5"
| "main_fuel n r WaitingReady = 4"
| "main_fuel n r OpeningBarrier = 3"
| "main_fuel n r StartingPayload = 2"
| "main_fuel n r JoiningClients = 1"
| "main_fuel n r Finished = 0"

definition load_fuel :: "nat \<Rightarrow> nat \<Rightarrow> load_run \<Rightarrow> nat" where
  "load_fuel n r s =
     main_fuel n r (lr_main s) + 4 * of_bool (ld_ready (lr_state s)) +
     10 * sum_list (map (client_fuel r) (lr_clients s))"

lemma round_trip_fuel:
  "round_trip rounds payload event c s = Some (c', s') \<Longrightarrow>
     client_fuel (unat rounds) c' < client_fuel (unat rounds) c"
  by (auto simp: round_trip_def split: client_phase.splits client_event.splits timed.splits sum.splits if_splits)

lemma main_step_fuel:
  assumes "main_step n s = Some s'"
  shows "load_fuel (unat n) r s' < load_fuel (unat n) r s"
proof (cases "lr_main s")
  case (Launching k)
  show ?thesis
  proof (cases "k < unat n")
    case True
    then have "unat n - k = Suc (unat n - Suc k)" by simp
    then show ?thesis using assms Launching True by (auto simp: load_fuel_def main_step_def)
  qed (use assms Launching in \<open>auto simp: load_fuel_def main_step_def\<close>)
qed (use assms in \<open>auto simp: load_fuel_def main_step_def split: if_splits\<close>)

lemma load_step_fuel:
  assumes "load_step n rounds payload s s'"
  shows "load_fuel (unat n) (unat rounds) s' < load_fuel (unat n) (unat rounds) s"
  using assms
proof cases
  case main
  then show ?thesis by (rule main_step_fuel)
next
  case (client k event c st)
  have "sum_list (map (client_fuel (unat rounds)) ((lr_clients s)[k := c])) <
      sum_list (map (client_fuel (unat rounds)) (lr_clients s))"
    using sum_list_map_update [OF client(2), of "client_fuel (unat rounds)" c] round_trip_fuel [OF client(3)]
    by simp
  then show ?thesis by (simp add: client(1) load_fuel_def)
qed

lemma load_run_bound:
  "(load_step n rounds payload ^^ k) s s' \<Longrightarrow>
     k + load_fuel (unat n) (unat rounds) s' \<le> load_fuel (unat n) (unat rounds) s"
proof (induction k arbitrary: s')
  case (Suc k)
  then obtain t where "(load_step n rounds payload ^^ k) s t" "load_step n rounds payload t s'" by auto
  then show ?case using Suc.IH load_step_fuel by fastforce
qed simp


text \<open>No task waits for ever: a client that is not at its end can move once the barrier is open.\<close>

lemma client_can_move:
  assumes "\<not> client_ended c" "c = AwaitingStart \<longrightarrow> ld_start st"
  shows "\<exists>event c' st'. round_trip rounds payload event c st = Some (c', st')"
proof -
  have "\<exists>event\<in>{ClientDialed Elapsed, ClientWrote Elapsed, ClientRead Elapsed, ClientSlept, ClientProceeds}.
      round_trip rounds payload event c st \<noteq> None"
    using assms by (cases c) (simp_all add: round_trip_def)
  then show ?thesis by fast
qed

lemma client_step_possible:
  assumes "c \<in> set (lr_clients s)" "\<not> client_ended c" "c = AwaitingStart \<longrightarrow> ld_start (lr_state s)"
  shows "\<exists>s'. load_step n rounds payload s s'"
proof -
  obtain k where "k < length (lr_clients s)" "lr_clients s ! k = c" using assms(1) by (auto simp: in_set_conv_nth)
  then show ?thesis using client_can_move [OF assms(2,3)] load_step.client by metis
qed

lemma ended_notified: "client_ended c \<Longrightarrow> notified c"
proof (cases c)
  case (ClientEnded r)
  then show ?thesis by (cases r) simp_all
qed simp_all

lemma load_step_possible:
  assumes "load_inv n s" "lr_main s \<noteq> Finished"
  shows "\<exists>s'. load_step n rounds payload s s'"
proof (cases "main_step n s")
  case None
  have main: "main_ok n s" using assms(1) by (simp add: load_inv_def)
  consider "lr_main s = WaitingReady" "\<not> ld_ready (lr_state s)"
    | "lr_main s = JoiningClients" "\<not> list_all client_ended (lr_clients s)"
    using None assms(2) by (auto simp: main_step_def split: main_phase.splits if_splits)
  then show ?thesis
  proof cases
    case 1
    then have "length (filter notified (lr_clients s)) < length (lr_clients s)"
      using main by (simp add: main_ok_def tally_def)
    then obtain c where "c \<in> set (lr_clients s)" "\<not> notified c"
      by (metis filter_True less_irrefl)
    moreover have "client_ok s c" using assms(1) calculation(1) by (simp add: load_inv_def list_all_iff)
    ultimately show ?thesis using client_step_possible [of c s] ended_notified [of c] by fastforce
  next
    case 2
    then have "ld_start (lr_state s)" using main by (simp add: main_ok_def)
    then show ?thesis using 2 client_step_possible by (auto simp: list_all_iff)
  qed
qed (use load_step.main in blast)


section \<open>Properties\<close>

lemma ended_split:
  "list_all client_ended xs \<Longrightarrow>
     length (filter (\<lambda>c. c = ClientEnded (Inr ())) xs) + length (filter (\<lambda>c. \<exists>e. c = ClientEnded (Inl e)) xs)
       = length xs"
proof (induction xs)
  case (Cons c xs)
  then obtain r where "c = ClientEnded r" by (cases c) simp_all
  then show ?case using Cons by (cases r) auto
qed simp

text \<open>
  C28. The load generator's start barrier. In every state its tasks can reach: no client touches the
  payload, and the barrier is not open, before each of the requested clients has been counted as
  connected or as failed, and the number printed for \<open>connected_clients_before_payload\<close> is the number
  that connected; \<open>max_active_clients\<close> never exceeds the requested connections; no wake-up is lost,
  so some task can move until the program has finished; a run has at most
  \<open>connections * (30 * rounds + 111) + 7\<close> steps; and once it has finished, the
  \<open>successful_connections\<close> it prints are the clients that ended without an error.
\<close>

theorem load_barrier:
  assumes "(load_step connections rounds payload ^^ k) load_start s"
  shows "(ld_start (lr_state s) \<or> (\<exists>c\<in>set (lr_clients s). past_barrier c) \<longrightarrow>
      length (lr_clients s) = unat connections \<and>
      (\<forall>c\<in>set (lr_clients s). counted_connected c \<or> counted_failed c) \<and>
      unat (lr_before s) = length (filter counted_connected (lr_clients s))) \<and>
    ld_max_active (lr_state s) \<le> connections \<and>
    (lr_main s \<noteq> Finished \<longrightarrow> (\<exists>s'. load_step connections rounds payload s s')) \<and>
    k \<le> unat connections * (30 * unat rounds + 111) + 7 \<and>
    (lr_main s = Finished \<longrightarrow>
      unat (connections - of_nat (failures s)) =
        length (filter (\<lambda>c. c = ClientEnded (Inr ())) (lr_clients s)))"
proof -
  have inv: "load_inv connections s"
    using loading.holds [of connections rounds payload s] assms by (meson relpowp_imp_rtranclp)
  then have main: "main_ok connections s" and exact: "counters_exact s"
    and oks: "list_all (client_ok s) (lr_clients s)" by (simp_all add: load_inv_def)
  have "length (lr_clients s) = unat connections \<and>
      (\<forall>c\<in>set (lr_clients s). counted_connected c \<or> counted_failed c) \<and>
      unat (lr_before s) = length (filter counted_connected (lr_clients s))"
    if "ld_start (lr_state s) \<or> (\<exists>c\<in>set (lr_clients s). past_barrier c)"
  proof -
    have "ld_start (lr_state s)" using that oks by (auto simp: list_all_iff client_ok_def)
    then have joined: "lr_main s \<in> {JoiningClients, Finished}" using main by (simp add: main_ok_def)
    then have "length (lr_clients s) = unat connections" "all_counted s"
      "lr_before s = of_nat (tally counted_connected s)"
      using main by (auto simp: main_ok_def)
    then show ?thesis using tally_small [of s connections counted_connected]
      by (auto simp: all_counted_def list_all_iff tally_def)
  qed
  moreover have "ld_max_active (lr_state s) \<le> connections"
    using exact main_ok_length [OF main] by (simp add: counters_exact_def word_le_nat_alt)
  moreover have "\<exists>s'. load_step connections rounds payload s s'" if "lr_main s \<noteq> Finished"
    using load_step_possible [OF inv that] .
  moreover have "k \<le> unat connections * (30 * unat rounds + 111) + 7"
    using load_run_bound [OF assms] by (simp add: load_fuel_def load_start_def algebra_simps)
  moreover have "unat (connections - of_nat (failures s)) =
      length (filter (\<lambda>c. c = ClientEnded (Inr ())) (lr_clients s))" if "lr_main s = Finished"
  proof -
    have "length (filter (\<lambda>c. c = ClientEnded (Inr ())) (lr_clients s)) + failures s = unat connections"
      using that main ended_split [of "lr_clients s"] by (simp add: main_ok_def failures_def)
    moreover have "unat (of_nat (failures s) :: usize) = failures s"
      using calculation unat_bound [of connections] by (intro unat_of_nat_count) simp
    ultimately show ?thesis by (simp add: unat_sub word_le_nat_alt)
  qed
  ultimately show ?thesis by blast
qed

text \<open>Two clients, of which the second cannot connect.\<close>

datatype load_move = MainTurn | ClientTurn nat client_event

fun load_exec :: "usize \<Rightarrow> usize \<Rightarrow> bytes \<Rightarrow> load_move list \<Rightarrow> load_run \<Rightarrow> load_run option" where
  "load_exec n rounds payload [] s = Some s"
| "load_exec n rounds payload (MainTurn # moves) s =
     Option.bind (main_step n s) (load_exec n rounds payload moves)"
| "load_exec n rounds payload (ClientTurn k event # moves) s =
     (if k < length (lr_clients s)
      then case round_trip rounds payload event (lr_clients s ! k) (lr_state s) of
             None \<Rightarrow> None
           | Some (c, st) \<Rightarrow> load_exec n rounds payload moves (client_moves k c st s)
      else None)"

lemma load_exec_steps:
  "load_exec n rounds payload moves s = Some s' \<Longrightarrow>
     (load_step n rounds payload ^^ length moves) s s'"
proof (induction moves arbitrary: s)
  case (Cons move moves)
  obtain t where "load_step n rounds payload s t" "load_exec n rounds payload moves t = Some s'"
    using Cons.prems
    by (cases move) (auto simp: client_moves_def bind_eq_Some_conv split: if_splits option.splits
        intro: load_step.intros)
  then show ?case using Cons.IH relpowp_Suc_I2 unfolding length_Cons by fast
qed simp

definition example_moves :: "load_move list" where
  "example_moves =
     [MainTurn, ClientTurn 0 (ClientDialed (InTime (Inr ()))), MainTurn, MainTurn, MainTurn,
      ClientTurn 0 ClientProceeds, ClientTurn 0 ClientProceeds, ClientTurn 0 ClientProceeds,
      MainTurn, ClientTurn 0 ClientProceeds, MainTurn, MainTurn, MainTurn,
      ClientTurn 1 (ClientDialed Elapsed), ClientTurn 1 ClientProceeds, ClientTurn 1 ClientProceeds,
      MainTurn, MainTurn, MainTurn, MainTurn, MainTurn,
      ClientTurn 0 ClientProceeds, ClientTurn 0 (ClientWrote (InTime (Inr ()))),
      ClientTurn 0 (ClientRead (InTime (Inr [0x5a]))), ClientTurn 0 ClientSlept,
      ClientTurn 0 ClientProceeds, MainTurn]"

definition example_load :: load_run where
  "example_load =
     \<lparr>lr_main = Finished, lr_clients = [ClientEnded (Inr ()), ClientEnded (Inl ConnectTimeout)],
      lr_state = \<lparr>ld_start = True, ld_active = 0, ld_max_active = 1, ld_connected = 1, ld_failed = 1,
        ld_ready = False\<rparr>, lr_before = 1\<rparr>"

lemma example_load_run: "load_exec 2 1 [0x5a] example_moves load_start = Some example_load"
  by code_simp

lemma load_barrier_witness:
  "lr_main example_load = Finished \<and> 27 \<le> unat (2 :: usize) * (30 * unat (1 :: usize) + 111) + 7 \<and>
   unat (lr_before example_load) = length (filter counted_connected (lr_clients example_load)) \<and>
   unat (2 - of_nat (failures example_load) :: usize) =
     length (filter (\<lambda>c. c = ClientEnded (Inr ())) (lr_clients example_load))"
proof -
  have "length example_moves = 27" by (simp add: example_moves_def)
  then have run: "(load_step 2 1 [0x5a] ^^ 27) load_start example_load"
    using load_exec_steps [OF example_load_run] by metis
  have "ld_start (lr_state example_load)" "lr_main example_load = Finished" by (simp_all add: example_load_def)
  then show ?thesis using load_barrier [OF run] by blast
qed

end
