(* ===== verification/Echo_Target.thy ===== *)
theory Echo_Target
  imports Relay_Forward Server_Bind
begin

text \<open>
  The echo target of the load tests (\<open>src/examples/echo_target.rs\<close>, and its twin in
  \<open>src/examples/load.rs\<close>, lines 241 to 323): the echo loop of one connection as an interpretation
  of the contract \<open>forwarder\<close>, the acceptor of one listener, and what a client sees when the
  relay stands between it and the target.
\<close>

section \<open>The echo loop\<close>

definition BUFFER_SIZE :: nat where
  "BUFFER_SIZE = 16 * 1024"

datatype echo_phase = EchoReading | EchoDelaying bytes | EchoWriting bytes | EchoReturned

datatype echo_event = EchoRead "io_error + bytes" | EchoSlept | EchoWrite nat "io_error option"

record echo_state =
  eo_phase :: echo_phase
  eo_received :: bytes
  eo_replied :: bytes
  eo_writes :: nat

definition echo_start :: echo_state where
  "echo_start = \<lparr>eo_phase = EchoReading, eo_received = [], eo_replied = [], eo_writes = 0\<rparr>"

definition echo :: "nat \<Rightarrow> duration \<Rightarrow> echo_event \<Rightarrow> echo_state \<Rightarrow> echo_state option" where
  "echo buffer_size response_delay event s =
     (case (eo_phase s, event) of
        (EchoReading, EchoRead (Inl e)) \<Rightarrow> Some (s\<lparr>eo_phase := EchoReturned\<rparr>)
      | (EchoReading, EchoRead (Inr bs)) \<Rightarrow>
          if buffer_size < length bs then None
          else if bs = [] then Some (s\<lparr>eo_phase := EchoReturned\<rparr>)
          else Some (s\<lparr>eo_phase := (if is_zero response_delay then EchoWriting bs else EchoDelaying bs),
                       eo_received := eo_received s @ bs\<rparr>)
      | (EchoDelaying bs, EchoSlept) \<Rightarrow> Some (s\<lparr>eo_phase := EchoWriting bs\<rparr>)
      | (EchoWriting bs, EchoWrite k None) \<Rightarrow>
          if k \<noteq> length bs then None
          else Some (s\<lparr>eo_phase := EchoReading, eo_replied := eo_replied s @ bs, eo_writes := eo_writes s + 1\<rparr>)
      | (EchoWriting bs, EchoWrite k (Some e)) \<Rightarrow>
          if length bs < k then None
          else Some (s\<lparr>eo_phase := EchoReturned, eo_replied := eo_replied s @ take k bs\<rparr>)
      | _ \<Rightarrow> None)"

section \<open>Listening and accepting\<close>

text \<open>\<open>bind_listener\<close> of the target: no name look-up and no \<open>SO_REUSEPORT\<close>.\<close>

definition target_bind_listener :: "('a sock_call \<Rightarrow> io_error option) \<Rightarrow> 'a \<Rightarrow> io_error + 'a" where
  "target_bind_listener fails address =
     (case first_failure fails
             [NewSocket address, ReuseAddress, BindTo address, Listen 65535, Nonblocking, Register] of
        None \<Rightarrow> Inr address
      | Some e \<Rightarrow> Inl e)"

text \<open>
  One listener's task: a shutdown or a failing \<open>accept\<close> ends it and aborts its clients, whatever
  they were doing.
\<close>

record acceptor =
  ac_running :: bool
  ac_clients :: "echo_state list"

datatype acceptor_event = AcceptClient bool | TargetShutdown | ClientMoves nat echo_event

definition acceptor_step :: "nat \<Rightarrow> duration \<Rightarrow> acceptor_event \<Rightarrow> acceptor \<Rightarrow> acceptor option" where
  "acceptor_step buffer_size response_delay event s =
     (if \<not> ac_running s then None
      else case event of
        TargetShutdown \<Rightarrow> Some \<lparr>ac_running = False, ac_clients = []\<rparr>
      | AcceptClient ok \<Rightarrow>
          if ok then Some (s\<lparr>ac_clients := ac_clients s @ [echo_start]\<rparr>)
          else Some \<lparr>ac_running = False, ac_clients = []\<rparr>
      | ClientMoves k ev \<Rightarrow>
          if k < length (ac_clients s) then
            map_option (\<lambda>c. s\<lparr>ac_clients := (ac_clients s)[k := c]\<rparr>)
              (echo buffer_size response_delay ev (ac_clients s ! k))
          else None)"

section \<open>The echo loop meets the contract of a forwarder\<close>

definition echo_in_flight :: "echo_state \<Rightarrow> bytes" where
  "echo_in_flight s = (case eo_phase s of EchoDelaying bs \<Rightarrow> bs | EchoWriting bs \<Rightarrow> bs | _ \<Rightarrow> [])"

definition echo_meets :: "echo_state \<Rightarrow> bool" where
  "echo_meets s \<longleftrightarrow>
     (case eo_phase s of
        EchoReading \<Rightarrow> eo_received s = eo_replied s
      | EchoDelaying bs \<Rightarrow> bs \<noteq> [] \<and> eo_received s = eo_replied s @ bs
      | EchoWriting bs \<Rightarrow> bs \<noteq> [] \<and> eo_received s = eo_replied s @ bs
      | EchoReturned \<Rightarrow> prefix (eo_replied s) (eo_received s))"

lemma echo_cases [consumes 1, case_names ends reads sleeps writes fails]:
  assumes "echo n delay ev s = Some s'"
  obtains (ends) "eo_phase s = EchoReading" "s' = s\<lparr>eo_phase := EchoReturned\<rparr>"
    | (reads) bs ph where "eo_phase s = EchoReading" "bs \<noteq> []" "ph \<in> {EchoWriting bs, EchoDelaying bs}"
        "s' = s\<lparr>eo_phase := ph, eo_received := eo_received s @ bs\<rparr>"
    | (sleeps) bs where "eo_phase s = EchoDelaying bs" "s' = s\<lparr>eo_phase := EchoWriting bs\<rparr>"
    | (writes) bs where "eo_phase s = EchoWriting bs"
        "s' = s\<lparr>eo_phase := EchoReading, eo_replied := eo_replied s @ bs, eo_writes := eo_writes s + 1\<rparr>"
    | (fails) bs k where "eo_phase s = EchoWriting bs"
        "s' = s\<lparr>eo_phase := EchoReturned, eo_replied := eo_replied s @ take k bs\<rparr>"
  using assms
  by (auto simp: echo_def not_less
      split: echo_phase.splits echo_event.splits sum.splits option.splits if_splits)

lemma echo_step_meets:
  assumes "echo_meets s" "echo n delay ev s = Some s'"
  shows "echo_meets s'"
  using assms(2)
proof (cases rule: echo_cases)
  case (fails bs k)
  then show ?thesis using assms(1) by (auto simp: echo_meets_def intro: take_is_prefix)
qed (use assms(1) in \<open>auto simp: echo_meets_def\<close>)

text \<open>The loop has no result and never half-closes.\<close>

interpretation echoing: forwarder "echo n delay" echo_start echo_meets eo_received eo_replied
  echo_in_flight "\<lambda>_. None" "\<lambda>_. False" eo_writes for n delay
proof
  show "echo_meets echo_start" by (simp add: echo_meets_def echo_start_def)
  show "eo_received echo_start = []" "eo_writes echo_start = 0" by (simp_all add: echo_start_def)
  fix s s' ev
  show "echo_meets s \<Longrightarrow> echo n delay ev s = Some s' \<Longrightarrow> echo_meets s'"
    by (rule echo_step_meets)
  show "echo n delay ev s = Some s' \<Longrightarrow> prefix (eo_received s) (eo_received s')"
    "echo n delay ev s = Some s' \<Longrightarrow> prefix (eo_replied s) (eo_replied s')"
    by (erule echo_cases; simp)+
  show "eo_writes s' = eo_writes s \<or> eo_writes s' = Suc (eo_writes s) \<and> eo_replied s' \<noteq> eo_replied s"
    if "echo_meets s" "echo n delay ev s = Some s'"
    using that(2,1) by (cases rule: echo_cases) (auto simp: echo_meets_def)
  show "echo_meets s \<Longrightarrow> prefix (eo_replied s @ echo_in_flight s) (eo_received s)"
    by (auto simp: echo_meets_def echo_in_flight_def split: echo_phase.splits)
qed simp_all

section \<open>Through the relay and back\<close>

text \<open>
  TCP between two programs: what one has read is a prefix of what the other has written. The
  client writes \<open>sent\<close> and has read \<open>got\<close>; the relay forwards with \<open>w\<close>, the target echoes with
  \<open>e\<close>.
\<close>

definition echo_path :: "bytes \<Rightarrow> forwarding \<Rightarrow> echo_state \<Rightarrow> bytes \<Rightarrow> bool" where
  "echo_path sent w e got \<longleftrightarrow>
     prefix (fst (fw_sent w)) sent \<and> prefix (eo_received e) (fst (fw_arrived w)) \<and>
     prefix (snd (fw_sent w)) (eo_replied e) \<and> prefix got (snd (fw_arrived w))"

lemma echo_path_prefix:
  assumes "forward ops describe pf mode idle setup sevs cevs pool = Some (w, pool')"
    "run_events (echo n delay) evs echo_start = Some e" "echo_path sent w e got"
  shows "prefix got sent"
proof -
  have "faithful w" by (rule forward_faithful [OF assms(1)])
  then have "prefix (fst (fw_arrived w)) (fst (fw_sent w))" "prefix (snd (fw_arrived w)) (snd (fw_sent w))"
    by (simp_all add: faithful_def)
  moreover have "prefix (eo_replied e) (eo_received e)" by (rule echoing.transparent [OF assms(2)])
  ultimately show ?thesis
    using assms(3) unfolding echo_path_def by (meson prefix_order.trans)
qed

section \<open>Properties\<close>

text \<open>
  C16. End to end: a client that talks to an echo target through the relay gets back, at every moment
  and with either backend, a prefix of what it sent, never a byte more, lost, changed or out of
  order; as soon as it has got as many bytes as it sent they are the same bytes, so the
  comparison of the load tests can only fail on a fault outside these programs.
\<close>

theorem echo_through_relay:
  assumes "forward ops describe pf mode idle setup sevs cevs pool = Some (w, pool')"
    "run_events (echo n delay) evs echo_start = Some e" "echo_path sent w e got"
  shows "prefix got sent \<and> (length got = length sent \<longrightarrow> got = sent)"
  using echo_path_prefix [OF assms] by (auto simp: prefix_def)

lemma echo_through_relay_witness:
  "\<exists>w e pool'. forward counting_ops (\<lambda>_. []) Linux Auto None [] []
      [Up (ReadEnds (Inr [1, 2])), Up (WriteEnds 2 None), Down (ReadEnds (Inr [1, 2])), Down (WriteEnds 2 None)]
      example_pool = Some (w, pool') \<and>
     run_events (echo BUFFER_SIZE (from_secs 0)) [EchoRead (Inr [1, 2]), EchoWrite 2 None] echo_start = Some e \<and>
     echo_path [1, 2] w e [1, 2] \<and> prefix [1, 2] [1, 2 :: u8]"
proof -
  obtain w pool' where w: "forward counting_ops (\<lambda>_. []) Linux Auto None [] []
      [Up (ReadEnds (Inr [1, 2])), Up (WriteEnds 2 None), Down (ReadEnds (Inr [1, 2])), Down (WriteEnds 2 None)]
      example_pool = Some (w, pool')"
    "fw_sent w = ([1, 2], [1, 2])" "fw_arrived w = ([1, 2], [1, 2])"
    by (simp add: forward_def forward_with_mode_def forward_with_buffer_pool_def acquire_pair_def
        pop_or_new_def example_pool_def counting_ops_def transfer_step_def
        copy_direction_def copy_start_def transfer_start_def notify_def try_join_def copy_outcome_def
        Let_def)
  obtain e where e: "run_events (echo BUFFER_SIZE (from_secs 0)) [EchoRead (Inr [1, 2]), EchoWrite 2 None] echo_start = Some e"
    "eo_received e = [1, 2]" "eo_replied e = [1, 2]"
    by (simp add: echo_def echo_start_def BUFFER_SIZE_def from_secs_def is_zero_def)
  have "echo_path [1, 2] w e [1, 2]" using w e by (simp add: echo_path_def)
  with echo_through_relay [OF w(1) e(1) this] w(1) e(1) show ?thesis by blast
qed

end
