(* ===== verification/Load_Bench.thy ===== *)
theory Load_Bench
  imports Load_Client Echo_Target
begin

text \<open>
  The in-process load test (\<open>src/examples/load.rs\<close>): its arguments, the settings of the relay it
  runs, and how it stops the relay and the target. Its clients and its start barrier are those of
  \<open>Load_Client\<close> with one round and no pauses, its target is the one of \<open>Echo_Target\<close> with a
  buffer of \<open>PAYLOAD_SIZE\<close> bytes and no delay. The lemmas show that the relay accepts the settings
  and that every shard forwards to the target of its own number.
\<close>

definition PAYLOAD_SIZE :: usize where
  "PAYLOAD_SIZE = 4 * 1024"

definition RELAY_SHARDS :: nat where
  "RELAY_SHARDS = 32"

definition LOOPBACK_SHARD_START :: u8 where
  "LOOPBACK_SHARD_START = 2"

section \<open>Arguments\<close>

datatype bench_error =
    CountUnparsable int_error_kind
  | ModeUnparsable config_error
  | BenchUsage
  | CountZero
  | TargetShards nat
  | RelayShards nat
  | BadEndpoint config_error

definition bench_args :: "rstr list \<Rightarrow> bench_error + usize \<times> forward_mode" where
  "bench_args arguments =
     and_then (map_err CountUnparsable
         (parse_usize (case arguments of [] \<Rightarrow> lit ''1000'' | a # _ \<Rightarrow> a))) (\<lambda>connections.
     and_then (map_err ModeUnparsable
         (case drop 1 arguments of [] \<Rightarrow> Inr default_forward_mode | a # _ \<Rightarrow> forward_mode_from_str a)) (\<lambda>mode.
       if drop 2 arguments \<noteq> [] then Inl BenchUsage
       else if connections = 0 then Inl CountZero
       else Inr (connections, mode)))"

section \<open>The settings of the relay\<close>

text \<open>The text of \<open>127.0.0.b:port\<close>, and the loopback host of shard \<open>index\<close>.\<close>

definition loopback_address :: "u8 \<Rightarrow> u16 \<Rightarrow> rstr" where
  "loopback_address b port = lit ''127.0.0.'' @ dec (unat b) @ [colon] @ dec (unat port)"

definition shard_host :: "nat \<Rightarrow> u8" where
  "shard_host index = LOOPBACK_SHARD_START + of_nat index"

fun collect :: "('e + 'a) list \<Rightarrow> 'e + 'a list" where
  "collect [] = Inr []"
| "collect (Inl e # rs) = Inl e"
| "collect (Inr x # rs) = map_sum id ((#) x) (collect rs)"

definition shard_relay :: "rstr list \<Rightarrow> forward_mode \<Rightarrow> nat \<Rightarrow> bench_error + relay_spec" where
  "shard_relay target_addresses forward_mode index =
     and_then (map_err BadEndpoint (endpoint_parse (loopback_address (shard_host index) 0) False True)) (\<lambda>listen.
     and_then (map_err BadEndpoint (endpoint_parse (target_addresses ! index) False False)) (\<lambda>target.
       Inr \<lparr>rs_name = lit ''benchmark-'' @ dec index, rs_listen = listen, rs_target = target,
            rs_connect_timeout = DEFAULT_CONNECT_TIMEOUT, rs_idle_timeout = None,
            rs_max_connections = None, rs_max_connecting = None, rs_tcp_keepalive = None,
            rs_dns_refresh = None, rs_socket_buffer_size = None, rs_buffer_size = DEFAULT_BUFFER_SIZE,
            rs_forward_mode = forward_mode\<rparr>))"

definition sharded_settings :: "rstr list \<Rightarrow> forward_mode \<Rightarrow> bench_error + settings" where
  "sharded_settings target_addresses forward_mode =
     (if length target_addresses \<noteq> RELAY_SHARDS then Inl (TargetShards (length target_addresses))
      else and_then (collect (map (shard_relay target_addresses forward_mode) [0..<RELAY_SHARDS])) (\<lambda>relays.
        Inr \<lparr>st_log_level = lit ''info'', st_metrics_listen = None, st_metrics_bearer_token = None,
             st_metrics_tls_cert = None, st_metrics_tls_key = None,
             st_shutdown_timeout = DEFAULT_SHUTDOWN_TIMEOUT, st_global_max_connections = None,
             st_global_max_connecting = None, st_buffer_pool_size = DEFAULT_BUFFER_POOL_SIZE,
             st_connection_log_sample_rate = DEFAULT_CONNECTION_LOG_SAMPLE_RATE,
             st_reuse_port = False, st_relays = relays\<rparr>))"

lemma collect_map:
  "(\<And>x. x \<in> set xs \<Longrightarrow> f x = Inr (g x)) \<Longrightarrow> collect (map f xs) = Inr (map g xs)"
  by (induction xs) simp_all

lemma loopback_plain:
  "colon \<notin> set (lit ''127.0.0.'' @ dec n)" "\<forall>c\<in>set (lit ''127.0.0.'' @ dec n). \<not> is_whitespace c"
  using colon_not_in_dec [of n] digit_not_whitespace [OF dec_digits, of _ n]
  by (auto simp: lit_def is_whitespace_def)

lemma loopback_wf:
  assumes "port = 0 \<longrightarrow> az"
  shows "wf_endpoint az \<lparr>ep_address = loopback_address b port, ep_host = lit ''127.0.0.'' @ dec (unat b), ep_port = port\<rparr>"
proof -
  have "lit ''127.0.0.'' @ dec (unat b) \<noteq> lit ''*''" by (simp add: lit_def)
  moreover have "loopback_address b port = format_address (lit ''127.0.0.'' @ dec (unat b)) port"
    using loopback_plain(1) [of "unat b"] by (simp only: loopback_address_def format_address_def if_False append_assoc)
  ultimately show ?thesis using assms loopback_plain [of "unat b"] unfolding wf_endpoint_def
    by (simp del: set_append)
qed

lemma loopback_parse:
  assumes "port = 0 \<longrightarrow> az"
  shows "endpoint_parse (loopback_address b port) ae az =
     Inr \<lparr>ep_address = loopback_address b port, ep_host = lit ''127.0.0.'' @ dec (unat b), ep_port = port\<rparr>"
proof -
  have "reparsable_host (lit ''127.0.0.'' @ dec (unat b))" by (simp add: reparsable_host_def lit_def)
  then show ?thesis using endpoint_parse_address [OF loopback_wf [OF assms, of b], of az ae] assms by simp
qed

lemma dec_inject: "i \<le> m \<Longrightarrow> j \<le> m \<Longrightarrow> dec i = dec j \<Longrightarrow> i = j"
  by (metis parse_unsigned_dec sum.inject(2))

text \<open>
  Whatever ports the target was given, the relay accepts the settings, except \<open>splice\<close> off Linux;
  every shard has a loopback address of its own, and no limit rejects a client.
\<close>

lemma sharded_settings_valid:
  assumes "length ports = RELAY_SHARDS" "0 \<notin> set ports" "mode = Splice \<longrightarrow> pf = Linux"
  obtains s where
    "sharded_settings (map (\<lambda>i. loopback_address (shard_host i) (ports ! i)) [0..<RELAY_SHARDS]) mode = Inr s"
    "validate pf s = Inr ()"
    "map (\<lambda>r. ep_address (rs_target r)) (st_relays s) =
       map (\<lambda>i. loopback_address (shard_host i) (ports ! i)) [0..<RELAY_SHARDS]"
    "st_global_max_connections s = None" "\<forall>r\<in>set (st_relays s). rs_max_connections r = None \<and> rs_max_connecting r = None"
proof -
  let ?addrs = "map (\<lambda>i. loopback_address (shard_host i) (ports ! i)) [0..<RELAY_SHARDS]"
  let ?e = "\<lambda>i port. \<lparr>ep_address = loopback_address (shard_host i) port,
      ep_host = lit ''127.0.0.'' @ dec (unat (shard_host i)), ep_port = port\<rparr>"
  let ?r = "\<lambda>i. \<lparr>rs_name = lit ''benchmark-'' @ dec i, rs_listen = ?e i 0, rs_target = ?e i (ports ! i),
      rs_connect_timeout = DEFAULT_CONNECT_TIMEOUT, rs_idle_timeout = None,
      rs_max_connections = None, rs_max_connecting = None, rs_tcp_keepalive = None,
      rs_dns_refresh = None, rs_socket_buffer_size = None, rs_buffer_size = DEFAULT_BUFFER_SIZE,
      rs_forward_mode = mode\<rparr>"
  have "shard_relay ?addrs mode i = Inr (?r i)" if "i \<in> set [0..<RELAY_SHARDS]" for i
  proof -
    have "ports ! i \<noteq> 0" using that assms(1,2) nth_mem [of i ports] by fastforce
    then show ?thesis using that by (simp add: shard_relay_def loopback_parse)
  qed
  then have relays: "collect (map (shard_relay ?addrs mode) [0..<RELAY_SHARDS]) = Inr (map ?r [0..<RELAY_SHARDS])"
    by (rule collect_map)
  show thesis
  proof (rule that)
    show "sharded_settings ?addrs mode = Inr \<lparr>st_log_level = lit ''info'', st_metrics_listen = None,
        st_metrics_bearer_token = None, st_metrics_tls_cert = None, st_metrics_tls_key = None,
        st_shutdown_timeout = DEFAULT_SHUTDOWN_TIMEOUT, st_global_max_connections = None,
        st_global_max_connecting = None, st_buffer_pool_size = DEFAULT_BUFFER_POOL_SIZE,
        st_connection_log_sample_rate = DEFAULT_CONNECTION_LOG_SAMPLE_RATE,
        st_reuse_port = False, st_relays = map ?r [0..<RELAY_SHARDS]\<rparr>" (is "_ = Inr ?s")
      by (simp only: sharded_settings_def relays and_then.simps) simp
    have "trim (lit ''benchmark-'' @ dec i) \<noteq> []" for i
      using trim_id [of "lit ''benchmark-'' @ dec i"] digit_not_whitespace [OF dec_digits, of _ i]
      by (auto simp: lit_def is_whitespace_def)
    then have "valid_relay pf (?r i)" for i
      using assms(3) by (simp add: valid_relay_def DEFAULT_CONNECT_TIMEOUT_def DEFAULT_BUFFER_SIZE_def
          from_secs_def is_zero_def)
    moreover have "distinct (map (\<lambda>i. lit ''benchmark-'' @ dec i) [0..<RELAY_SHARDS])"
      using dec_inject [of _ RELAY_SHARDS] by (auto simp: distinct_map inj_on_def)
    moreover have "RELAY_SHARDS \<noteq> 0" by (simp add: RELAY_SHARDS_def)
    ultimately show "validate pf ?s = Inr ()"
      unfolding validate_iff_valid
      by (simp add: valid_settings_def listener_keys_def comp_def DEFAULT_SHUTDOWN_TIMEOUT_def
          DEFAULT_BUFFER_POOL_SIZE_def DEFAULT_CONNECTION_LOG_SAMPLE_RATE_def from_secs_def is_zero_def)
  qed simp_all
qed

section \<open>Clients and barrier\<close>

text \<open>A client sends its payload once and leaves as soon as it has the answer.\<close>

definition bench_round_trip ::
  "bytes \<Rightarrow> client_event \<Rightarrow> client_phase \<Rightarrow> load_state \<Rightarrow> (client_phase \<times> load_state) option" where
  "bench_round_trip payload event phase s =
     map_option (\<lambda>(c, st). (if c = Holding then Leaving (Inr ()) else c, st))
       (round_trip 1 payload event phase s)"

inductive bench_step :: "usize \<Rightarrow> bytes \<Rightarrow> load_run \<Rightarrow> load_run \<Rightarrow> bool"
  for connections :: usize and payload :: bytes where
  main: "main_step connections s = Some s' \<Longrightarrow> bench_step connections payload s s'"
| client: "k < length (lr_clients s) \<Longrightarrow>
    bench_round_trip payload event (lr_clients s ! k) (lr_state s) = Some (phase, state) \<Longrightarrow>
    bench_step connections payload s (client_moves k phase state s)"

definition bench_total_bytes :: "usize \<Rightarrow> nat \<Rightarrow> u64" where
  "bench_total_bytes connections failed = (connections - of_nat failed) * PAYLOAD_SIZE * 2"

text \<open>Its runs are runs of the external load generator, so \<open>load_inv\<close> holds in all of them.\<close>

lemma bench_step_refines:
  assumes "bench_step connections payload s s'"
  shows "(load_step connections 1 payload)\<^sup>*\<^sup>* s s'"
  using assms
proof cases
  case main
  then show ?thesis by (blast intro: load_step.main)
next
  case (client k event phase state)
  then obtain c where c: "round_trip 1 payload event (lr_clients s ! k) (lr_state s) = Some (c, state)"
    "phase = (if c = Holding then Leaving (Inr ()) else c)"
    by (auto simp: bench_round_trip_def)
  have first: "load_step connections 1 payload s (client_moves k c state s)"
    unfolding client_moves_def using client(2) c(1) by (rule load_step.client)
  show ?thesis
  proof (cases "c = Holding")
    case True
    have "round_trip 1 payload ClientSlept (lr_clients (client_moves k c state s) ! k) state = Some (phase, state)"
      using client(2) c(2) True by (simp add: round_trip_def)
    then have "load_step connections 1 payload (client_moves k c state s) s'"
      using load_step.client [of k "client_moves k c state s" 1 payload ClientSlept phase state connections] client(1,2)
      by (simp add: client_moves_def)
    with first show ?thesis by (meson converse_rtranclp_into_rtranclp r_into_rtranclp)
  next
    case False
    then show ?thesis using first c(2) client(1) by auto
  qed
qed

lemma bench_reachable: "(bench_step connections payload)\<^sup>*\<^sup>* s s' \<Longrightarrow> (load_step connections 1 payload)\<^sup>*\<^sup>* s s'"
  by (induction rule: rtranclp_induct) (use bench_step_refines in \<open>blast intro: rtranclp_trans\<close>)+

interpretation benching: invariant_of "bench_step connections payload" load_start "load_inv connections"
  for connections payload
proof
  show "load_inv connections load_start" by (rule load_start_inv)
  show "load_inv connections s'" if "load_inv connections s" "bench_step connections payload s s'" for s s'
    using bench_step_refines [OF that(2)] that(1)
    by (induction rule: rtranclp_induct) (use load_step_inv in blast)+
qed

section \<open>The target\<close>

definition bench_echo :: "echo_event \<Rightarrow> echo_state \<Rightarrow> echo_state option" where
  "bench_echo = echo (unat PAYLOAD_SIZE) (from_secs 0)"

definition spawn_target_step :: "acceptor_event \<Rightarrow> acceptor \<Rightarrow> acceptor option" where
  "spawn_target_step = acceptor_step (unat PAYLOAD_SIZE) (from_secs 0)"

text \<open>Without a delay an answer is written at once.\<close>

lemma bench_echo_answers:
  assumes "run_events bench_echo evs echo_start = Some e"
  shows "prefix (eo_replied e) (eo_received e)" "eo_phase e \<noteq> EchoDelaying bs"
proof -
  show "prefix (eo_replied e) (eo_received e)"
    using assms unfolding bench_echo_def by (rule echoing.transparent)
  have "eo_phase s' \<noteq> EchoDelaying bs" if "bench_echo ev s = Some s'" "eo_phase s \<noteq> EchoDelaying bs" for ev s s'
    using that by (auto simp: bench_echo_def echo_def from_secs_def is_zero_def
        split: echo_phase.splits echo_event.splits sum.splits option.splits if_splits)
  then have all: "eo_phase s \<noteq> EchoDelaying bs \<Longrightarrow> run_events bench_echo evs s = Some e \<Longrightarrow> eo_phase e \<noteq> EchoDelaying bs" for s
    by (induction evs arbitrary: s) (auto simp: bind_eq_Some_conv)
  then show "eo_phase e \<noteq> EchoDelaying bs" using all [of echo_start] assms by (simp add: echo_start_def)
qed

section \<open>Stopping\<close>

text \<open>
  \<open>stop_relay\<close> gives the relay 45 seconds to end by itself, \<open>stop_target\<close> the target 10; a task that
  does not is aborted, which is reported but is no error. The first component says whether the
  \<open>forced\<close> line is printed.
\<close>

datatype 'e task_end = Panicked | Returned "'e + unit"

definition stop_relay :: "'e task_end timed \<Rightarrow> bool \<times> ('e option + unit)" where
  "stop_relay ended =
     (case ended of
        InTime Panicked \<Rightarrow> (False, Inl None)
      | InTime (Returned (Inl e)) \<Rightarrow> (False, Inl (Some e))
      | InTime (Returned (Inr _)) \<Rightarrow> (False, Inr ())
      | Elapsed \<Rightarrow> (True, Inr ()))"

text \<open>The target's task has no result of its own: \<open>Inl ()\<close> is its panic.\<close>

definition stop_target :: "(unit + unit) timed \<Rightarrow> bool \<times> (unit + unit)" where
  "stop_target ended = (case ended of InTime result \<Rightarrow> (False, result) | Elapsed \<Rightarrow> (True, Inr ()))"

end
