(* ===== verification/Spec2Isabelle.thy ===== *)
theory Spec2Isabelle
  imports Server_Process Relay_Refinement Relay_Forward Metrics_Server Load_Bench
begin

text \<open>
  portrelay, a protocol-agnostic TCP relay.

  The program listens on the configured addresses and connects every accepted client to the
  one target its relay names, copying bytes both ways until both sides are done. Around that
  stand the configuration (command line or TOML file), admission limits held in semaphores,
  counters served as a Prometheus page, and a graceful shutdown with a deadline.

  Where the code is modelled (paths under src/src/):

  \<^item> \<open>Prelude\<close>, \<open>Rust_Std\<close>: results, options, checked slices, machine integers (\<open>usize\<close> is
    64 bits; arithmetic wraps as in the release profile), strings as lists of code points, byte
    strings, \<open>Duration\<close>, \<open>io::Error\<close>. No code of the program.
  \<^item> \<open>Endpoint\<close>, \<open>Settings\<close>, \<open>Load_Settings\<close>: error.rs, config.rs and cli.rs. \<open>endpoint_parse\<close> is
    \<open>Endpoint::parse\<close>, \<open>validate\<close> is \<open>Settings::validate\<close> with its loop \<open>validate_relays\<close>,
    \<open>load_settings\<close> and the two \<open>settings_from_\<close> functions keep their names. clap, toml, serde,
    humantime and the file system are arguments.
  \<^item> \<open>Metrics\<close>, \<open>Metrics_Text\<close>: metrics.rs. The atomics are words that wrap; \<open>f64\<close> formatting is
    computed exactly (53-bit rounding), so the range in which the printed sum is exact is a
    lemma and not an assumption.
  \<^item> \<open>Metrics_Http\<close>: the metrics endpoint of server.rs (lines 575 to 695). The constant-time
    comparison is an argument assumed to decide equality.
  \<^item> \<open>Limits\<close>: \<open>acquire_permit\<close> (server.rs) over tokio's semaphores, which enter as a record of
    operations with their documented laws, the locale \<open>semaphore\<close>. The locale \<open>limiter\<close> is the
    contract admission relies on; a sublocale derives it from the semaphore laws, and a counting
    semaphore interprets both.
  \<^item> \<open>Connection\<close>: \<open>handle_connection\<close> and \<open>apply_socket_options\<close> (relay.rs), with the order in
    which a task drops its permits. \<open>Relay_System\<close>: \<open>run_relay_listener\<close> and \<open>Server::run\<close>
    (server.rs) and the tasks they spawn as one state machine; one step is one atomic action of
    one task, so its runs are the interleavings of the multi-threaded runtime.
  \<^item> \<open>Relay_Invariants\<close>, \<open>Relay_Counters\<close>, \<open>Relay_Admission\<close>, \<open>Relay_Correctness\<close>: the invariants
    of that machine and what follows for every reachable state (permits conserved, limits
    enforced, counters exact, ids unique, admission all or nothing, clean shutdown).
  \<^item> \<open>Relay_Refinement\<close>: the abstract promise, a broker that admits a connection in one step when
    all four limits have room, and the proof that the machine refines it. \<open>Fair_Runs\<close>,
    \<open>Relay_Liveness\<close>: infinite runs under weak fairness (a generic locale with its progress
    rule), and that a signalled shutdown completes and a forced one ends every connection.
  \<^item> \<open>Forwarding\<close>: \<open>copy_direction\<close>, \<open>splice_direction\<close>, \<open>splice_ready\<close> and the errno mapping
    (relay.rs), both loops as interpretations of the contract \<open>forwarder\<close>. \<open>Relay_Transfer\<close>:
    \<open>forward_with_mode\<close>, the splice set-up, \<open>try_join!\<close> and \<open>idle_watchdog\<close>. \<open>Relay_Forward\<close>: a
    forwarded connection as a whole, from the choice of the backend to the byte counters.
  \<^item> \<open>Buffer_Pool\<close>, \<open>Resolver\<close>: \<open>BufferPool\<close>, \<open>PooledBuffer\<close> and \<open>TargetResolver\<close> (relay.rs) with
    the refresh task of server.rs. \<open>Metrics_Tls\<close>: \<open>build_metrics_tls_acceptor\<close>. \<open>Server_Bind\<close>:
    \<open>Server::bind\<close> and \<open>bind_listener\<close>.
  \<^item> \<open>Metrics_Server\<close>: \<open>run_metrics_listener\<close> and the connections it serves as a machine beside the
    server's, which the counts of helpers and pages in \<open>Relay_System\<close> abstract.
  \<^item> \<open>Server_Process\<close>: main.rs, \<open>run_until_signal\<close>, \<open>wait_for_shutdown_signal\<close>, and the state
    \<open>Server::run\<close> starts from.
  \<^item> \<open>Echo_Target\<close>, \<open>Load_Client\<close>, \<open>Load_Bench\<close>: the load tests under src/examples/. The echo loop
    is one more \<open>forwarder\<close>, so a relayed echo is a prefix of what was sent; the load generator's
    clients and its start barrier are a machine with a measure; load.rs refines it and its
    settings are shown to be valid.

  What an \<open>await\<close> returns (reads, writes, connects, timers, signals) is an event the
  environment chooses; where the environment has a contract (a read returns no more than the
  buffer holds, \<open>write_all\<close> succeeds only with everything written) the step function refuses
  events that break it. Which ready branch of a \<open>select!\<close> is taken is free, except in the
  \<open>biased\<close> one of the listener.

  Loops are driven by the list of their events, so no fuel is needed: that reading a request
  head ends is proved from the size of its buffer (4096 reads suffice), that shutdown
  completes from measures on the listeners and the phases of \<open>run\<close>, and the length of a load
  test from \<open>load_fuel\<close>.

  Not modelled: the TLS protocol (rustls), the logging set-up, the text of log lines and of
  configuration errors, memory ordering of the relaxed counters (each is one atomic
  word), poisoning of the pool's mutex (the release profile aborts on panic), and the timings
  and rates the load tests print.

  This theory holds the properties that span components.
\<close>

section \<open>Properties\<close>

text \<open>
  C1. End to end, the limits of the settings hold: a server bound from settings never has more
  live connections than \<open>max_connections\<close>, nor more connections waiting for their upstream than
  \<open>max_connecting\<close>, globally and for the relay at each position, whatever is interleaved.
\<close>

theorem settings_limits_enforced:
  assumes "semaphore ops" "bind ops pf tls lookup listen metrics_listen s = BindOk sv"
    "(server_step ops rate)\<^sup>*\<^sup>* (run_start sv) st" "i < length (sb_relays sv)"
  shows "(st_global_max_connections s = Some a \<longrightarrow> live_tasks st \<le> unat a) \<and>
     (st_global_max_connecting s = Some b \<longrightarrow> connecting_tasks st \<le> unat b) \<and>
     (rs_max_connections (br_spec (sb_relays sv ! i)) = Some c \<longrightarrow> alive i st \<le> unat c) \<and>
     (rs_max_connecting (br_spec (sb_relays sv ! i)) = Some d \<longrightarrow> connecting_of i st \<le> unat d)"
proof -
  note f = bound_server_facts [OF assms(1,2,3)]
  note l = running_server.limits_hold [OF f]
  show ?thesis
    using l(1) [of "unat a"] l(3) [of "unat b"] l(2) [of i "unat c"] l(4) [of i "unat d"] assms(4)
    by (simp add: configured_limits_def)
qed

lemma settings_limits_enforced_witness:
  "\<exists>sv. bind counting_ops Linux example_tls (\<lambda>_ _. Inr [1 :: nat]) (\<lambda>_. Listening) Listening (example_settings (Some 3)) = BindOk sv \<and>
        live_tasks (run_start sv) \<le> 3"
proof -
  obtain sv where sv: "bind counting_ops Linux example_tls (\<lambda>_ _. Inr [1 :: nat]) (\<lambda>_. Listening) Listening
      (example_settings (Some 3)) = BindOk sv" using example_bind by blast
  then have "0 < length (sb_relays sv)" by (elim bind_OkE) simp
  from settings_limits_enforced [OF counting.semaphore_axioms sv rtranclp.rtrancl_refl this, where a = 3] sv
  show ?thesis by (simp add: example_settings_def)
qed



text \<open>
  C19. Settings that loaded are fit to run: the start never rejects them again, the sample rate the
  listeners divide by is not 0, every relay has a buffer of at least one byte, and an even
  number of at least two of them.
\<close>

theorem loaded_settings_run:
  assumes "load_settings pf read_to_string from_toml args = Inr s"
  shows "bind ops pf tls lookup listen metrics_listen s \<noteq> BindFailed (BindConfig e) \<and>
     st_connection_log_sample_rate s \<noteq> 0 \<and> 2 \<le> unat (st_buffer_pool_size s) \<and>
     even (unat (st_buffer_pool_size s)) \<and> (\<forall>r\<in>set (st_relays s). 1 \<le> unat (rs_buffer_size r))"
proof -
  have v: "valid_settings pf s" using load_settings_valid [OF assms] .
  have "bind_relays ops lookup n rate listen i rs \<noteq> BindFailed (BindConfig e)" for n rate i rs
    by (induction rs arbitrary: i)
      (auto simp: split_beta split: listen_result.splits option.splits bind_result.splits)
  then have "bind ops pf tls lookup listen metrics_listen s \<noteq> BindFailed (BindConfig e)"
    using v [folded validate_iff_valid] by (auto simp: bind_def Let_def
        split: sum.splits option.splits bind_result.splits listen_result.splits if_splits)
  moreover have "1 \<le> unat (rs_buffer_size r)" if "r \<in> set (st_relays s)" for r
    using v that by (simp add: valid_settings_def valid_relay_def Suc_le_eq unat_gt_0)
  ultimately show ?thesis using v by (simp add: valid_settings_def)
qed

lemma loaded_settings_run_witness:
  "\<exists>s. load_settings Linux (\<lambda>_. Inl (OsError 2)) (\<lambda>_. Inl []) example_args = Inr s \<and>
       st_connection_log_sample_rate s \<noteq> 0"
proof -
  obtain s where s: "load_settings Linux (\<lambda>_. Inl (OsError 2)) (\<lambda>_. Inl []) example_args = Inr s"
    using example_loads by blast
  from loaded_settings_run [OF s, of counting_ops example_tls "\<lambda>_ _. Inr [1 :: nat]"
      "\<lambda>_. Listening" Listening] s
  show ?thesis by blast
qed

end
